(* ===== verification/Reyao_Prelude.thy ===== *)
theory Reyao_Prelude
  imports Main "HOL-Library.Word"
begin

text \<open>
  Shared vocabulary of the development: the result type with which every C++ throw, failed
  \<open>assert\<close> and invalid memory access is a value, the arithmetic of \<open>size_t\<close> and of the
  conversions between \<open>size_t\<close> and \<open>int\<close> (x86-64, so 64 and 32 bits), the operations of
  \<open>std::vector<char>\<close> and \<open>memcpy\<close> the sources use, and generic lemmas on them.

  A byte of the program (\<open>char\<close>) is an Isabelle \<open>char\<close>, a \<open>std::string\<close> a \<open>string\<close>.
\<close>

named_theorems size_simps \<open>size_t arithmetic that does not wrap\<close>

section \<open>Errors as values\<close>

text \<open>
  \<open>Out_of_range\<close>, \<open>Length_error\<close> and \<open>Invalid_argument\<close> are the standard exceptions the code
  can raise, \<open>Assert_fail\<close> a failing \<open>assert\<close> (the build never defines \<open>NDEBUG\<close>, so
  assertions are compiled in and abort the process), \<open>Memory_fault\<close> an access outside the
  object it starts in, which C++ leaves undefined, \<open>Thread_exit\<close> the return from the entry
  function of a context without a successor, which ends the thread.
\<close>

datatype cpp_error =
  Out_of_range
| Length_error
| Invalid_argument
| Assert_fail
| Memory_fault
| Thread_exit

type_synonym 'a res = "cpp_error + 'a"
type_synonym byte = char

fun rbind :: "'e + 'a \<Rightarrow> ('a \<Rightarrow> 'e + 'b) \<Rightarrow> 'e + 'b" where
  "rbind (Inl e) f = Inl e"
| "rbind (Inr x) f = f x"

lemma rbind_Inr_iff: "rbind m f = Inr y \<longleftrightarrow> (\<exists>x. m = Inr x \<and> f x = Inr y)"
  by (cases m) auto

lemma rbind_Inl_iff: "rbind m f = Inl e \<longleftrightarrow> m = Inl e \<or> (\<exists>x. m = Inr x \<and> f x = Inl e)"
  by (cases m) auto

lemma rbind_cong [fundef_cong]:
  "m = m' \<Longrightarrow> (\<And>x. m' = Inr x \<Longrightarrow> f x = f' x) \<Longrightarrow> rbind m f = rbind m' f'"
  by (cases m') auto

lemma rbind_assoc: "rbind (rbind m f) g = rbind m (\<lambda>x. rbind (f x) g)"
  by (cases m) auto

fun map_res :: "('a \<Rightarrow> 'b) \<Rightarrow> 'e + 'a \<Rightarrow> 'e + 'b" where
  "map_res f (Inl e) = Inl e"
| "map_res f (Inr x) = Inr (f x)"

lemma map_res_Inr_iff: "map_res f m = Inr y \<longleftrightarrow> (\<exists>x. m = Inr x \<and> y = f x)"
  by (cases m) auto

section \<open>Machine integers\<close>

abbreviation size_mod :: nat where
  "size_mod \<equiv> 18446744073709551616"

text \<open>\<open>size_t\<close> addition and subtraction, and the implicit conversions.\<close>

definition size_add :: "nat \<Rightarrow> nat \<Rightarrow> nat" where
  "size_add a b = (a + b) mod size_mod"

definition size_sub :: "nat \<Rightarrow> nat \<Rightarrow> nat" where
  "size_sub a b = nat ((int a - int b) mod int size_mod)"

definition size_of_int :: "int \<Rightarrow> nat" where
  "size_of_int x = nat (x mod int size_mod)"

definition int_of_size :: "nat \<Rightarrow> int" where
  "int_of_size n = (int n + 2147483648) mod 4294967296 - 2147483648"

text \<open>Signed division and remainder of C++, which truncate towards zero.\<close>

definition c_div :: "int \<Rightarrow> int \<Rightarrow> int" where
  "c_div a b = sgn a * sgn b * (\<bar>a\<bar> div \<bar>b\<bar>)"

definition c_mod :: "int \<Rightarrow> int \<Rightarrow> int" where
  "c_mod a b = a - b * c_div a b"

lemma size_add_less [simp]: "size_add a b < size_mod"
  by (simp add: size_add_def)

lemma size_add_nowrap [size_simps]: "a + b < size_mod \<Longrightarrow> size_add a b = a + b"
  by (simp add: size_add_def)

lemma size_sub_nowrap [size_simps]: "b \<le> a \<Longrightarrow> a < size_mod \<Longrightarrow> size_sub a b = a - b"
  by (simp add: size_sub_def of_nat_diff nat_diff_distrib)

lemma size_sub_wrap: "a < b \<Longrightarrow> b \<le> size_mod \<Longrightarrow> size_sub a b = size_mod - (b - a)"
proof -
  assume *: "a < b" "b \<le> size_mod"
  have "(int a - int b) mod int size_mod = (int a - int b + int size_mod) mod int size_mod"
    by simp
  also have "\<dots> = int a - int b + int size_mod"
    using * by (intro mod_pos_pos_trivial) auto
  finally show ?thesis
    using * by (simp add: size_sub_def)
qed

lemma size_of_int_nonneg [size_simps]: "0 \<le> x \<Longrightarrow> x < int size_mod \<Longrightarrow> size_of_int x = nat x"
  by (simp add: size_of_int_def)

lemma size_of_int_neg: "x < 0 \<Longrightarrow> - int size_mod \<le> x \<Longrightarrow> size_of_int x = nat (x + int size_mod)"
proof -
  assume *: "x < 0" "- int size_mod \<le> x"
  have "x mod int size_mod = (x + int size_mod) mod int size_mod"
    by simp
  also have "\<dots> = x + int size_mod"
    using * by (intro mod_pos_pos_trivial) auto
  finally show ?thesis by (simp add: size_of_int_def)
qed

lemma int_of_size_small [size_simps]: "n < 2147483648 \<Longrightarrow> int_of_size n = int n"
  by (simp add: int_of_size_def)

lemma int_of_size_bounds: "- 2147483648 \<le> int_of_size n" "int_of_size n < 2147483648"
  by (simp_all add: int_of_size_def)

section \<open>Vectors of bytes and raw memory\<close>

text \<open>
  \<open>std::vector<char>::resize\<close> keeps the common prefix, fills with zero bytes, and raises
  \<open>std::length_error\<close> above \<open>max_size()\<close>. \<open>mem_read\<close>, \<open>mem_write\<close> and \<open>mem_move\<close> are
  \<open>memcpy\<close> out of, into and \<open>std::copy\<close> inside (towards the front) such a vector; outside its
  bounds they are a \<open>Memory_fault\<close>.
\<close>

definition vec_max_size :: nat where
  "vec_max_size = 9223372036854775807"

definition vec_resize :: "nat \<Rightarrow> byte list \<Rightarrow> byte list res" where
  "vec_resize n xs =
     (if vec_max_size < n then Inl Length_error
      else Inr (take n xs @ replicate (n - length xs) (char_of (0::nat))))"

definition mem_read :: "nat \<Rightarrow> nat \<Rightarrow> byte list \<Rightarrow> byte list res" where
  "mem_read i n xs =
     (if i + n \<le> length xs then Inr (take n (drop i xs)) else Inl Memory_fault)"

definition mem_write :: "nat \<Rightarrow> byte list \<Rightarrow> byte list \<Rightarrow> byte list res" where
  "mem_write d ys xs =
     (if d + length ys \<le> length xs then Inr (take d xs @ ys @ drop (d + length ys) xs)
      else Inl Memory_fault)"

definition mem_move :: "nat \<Rightarrow> nat \<Rightarrow> nat \<Rightarrow> byte list \<Rightarrow> byte list res" where
  "mem_move d i n xs =
     (if i + n \<le> length xs \<and> d + n \<le> length xs
      then Inr (take d xs @ take n (drop i xs) @ drop (d + n) xs)
      else Inl Memory_fault)"

definition seg :: "nat \<Rightarrow> nat \<Rightarrow> 'a list \<Rightarrow> 'a list" where
  "seg i j xs = take (j - i) (drop i xs)"

lemma length_seg [simp]: "j \<le> length xs \<Longrightarrow> length (seg i j xs) = j - i"
  by (simp add: seg_def)

lemma seg_empty [simp]: "j \<le> i \<Longrightarrow> seg i j xs = []"
  by (simp add: seg_def)

lemma take_seg: "i + n \<le> j \<Longrightarrow> take n (seg i j xs) = seg i (i + n) xs"
  by (simp add: seg_def min_def)

lemma drop_seg: "drop n (seg i j xs) = seg (i + n) j xs"
  by (simp add: seg_def drop_take add.commute)

lemma seg_append_seg: "i \<le> j \<Longrightarrow> j \<le> k \<Longrightarrow> seg i j xs @ seg j k xs = seg i k xs"
proof -
  assume "i \<le> j" "j \<le> k"
  then have "seg i k xs = take (j - i) (seg i k xs) @ drop (j - i) (seg i k xs)"
    by (simp only: append_take_drop_id)
  then show ?thesis
    using \<open>i \<le> j\<close> \<open>j \<le> k\<close> by (simp add: take_seg drop_seg)
qed

lemma seg_append_left: "j \<le> length xs \<Longrightarrow> seg i j (xs @ ys) = seg i j xs"
  by (cases "i \<le> j") (simp_all add: seg_def)

lemma seg_append_right: "length xs \<le> i \<Longrightarrow> seg i j (xs @ ys) = seg (i - length xs) (j - length xs) ys"
  by (simp add: seg_def)

lemma seg_take: "j \<le> n \<Longrightarrow> seg i j (take n xs) = seg i j xs"
  by (simp add: seg_def drop_take min_def)

section \<open>Association lists\<close>

lemma map_of_rev_distinct: "distinct (map fst xs) \<Longrightarrow> map_of (rev xs) = map_of xs"
  using map_of_inject_set [of "rev xs" xs] by (simp flip: rev_map)

end
