(* ===== verification/C_Text.thy ===== *)
theory C_Text
  imports Reyao_Prelude
begin

text \<open>
  The text functions of the C and C++ standard libraries that the sources call, in the C locale:
  character classes, \<open>strcmp\<close> and \<open>strcasecmp\<close> (on the bytes before the first NUL, as
  \<open>c_str()\<close> exposes them), \<open>std::find\<close> in a range, decimal output of an unsigned integer and
  \<open>std::stoi\<close> with its two exceptions.
\<close>

section \<open>Characters\<close>

definition ord_of :: "char \<Rightarrow> nat" where
  "ord_of c = of_char c"

definition is_digit_c :: "char \<Rightarrow> bool" where
  "is_digit_c c \<longleftrightarrow> 48 \<le> ord_of c \<and> ord_of c \<le> 57"

definition is_space_c :: "char \<Rightarrow> bool" where
  "is_space_c c \<longleftrightarrow> ord_of c = 32 \<or> 9 \<le> ord_of c \<and> ord_of c \<le> 13"

definition is_alpha_c :: "char \<Rightarrow> bool" where
  "is_alpha_c c \<longleftrightarrow> 65 \<le> ord_of c \<and> ord_of c \<le> 90 \<or> 97 \<le> ord_of c \<and> ord_of c \<le> 122"

definition tolower_c :: "char \<Rightarrow> char" where
  "tolower_c c = (if 65 \<le> ord_of c \<and> ord_of c \<le> 90 then char_of (ord_of c + 32) else c)"

definition toupper_c :: "char \<Rightarrow> char" where
  "toupper_c c = (if 97 \<le> ord_of c \<and> ord_of c \<le> 122 then char_of (ord_of c - 32) else c)"

lemma ord_of_less [simp]: "ord_of c < 256"
  by (simp add: ord_of_def)

lemma ord_of_inj [simp]: "ord_of c = ord_of d \<longleftrightarrow> c = d"
  by (simp add: ord_of_def)

lemma ord_of_char_of: "n < 256 \<Longrightarrow> ord_of (char_of n) = n"
  by (simp add: ord_of_def)

section \<open>C strings\<close>

definition c_str :: "string \<Rightarrow> string" where
  "c_str s = takeWhile (\<lambda>c. c \<noteq> CHR 0x00) s"

fun cmp_bytes :: "string \<Rightarrow> string \<Rightarrow> int" where
  "cmp_bytes [] [] = 0"
| "cmp_bytes [] (_ # _) = -1"
| "cmp_bytes (_ # _) [] = 1"
| "cmp_bytes (x # xs) (y # ys) =
     (if x = y then cmp_bytes xs ys else if ord_of x < ord_of y then -1 else 1)"

definition fold_case :: "string \<Rightarrow> string" where
  "fold_case s = map tolower_c (c_str s)"

definition strcmp :: "string \<Rightarrow> string \<Rightarrow> int" where
  "strcmp a b = cmp_bytes (c_str a) (c_str b)"

definition strcasecmp :: "string \<Rightarrow> string \<Rightarrow> int" where
  "strcasecmp a b = cmp_bytes (fold_case a) (fold_case b)"

lemma cmp_bytes_0_iff [simp]: "cmp_bytes a b = 0 \<longleftrightarrow> a = b"
  by (induction a b rule: cmp_bytes.induct) auto

lemma cmp_bytes_neg: "cmp_bytes a b < 0 \<longleftrightarrow> cmp_bytes b a > 0"
proof (induction a b rule: cmp_bytes.induct)
  case (4 x xs y ys)
  have "x = y \<or> ord_of x < ord_of y \<or> ord_of y < ord_of x" using ord_of_inj nat_neq_iff by metis
  with 4 show ?case by auto
qed auto

lemma cmp_bytes_trans: "cmp_bytes a b < 0 \<Longrightarrow> cmp_bytes b c < 0 \<Longrightarrow> cmp_bytes a c < 0"
proof (induction a b arbitrary: c rule: cmp_bytes.induct)
  case (2 y ys)
  then show ?case by (cases c) auto
next
  case (4 x xs y ys)
  then show ?case by (cases c) (auto split: if_splits)
qed auto

lemma cmp_bytes_total: "a \<noteq> b \<Longrightarrow> cmp_bytes a b < 0 \<or> cmp_bytes b a < 0"
  using cmp_bytes_0_iff cmp_bytes_neg by (metis linorder_neqE)

section \<open>Searching a range\<close>

text \<open>
  \<open>std::find(first, last, c)\<close> as the distance from \<open>first\<close>; the length of the range when the
  character is absent.
\<close>

fun find_ch :: "char \<Rightarrow> string \<Rightarrow> nat" where
  "find_ch c [] = 0"
| "find_ch c (x # xs) = (if x = c then 0 else Suc (find_ch c xs))"

lemma find_ch_le: "find_ch c s \<le> length s"
  by (induction s) auto

lemma find_ch_absent: "find_ch c s = length s \<longleftrightarrow> c \<notin> set s"
  by (induction s) auto

lemma find_ch_append: "c \<notin> set a \<Longrightarrow> find_ch c (a @ b) = length a + find_ch c b"
  by (induction a) auto

lemma find_ch_append_hit: "c \<notin> set a \<Longrightarrow> find_ch c (a @ c # b) = length a"
  by (simp add: find_ch_append)

lemma nth_find_ch: "c \<in> set s \<Longrightarrow> s ! find_ch c s = c"
  by (induction s) auto

lemma take_find_ch: "c \<notin> set (take (find_ch c s) s)"
  by (induction s) auto

section \<open>Decimal output and input\<close>

function dec :: "nat \<Rightarrow> string" where
  "dec n = (if n < 10 then [char_of (48 + n)] else dec (n div 10) @ [char_of (48 + n mod 10)])"
  by pat_completeness auto
termination
  by (relation "measure id") auto

declare dec.simps [simp del]

definition dec_int :: "int \<Rightarrow> string" where
  "dec_int x = (if x < 0 then CHR ''-'' # dec (nat (- x)) else dec (nat x))"

fun digits_val :: "nat \<Rightarrow> string \<Rightarrow> nat" where
  "digits_val acc [] = acc"
| "digits_val acc (c # cs) = digits_val (acc * 10 + (ord_of c - 48)) cs"

text \<open>
  \<open>std::stoi\<close>: leading white space, an optional sign, digits; what follows the digits is
  ignored. No digit is \<open>std::invalid_argument\<close>, a value outside \<open>int\<close> is
  \<open>std::out_of_range\<close>.
\<close>

definition stoi :: "string \<Rightarrow> int res" where
  "stoi s =
     (let t = dropWhile is_space_c (c_str s);
          neg = (t \<noteq> [] \<and> hd t = CHR ''-'');
          u = (if t \<noteq> [] \<and> (hd t = CHR ''-'' \<or> hd t = CHR ''+'') then tl t else t);
          ds = takeWhile is_digit_c u;
          v = int (digits_val 0 ds);
          x = (if neg then - v else v)
      in if ds = [] then Inl Invalid_argument
         else if x < - 2147483648 \<or> 2147483647 < x then Inl Out_of_range
         else Inr x)"

lemma digits_val_append: "digits_val acc (a @ b) = digits_val (digits_val acc a) b"
  by (induction a arbitrary: acc) auto

lemma dec_digits: "\<forall>c \<in> set (dec n). is_digit_c c"
proof (induction n rule: dec.induct)
  case (1 n)
  then show ?case by (subst dec.simps) (auto simp: is_digit_c_def ord_of_char_of)
qed

lemma dec_nonempty [simp]: "dec n \<noteq> []"
  by (subst dec.simps) simp

lemma digits_val_dec: "digits_val 0 (dec n) = n"
proof (induction n rule: dec.induct)
  case (1 n)
  then show ?case
    by (subst dec.simps) (auto simp: digits_val_append ord_of_char_of)
qed

lemma is_digit_not_space: "is_digit_c c \<Longrightarrow> \<not> is_space_c c"
  by (auto simp: is_digit_c_def is_space_c_def)

lemma is_digit_neq: "is_digit_c c \<Longrightarrow> c \<noteq> CHR ''-'' \<and> c \<noteq> CHR ''+'' \<and> c \<noteq> CHR 0x00 \<and>
    c \<noteq> CHR 0x0D \<and> c \<noteq> CHR 0x0A \<and> c \<noteq> CHR '' '' \<and> c \<noteq> CHR '':''"
  by (auto simp: is_digit_c_def ord_of_def)

lemma c_str_id: "CHR 0x00 \<notin> set s \<Longrightarrow> c_str s = s"
  by (auto simp: c_str_def takeWhile_eq_all_conv)

text \<open>Output and input of a non-negative \<open>int\<close> agree.\<close>

lemma stoi_dec:
  assumes "n < 2147483648"
  shows "stoi (dec n) = Inr (int n)"
proof -
  have d: "\<And>c. c \<in> set (dec n) \<Longrightarrow> is_digit_c c" using dec_digits by blast
  then have "CHR 0x00 \<notin> set (dec n)" using is_digit_neq by blast
  then have c: "c_str (dec n) = dec n" by (rule c_str_id)
  obtain x xs where x: "dec n = x # xs" by (cases "dec n") auto
  then have dx: "is_digit_c x" using d by simp
  then have dw: "dropWhile is_space_c (dec n) = dec n" using x is_digit_not_space by simp
  have hd: "hd (dec n) \<noteq> CHR ''-''" "hd (dec n) \<noteq> CHR ''+''" using x is_digit_neq [OF dx] by simp_all
  have tw: "takeWhile is_digit_c (dec n) = dec n" using d by (simp add: takeWhile_eq_all_conv)
  show ?thesis using assms hd by (simp add: stoi_def c dw tw digits_val_dec)
qed

end
