(* ===== verification/Header_Map.thy ===== *)
theory Header_Map
  imports C_Text
begin

text \<open>
  The ordered map with case-insensitive keys that requests and responses keep their headers in:
  \<open>std::map<std::string, std::string, CaseInsensitiveLess>\<close> (\<open>StrMap\<close> of
  \<open>http_request.h\<close>, \<open>HeaderMap\<close> of \<open>http_response.h\<close>). The model is the list of entries in
  the map's iteration order. The locale \<open>folded_map\<close> is what the clients rely on: a map in which
  two keys with the same folding are one key.
\<close>

section \<open>The contract\<close>

locale folded_map =
  fixes empty :: "'m"
    and find :: "'k \<Rightarrow> 'm \<Rightarrow> 'v option"
    and assign :: "'k \<Rightarrow> 'v \<Rightarrow> 'm \<Rightarrow> 'm"
    and erase :: "'k \<Rightarrow> 'm \<Rightarrow> 'm"
    and fold_key :: "'k \<Rightarrow> 'c"
    and inv :: "'m \<Rightarrow> bool"
  assumes find_empty: "find k empty = None"
    and find_assign: "inv m \<Longrightarrow> find k' (assign k v m) = (if fold_key k' = fold_key k then Some v else find k' m)"
    and find_erase: "inv m \<Longrightarrow> find k' (erase k m) = (if fold_key k' = fold_key k then None else find k' m)"
    and inv_empty: "inv empty"
    and inv_assign: "inv m \<Longrightarrow> inv (assign k v m)"
    and inv_erase: "inv m \<Longrightarrow> inv (erase k m)"
begin

lemma inv_assign_all: "inv m \<Longrightarrow> inv (fold (\<lambda>(k, v). assign k v) kvs m)"
  by (induction kvs arbitrary: m) (auto simp: inv_assign)

lemma find_assign_all:
  "inv m \<Longrightarrow> find k (fold (\<lambda>(k, v). assign k v) kvs m) =
    (case map_of (rev (map (\<lambda>(k, v). (fold_key k, v)) kvs)) (fold_key k) of
       None \<Rightarrow> find k m | Some v \<Rightarrow> Some v)"
proof (induction kvs arbitrary: m)
  case (Cons kv kvs)
  obtain k' v' where kv: "kv = (k', v')" by (cases kv)
  with Cons show ?case
    by (auto simp: inv_assign find_assign map_add_def split: option.split)
qed simp

end

section \<open>The map of the code\<close>

type_synonym str_map = "(string \<times> string) list"

definition CaseInsensitiveLess :: "string \<Rightarrow> string \<Rightarrow> bool" where
  "CaseInsensitiveLess lhs rhs \<longleftrightarrow> strcasecmp lhs rhs < 0"

text \<open>
  \<open>find\<close> stops at the first entry that is not less than the key; \<open>operator[]\<close> followed by an
  assignment replaces the value of an existing entry and keeps the spelling of its key.
\<close>

fun strmap_find :: "string \<Rightarrow> str_map \<Rightarrow> string option" where
  "strmap_find k [] = None"
| "strmap_find k ((k', v') # m) =
     (if CaseInsensitiveLess k' k then strmap_find k m
      else if CaseInsensitiveLess k k' then None else Some v')"

fun strmap_assign :: "string \<Rightarrow> string \<Rightarrow> str_map \<Rightarrow> str_map" where
  "strmap_assign k v [] = [(k, v)]"
| "strmap_assign k v ((k', v') # m) =
     (if CaseInsensitiveLess k' k then (k', v') # strmap_assign k v m
      else if CaseInsensitiveLess k k' then (k, v) # (k', v') # m
      else (k', v) # m)"

fun strmap_erase :: "string \<Rightarrow> str_map \<Rightarrow> str_map" where
  "strmap_erase k [] = []"
| "strmap_erase k ((k', v') # m) =
     (if CaseInsensitiveLess k' k then (k', v') # strmap_erase k m
      else if CaseInsensitiveLess k k' then (k', v') # m
      else m)"

definition strmap_inv :: "str_map \<Rightarrow> bool" where
  "strmap_inv m \<longleftrightarrow> sorted_wrt (\<lambda>a b. CaseInsensitiveLess (fst a) (fst b)) m"

lemma ci_less_iff: "CaseInsensitiveLess a b \<longleftrightarrow> cmp_bytes (fold_case a) (fold_case b) < 0"
  by (simp add: CaseInsensitiveLess_def strcasecmp_def)

lemma ci_less_trans: "CaseInsensitiveLess a b \<Longrightarrow> CaseInsensitiveLess b c \<Longrightarrow> CaseInsensitiveLess a c"
  unfolding ci_less_iff by (rule cmp_bytes_trans)

lemma ci_less_irrefl [simp]: "fold_case a = fold_case b \<Longrightarrow> \<not> CaseInsensitiveLess a b"
  using cmp_bytes_0_iff [of "fold_case a" "fold_case b"] by (simp add: ci_less_iff del: cmp_bytes_0_iff)

lemma ci_less_asym: "CaseInsensitiveLess a b \<Longrightarrow> \<not> CaseInsensitiveLess b a"
  using ci_less_trans [of a b a] by auto

lemma ci_less_cases:
  "CaseInsensitiveLess a b \<or> fold_case a = fold_case b \<or> CaseInsensitiveLess b a"
  unfolding ci_less_iff using cmp_bytes_total by blast

lemma ci_less_fold: "fold_case a = fold_case a' \<Longrightarrow> CaseInsensitiveLess a b = CaseInsensitiveLess a' b"
    "fold_case b = fold_case b' \<Longrightarrow> CaseInsensitiveLess a b = CaseInsensitiveLess a b'"
  by (simp_all add: ci_less_iff)

lemma fst_strmap_assign: "fst ` set (strmap_assign k v m) \<subseteq> insert k (fst ` set m)"
  by (induction k v m rule: strmap_assign.induct) auto

lemma fst_strmap_erase: "set (strmap_erase k m) \<subseteq> set m"
  by (induction k m rule: strmap_erase.induct) auto

lemma strmap_inv_assign: "strmap_inv m \<Longrightarrow> strmap_inv (strmap_assign k v m)"
proof (induction k v m rule: strmap_assign.induct)
  case (2 k v k' v' m)
  have IH: "CaseInsensitiveLess k' k \<Longrightarrow> sorted_wrt (\<lambda>a b. CaseInsensitiveLess (fst a) (fst b)) (strmap_assign k v m)"
    using 2 by (simp add: strmap_inv_def)
  have "CaseInsensitiveLess k' k \<Longrightarrow> \<forall>e \<in> set (strmap_assign k v m). CaseInsensitiveLess k' (fst e)"
    using fst_strmap_assign [of k v m] "2.prems" by (fastforce simp: strmap_inv_def)
  moreover have "CaseInsensitiveLess k k' \<Longrightarrow> \<forall>e \<in> set m. CaseInsensitiveLess k (fst e)"
    using "2.prems" ci_less_trans by (auto simp: strmap_inv_def)
  ultimately show ?case using "2.prems" IH by (auto simp: strmap_inv_def)
qed (simp add: strmap_inv_def)

lemma strmap_inv_erase: "strmap_inv m \<Longrightarrow> strmap_inv (strmap_erase k m)"
proof (induction k m rule: strmap_erase.induct)
  case (2 k k' v' m)
  then show ?case using fst_strmap_erase [of k m] by (auto simp: strmap_inv_def)
qed (simp add: strmap_inv_def)

text \<open>A lookup in a sorted map is a lookup of the folded key in the list of entries.\<close>

definition strmap_abs :: "str_map \<Rightarrow> string \<Rightarrow> string option" where
  "strmap_abs m = map_of (map (\<lambda>(k, v). (fold_case k, v)) m)"

lemma strmap_find_abs: "strmap_inv m \<Longrightarrow> strmap_find k m = strmap_abs m (fold_case k)"
proof (induction k m rule: strmap_find.induct)
  case (2 k k' v' m)
  have m: "strmap_inv m" and gt: "\<And>e. e \<in> set m \<Longrightarrow> CaseInsensitiveLess k' (fst e)"
    using "2.prems" by (auto simp: strmap_inv_def)
  have none: "strmap_abs m (fold_case k) = None" if "CaseInsensitiveLess k k'"
  proof -
    have "fold_case k \<noteq> fold_case (fst e)" if "e \<in> set m" for e
      using ci_less_trans [OF \<open>CaseInsensitiveLess k k'\<close> gt [OF that]] by auto
    then show ?thesis by (force simp: strmap_abs_def map_of_eq_None_iff)
  qed
  show ?case
    using ci_less_cases [of k k'] 2 m none ci_less_asym [of k k']
    by (auto simp: strmap_abs_def)
qed (simp add: strmap_abs_def)

lemma strmap_abs_assign:
  "strmap_inv m \<Longrightarrow> strmap_abs (strmap_assign k v m) = (strmap_abs m)(fold_case k \<mapsto> v)"
proof (induction k v m rule: strmap_assign.induct)
  case (2 k v k' v' m)
  then show ?case
    using ci_less_cases [of k k'] ci_less_asym [of k k']
    by (auto simp: strmap_abs_def strmap_inv_def fun_eq_iff)
qed (simp add: strmap_abs_def)

lemma strmap_abs_erase:
  assumes "strmap_inv m"
  shows "strmap_abs (strmap_erase k m) = (strmap_abs m)(fold_case k := None)"
  using assms
proof (induction k m rule: strmap_erase.induct)
  case (2 k k' v' m)
  have m: "strmap_inv m" and gt: "\<And>e. e \<in> set m \<Longrightarrow> CaseInsensitiveLess k' (fst e)"
    using "2.prems" by (auto simp: strmap_inv_def)
  have none: "strmap_abs m (fold_case k) = None" if "CaseInsensitiveLess k k' \<or> fold_case k = fold_case k'"
  proof -
    have "fold_case k \<noteq> fold_case (fst e)" if e: "e \<in> set m" for e
      using gt [OF e] that ci_less_trans ci_less_fold(1) ci_less_irrefl
        \<open>CaseInsensitiveLess k k' \<or> fold_case k = fold_case k'\<close> by metis
    then show ?thesis by (force simp: strmap_abs_def map_of_eq_None_iff)
  qed
  show ?case
    using ci_less_cases [of k k'] ci_less_asym [of k k'] 2 m none
    by (auto simp: strmap_abs_def fun_eq_iff)
qed (simp add: strmap_abs_def)

interpretation hdr: folded_map "[]" strmap_find strmap_assign strmap_erase fold_case strmap_inv
proof
  show "strmap_find k [] = None" for k by simp
  show "strmap_inv []" by (simp add: strmap_inv_def)
  show "strmap_inv m \<Longrightarrow> strmap_inv (strmap_assign k v m)" for m k v by (rule strmap_inv_assign)
  show "strmap_inv m \<Longrightarrow> strmap_inv (strmap_erase k m)" for m k by (rule strmap_inv_erase)
  show "strmap_inv m \<Longrightarrow> strmap_find k' (strmap_assign k v m) =
      (if fold_case k' = fold_case k then Some v else strmap_find k' m)" for m k k' v
    by (simp add: strmap_find_abs strmap_inv_assign strmap_abs_assign)
  show "strmap_inv m \<Longrightarrow> strmap_find k' (strmap_erase k m) =
      (if fold_case k' = fold_case k then None else strmap_find k' m)" for m k k'
    by (simp add: strmap_find_abs strmap_inv_erase strmap_abs_erase)
qed

end
