(* ===== verification/Endian.thy ===== *)
theory Endian
  imports Reyao_Prelude
begin

text \<open>
  \<open>src/reyao/endian.h\<close>: byte order of the host and byte swapping. The host's byte order is the
  parameter \<open>bo\<close> of the definitions, the value of the macro \<open>BYTE_ORDER\<close>. An integer is a
  \<open>word\<close> of its width (signed and unsigned types of one width are the same bit patterns), and
  its object representation in memory, what \<open>memcpy\<close> moves, is the list of its bytes in host
  order.
\<close>

definition LITTLE_ENDIAN :: int where
  "LITTLE_ENDIAN = 1234"

definition BIG_ENDIAN :: int where
  "BIG_ENDIAN = 4321"

definition host_order :: "int \<Rightarrow> bool" where
  "host_order bo \<longleftrightarrow> bo = LITTLE_ENDIAN \<or> bo = BIG_ENDIAN"

section \<open>Object representation of integers\<close>

fun le_bytes :: "nat \<Rightarrow> nat \<Rightarrow> byte list" where
  "le_bytes 0 x = []"
| "le_bytes (Suc n) x = char_of x # le_bytes n (x div 256)"

fun of_le :: "byte list \<Rightarrow> nat" where
  "of_le [] = 0"
| "of_le (c # cs) = of_char c + 256 * of_le cs"

definition nbytes :: "'a::len word \<Rightarrow> nat" where
  "nbytes w = LENGTH('a) div 8"

definition to_mem :: "int \<Rightarrow> 'a::len word \<Rightarrow> byte list" where
  "to_mem bo w =
     (if bo = LITTLE_ENDIAN then le_bytes (nbytes w) (unat w)
      else rev (le_bytes (nbytes w) (unat w)))"

definition of_mem :: "int \<Rightarrow> byte list \<Rightarrow> 'a::len word" where
  "of_mem bo bs = of_nat (of_le (if bo = LITTLE_ENDIAN then bs else rev bs))"

text \<open>
  \<open>bswap_16\<close>, \<open>bswap_32\<close> and \<open>bswap_64\<close> of \<open><byteswap.h>\<close>, which the three overloads of
  \<open>byteSwap\<close> select by \<open>sizeof(T)\<close>: the bytes of the value in reverse order.
\<close>

definition byteSwap :: "'a::len word \<Rightarrow> 'a word" where
  "byteSwap w = of_nat (of_le (rev (le_bytes (nbytes w) (unat w))))"

text \<open>
  The header selects the two helpers with \<open>#if BYTE_ORDER == BIG_ORDER\<close>. No header defines
  \<open>BIG_ORDER\<close> (the macro is \<open>BIG_ENDIAN\<close>), and an undefined identifier is 0 in \<open>#if\<close>.
\<close>

definition BIG_ORDER :: int where
  "BIG_ORDER = 0"

definition byteSwapOnLittleEndian :: "int \<Rightarrow> 'a::len word \<Rightarrow> 'a word" where
  "byteSwapOnLittleEndian bo t = (if bo = BIG_ORDER then t else byteSwap t)"

definition byteSwapOnBigEndian :: "int \<Rightarrow> 'a::len word \<Rightarrow> 'a word" where
  "byteSwapOnBigEndian bo t = (if bo = BIG_ORDER then byteSwap t else t)"

text \<open>Network (big-endian) order, the format the program means to put on the wire.\<close>

definition be_bytes :: "'a::len word \<Rightarrow> byte list" where
  "be_bytes w = rev (le_bytes (nbytes w) (unat w))"

section \<open>Laws\<close>

lemma length_le_bytes [simp]: "length (le_bytes n x) = n"
  by (induction n arbitrary: x) auto

lemma of_le_less: "of_le cs < 256 ^ length cs"
proof (induction cs)
  case (Cons c cs)
  have "of_char c < (256 :: nat)" by simp
  moreover have "of_le cs + 1 \<le> 256 ^ length cs" using Cons.IH by simp
  then have "256 * of_le cs + 256 \<le> 256 * 256 ^ length cs" by linarith
  ultimately have "of_char c + 256 * of_le cs < 256 * 256 ^ length cs" by linarith
  then show ?case by simp
qed simp

lemma of_le_le_bytes: "of_le (le_bytes n x) = x mod 256 ^ n"
proof (induction n arbitrary: x)
  case (Suc n)
  have "x mod 256 + 256 * (x div 256 mod 256 ^ n) = x mod (256 * 256 ^ n)"
    by (simp add: mod_mult2_eq)
  then show ?case using Suc by (simp add: of_char_of)
qed simp

lemma le_bytes_of_le: "le_bytes (length cs) (of_le cs) = cs"
proof (induction cs)
  case (Cons c cs)
  have "(of_char c + 256 * of_le cs) div 256 = of_le cs"
    by (simp add: div_add1_eq)
  moreover have "char_of (of_char c + 256 * of_le cs) = c"
    by (metis char_of_mod_256 char_of_char mod_mult_self2)
  ultimately show ?case using Cons by simp
qed simp

lemma length_to_mem [simp]: "length (to_mem bo w) = nbytes w"
  by (simp add: to_mem_def)

lemma length_be_bytes [simp]: "length (be_bytes w) = nbytes w"
  by (simp add: be_bytes_def)

lemma nbytes_const: "nbytes (v :: 'a::len word) = nbytes (w :: 'a word)"
  by (simp add: nbytes_def)

lemma nbytes_widths [simp]:
  "nbytes (a :: 8 word) = 1" "nbytes (b :: 16 word) = 2"
  "nbytes (c :: 32 word) = 4" "nbytes (d :: 64 word) = 8"
  by (simp_all add: nbytes_def)

lemma unat_less_bytes:
  assumes "8 dvd LENGTH('a::len)"
  shows "unat (w :: 'a word) < 256 ^ nbytes w"
proof -
  from assms have "8 * nbytes w = LENGTH('a)" by (simp add: nbytes_def)
  then have "(256 :: nat) ^ nbytes w = 2 ^ LENGTH('a)"
    by (simp add: power_mult flip: \<open>8 * nbytes w = LENGTH('a)\<close>)
  then show ?thesis by simp
qed

lemma of_mem_to_mem:
  assumes "8 dvd LENGTH('a::len)"
  shows "of_mem bo (to_mem bo (w :: 'a word)) = w"
  using unat_less_bytes [OF assms, of w] by (simp add: of_mem_def to_mem_def of_le_le_bytes)

lemma unat_of_le:
  assumes "8 dvd LENGTH('a::len)" and "length bs = LENGTH('a) div 8"
  shows "unat (of_nat (of_le bs) :: 'a word) = of_le bs"
proof -
  have "of_le bs < 256 ^ (LENGTH('a) div 8)" using of_le_less [of bs] assms(2) by simp
  also have "\<dots> = 2 ^ (8 * (LENGTH('a) div 8))" by (simp add: power_mult)
  finally have "of_le bs < 2 ^ LENGTH('a)" using assms(1) by simp
  then show ?thesis by (simp add: unat_of_nat)
qed

lemma le_bytes_byteSwap:
  assumes "8 dvd LENGTH('a::len)"
  shows "le_bytes (nbytes w) (unat (byteSwap (w :: 'a word))) = rev (le_bytes (nbytes w) (unat w))"
proof -
  let ?bs = "rev (le_bytes (nbytes w) (unat w))"
  have "unat (byteSwap w) = of_le ?bs"
    unfolding byteSwap_def by (rule unat_of_le [OF assms]) (simp add: nbytes_def)
  moreover have "le_bytes (nbytes w) (of_le ?bs) = ?bs"
    using le_bytes_of_le [of ?bs] by simp
  ultimately show ?thesis by simp
qed

lemma to_mem_byteSwap:
  assumes "8 dvd LENGTH('a::len)"
  shows "to_mem bo (byteSwap (w :: 'a word)) = rev (to_mem bo w)"
  using le_bytes_byteSwap [OF assms, of w] by (simp add: to_mem_def nbytes_const [of "byteSwap w" w])

lemma byteSwap_byteSwap:
  assumes "8 dvd LENGTH('a::len)"
  shows "byteSwap (byteSwap (w :: 'a word)) = w"
proof -
  have "of_mem LITTLE_ENDIAN (to_mem LITTLE_ENDIAN (byteSwap (byteSwap w))) =
      (of_mem LITTLE_ENDIAN (to_mem LITTLE_ENDIAN w) :: 'a word)"
    by (simp add: to_mem_byteSwap [OF assms])
  then show ?thesis by (simp add: of_mem_to_mem [OF assms])
qed

lemma to_mem_BIG [simp]: "to_mem BIG_ENDIAN w = be_bytes w"
  by (simp add: to_mem_def be_bytes_def BIG_ENDIAN_def LITTLE_ENDIAN_def)

lemma to_mem_LITTLE_byteSwap:
  assumes "8 dvd LENGTH('a::len)"
  shows "to_mem LITTLE_ENDIAN (byteSwap (w :: 'a word)) = be_bytes w"
  by (simp add: to_mem_byteSwap [OF assms]) (simp add: to_mem_def be_bytes_def)

text \<open>
  Whichever byte order the host has, \<open>byteSwapOnLittleEndian\<close> swaps.
\<close>

lemma byteSwapOnLittleEndian_swaps:
  "host_order bo \<Longrightarrow> byteSwapOnLittleEndian bo t = byteSwap t"
  by (auto simp: host_order_def byteSwapOnLittleEndian_def BIG_ORDER_def LITTLE_ENDIAN_def BIG_ENDIAN_def)

end
