(* ===== verification/Byte_Queue.thy ===== *)
theory Byte_Queue
  imports Reyao_Prelude
begin

text \<open>
  The contract a byte buffer offers to the protocol code above it, as a locale: a first-in
  first-out queue of bytes with an invariant and a bound on what still fits. \<open>value_codec\<close>
  extends it with one typed reader and writer and proves, once for all widths and byte orders,
  that a sequence of values written is read back unchanged.
\<close>

fun write_all :: "('v \<Rightarrow> 'q \<Rightarrow> 'q res) \<Rightarrow> 'v list \<Rightarrow> 'q \<Rightarrow> 'q res" where
  "write_all wr [] q = Inr q"
| "write_all wr (v # vs) q = rbind (wr v q) (write_all wr vs)"

fun read_all :: "('q \<Rightarrow> ('v \<times> 'q) res) \<Rightarrow> nat \<Rightarrow> 'q \<Rightarrow> ('v list \<times> 'q) res" where
  "read_all rd 0 q = Inr ([], q)"
| "read_all rd (Suc n) q = rbind (rd q) (\<lambda>(v, q).
     rbind (read_all rd n q) (\<lambda>(vs, q). Inr (v # vs, q)))"

locale byte_queue =
  fixes put :: "byte list \<Rightarrow> 'q \<Rightarrow> 'q res"
    and get :: "nat \<Rightarrow> 'q \<Rightarrow> (byte list \<times> 'q) res"
    and content :: "'q \<Rightarrow> byte list"
    and inv :: "'q \<Rightarrow> bool"
    and room :: "nat \<Rightarrow> 'q \<Rightarrow> bool"
  assumes put_spec: "inv q \<Longrightarrow> room (length xs) q \<Longrightarrow>
      \<exists>q'. put xs q = Inr q' \<and> inv q' \<and> content q' = content q @ xs"
    and put_room: "inv q \<Longrightarrow> room (length xs + n) q \<Longrightarrow> put xs q = Inr q' \<Longrightarrow> room n q'"
    and room_less: "room (m + n) q \<Longrightarrow> room m q"
    and get_spec: "inv q \<Longrightarrow> n \<le> length (content q) \<Longrightarrow>
      \<exists>q'. get n q = Inr (take n (content q), q') \<and> inv q' \<and> content q' = drop n (content q)"
    and get_short: "inv q \<Longrightarrow> length (content q) < n \<Longrightarrow> get n q = Inl Out_of_range"
begin

lemma put_put:
  assumes "inv q" and "room (length xs + length ys) q"
  shows "\<exists>q1 q2. put xs q = Inr q1 \<and> put ys q1 = Inr q2 \<and> inv q2 \<and> content q2 = content q @ xs @ ys"
proof -
  from assms(2) have "room (length xs) q" by (rule room_less)
  with assms(1) obtain q1 where q1: "put xs q = Inr q1" "inv q1" "content q1 = content q @ xs"
    using put_spec by blast
  have "room (length ys) q1" using put_room [OF assms q1(1)] .
  with q1(2) obtain q2 where "put ys q1 = Inr q2" "inv q2" "content q2 = content q1 @ ys"
    using put_spec by blast
  with q1 show ?thesis by auto
qed

lemma get_front:
  assumes "inv q" and "content q = xs @ rest"
  shows "\<exists>q'. get (length xs) q = Inr (xs, q') \<and> inv q' \<and> content q' = rest"
  using get_spec [OF assms(1), of "length xs"] assms(2) by auto

end

locale value_codec = byte_queue put get content inv room
  for put :: "byte list \<Rightarrow> 'q \<Rightarrow> 'q res" and get content inv room +
  fixes mode :: "'q \<Rightarrow> 'm"
    and enc :: "'m \<Rightarrow> 'v \<Rightarrow> byte list"
    and dec :: "'m \<Rightarrow> byte list \<Rightarrow> 'v"
    and width :: nat
    and wr :: "'v \<Rightarrow> 'q \<Rightarrow> 'q res"
    and rd :: "'q \<Rightarrow> ('v \<times> 'q) res"
  assumes wr_put: "wr v q = put (enc (mode q) v) q"
    and rd_get: "rd q = rbind (get width q) (\<lambda>(bs, q). Inr (dec (mode q) bs, q))"
    and enc_width: "length (enc m v) = width"
    and dec_enc: "dec m (enc m v) = v"
    and mode_put: "put xs q = Inr q' \<Longrightarrow> mode q' = mode q"
    and mode_get: "get n q = Inr (bs, q') \<Longrightarrow> mode q' = mode q"
begin

lemma wr_spec:
  assumes "inv q" and "room (width + n) q"
  shows "\<exists>q'. wr v q = Inr q' \<and> inv q' \<and> room n q' \<and> mode q' = mode q \<and>
    content q' = content q @ enc (mode q) v"
proof -
  from assms(2) have "room (length (enc (mode q) v)) q"
    unfolding enc_width by (rule room_less)
  with assms(1) obtain q' where q': "put (enc (mode q) v) q = Inr q'" "inv q'"
      "content q' = content q @ enc (mode q) v"
    using put_spec by blast
  moreover have "room n q'"
    using put_room [OF assms(1) _ q'(1), of n] assms(2) by (simp add: enc_width)
  ultimately show ?thesis using wr_put mode_put by metis
qed

lemma rd_spec:
  assumes "inv q" and "content q = enc (mode q) v @ rest"
  shows "\<exists>q'. rd q = Inr (v, q') \<and> inv q' \<and> mode q' = mode q \<and> content q' = rest"
proof -
  from get_front [OF assms] obtain q' where
    q': "get width q = Inr (enc (mode q) v, q')" "inv q'" "content q' = rest"
    by (auto simp: enc_width)
  then show ?thesis using mode_get [OF q'(1)] by (simp add: rd_get dec_enc)
qed

text \<open>A value with bytes behind it, written to an empty queue.\<close>

lemma framed:
  assumes "inv q" and "content q = []" and "room (width + length xs) q"
  shows "\<exists>q1 q2 q3. wr v q = Inr q1 \<and> put xs q1 = Inr q2 \<and> rd q2 = Inr (v, q3) \<and> inv q3 \<and> content q3 = xs"
proof -
  from wr_spec [OF assms(1,3), of v] assms(2) obtain q1 where
    q1: "wr v q = Inr q1" "inv q1" "room (length xs) q1" "content q1 = enc (mode q1) v" by auto
  from put_spec [OF q1(2,3)] obtain q2 where q2: "put xs q1 = Inr q2" "inv q2" "content q2 = content q1 @ xs" by blast
  then have "content q2 = enc (mode q2) v @ xs" using q1(4) mode_put [OF q2(1)] by simp
  from rd_spec [OF q2(2) this] q1(1) q2(1) show ?thesis by blast
qed

lemma rd_short: "inv q \<Longrightarrow> length (content q) < width \<Longrightarrow> rd q = Inl Out_of_range"
  by (simp add: rd_get get_short)

lemma write_all_spec:
  assumes "inv q" and "room (width * length vs + n) q"
  shows "\<exists>q'. write_all wr vs q = Inr q' \<and> inv q' \<and> room n q' \<and> mode q' = mode q \<and>
    content q' = content q @ concat (map (enc (mode q)) vs)"
  using assms
proof (induction vs arbitrary: q)
  case (Cons v vs)
  from Cons.prems(2) have "room (width + (width * length vs + n)) q" by (simp add: algebra_simps)
  from wr_spec [OF Cons.prems(1) this, of v] obtain q1 where
    q1: "wr v q = Inr q1" "inv q1" "room (width * length vs + n) q1" "mode q1 = mode q"
      "content q1 = content q @ enc (mode q) v" by blast
  from Cons.IH [OF q1(2,3)] q1 show ?case by auto
qed simp

lemma read_all_spec:
  assumes "inv q" and "content q = concat (map (enc (mode q)) vs) @ rest"
  shows "\<exists>q'. read_all rd (length vs) q = Inr (vs, q') \<and> inv q' \<and> content q' = rest"
  using assms
proof (induction vs arbitrary: q)
  case (Cons v vs)
  from Cons.prems have "content q = enc (mode q) v @ (concat (map (enc (mode q)) vs) @ rest)"
    by simp
  from rd_spec [OF Cons.prems(1) this] obtain q1 where
    q1: "rd q = Inr (v, q1)" "inv q1" "mode q1 = mode q"
      "content q1 = concat (map (enc (mode q1)) vs) @ rest" by auto
  from Cons.IH [OF q1(2,4)] q1(1) show ?case by auto
qed simp

lemma write_read_all:
  assumes "inv q" and "content q = []" and "room (width * length vs) q"
  shows "\<exists>q1 q2. write_all wr vs q = Inr q1 \<and> length (content q1) = width * length vs \<and>
    read_all rd (length vs) q1 = Inr (vs, q2) \<and> inv q2 \<and> content q2 = []"
proof -
  from write_all_spec [of q vs 0] assms obtain q1 where
    q1: "write_all wr vs q = Inr q1" "inv q1" "mode q1 = mode q"
      "content q1 = concat (map (enc (mode q1)) vs) @ []" by auto
  have "length (content q1) = width * length vs"
    unfolding q1(4) by (induction vs) (simp_all add: enc_width)
  with read_all_spec [OF q1(2,4)] q1(1) show ?thesis by blast
qed

end

end
