(* ===== verification/Byte_Array.thy ===== *)
theory Byte_Array
  imports Endian Byte_Queue
begin

text \<open>
  \<open>src/reyao/bytearray.h\<close> and \<open>bytearray.cc\<close>: the growable byte buffer under every protocol
  of the library. A \<open>ByteArray\<close> is a vector with a read and a write position; the unread bytes
  lie between them and the first \<open>kCheapPrepend\<close> bytes are a reserve for \<open>writePrepend\<close>.

  Every operation that can raise, abort or touch memory returns a \<open>res\<close>. Positions are
  \<open>nat\<close>s read as \<open>size_t\<close>: sums and differences wrap as in the code. A \<open>float\<close> or
  \<open>double\<close> is its object representation, which is all \<open>writeFloat\<close> and \<open>writeDouble\<close> use of it.
\<close>

section \<open>State and accessors\<close>

record bytearray =
  endian :: int
  writePos :: nat
  readPos :: nat
  buf :: "byte list"

definition kInitSize :: nat where
  "kInitSize = 1024"

definition kCheapPrepend :: nat where
  "kCheapPrepend = 8"

definition kCRLF :: string where
  "kCRLF = [CHR 0x0D, CHR 0x0A]"

definition ByteArray :: "nat \<Rightarrow> bytearray" where
  "ByteArray initSize =
     \<lparr> endian = BIG_ENDIAN, writePos = kCheapPrepend, readPos = kCheapPrepend,
       buf = replicate (size_add kCheapPrepend initSize) (char_of (0::nat)) \<rparr>"

definition getReadSize :: "bytearray \<Rightarrow> nat" where
  "getReadSize b = size_sub (writePos b) (readPos b)"

definition getWriteSize :: "bytearray \<Rightarrow> nat" where
  "getWriteSize b = size_sub (length (buf b)) (writePos b)"

definition getCapacity :: "bytearray \<Rightarrow> nat" where
  "getCapacity b = length (buf b)"

definition setWritePos :: "nat \<Rightarrow> bytearray \<Rightarrow> bytearray" where
  "setWritePos pos b = b\<lparr>writePos := pos\<rparr>"

definition setReadPos :: "nat \<Rightarrow> bytearray \<Rightarrow> bytearray" where
  "setReadPos pos b = b\<lparr>readPos := pos\<rparr>"

definition setEndian :: "int \<Rightarrow> bytearray \<Rightarrow> bytearray" where
  "setEndian e b = b\<lparr>endian := e\<rparr>"

section \<open>Raw reads and writes\<close>

definition addCapacity :: "int \<Rightarrow> bytearray \<Rightarrow> bytearray res" where
  "addCapacity sz b =
     (if size_add (getWriteSize b) (readPos b) < size_add (size_of_int sz) kCheapPrepend
      then rbind (vec_resize (size_add (writePos b) (size_of_int sz)) (buf b))
             (\<lambda>v. Inr (b\<lparr>buf := v\<rparr>))
      else if \<not> kCheapPrepend \<le> readPos b then Inl Assert_fail
      else let read_size = getReadSize b in
           rbind (mem_move kCheapPrepend (readPos b) read_size (buf b))
             (\<lambda>v. Inr (b\<lparr>buf := v, readPos := kCheapPrepend,
                         writePos := size_add kCheapPrepend read_size\<rparr>)))"

definition ba_write :: "byte list \<Rightarrow> bytearray \<Rightarrow> bytearray res" where
  "ba_write data b =
     (if length data = 0 then Inr b
      else rbind (addCapacity (int_of_size (length data)) b)
             (\<lambda>b. rbind (mem_write (writePos b) data (buf b))
               (\<lambda>v. Inr (b\<lparr>buf := v, writePos := size_add (writePos b) (length data)\<rparr>))))"

definition ba_read :: "nat \<Rightarrow> bytearray \<Rightarrow> (byte list \<times> bytearray) res" where
  "ba_read sz b =
     (if getReadSize b < sz then Inl Out_of_range
      else rbind (mem_read (readPos b) sz (buf b))
             (\<lambda>bs. Inr (bs, b\<lparr>readPos := size_add (readPos b) sz\<rparr>)))"

text \<open>\<open>getWriteArea\<close> returns a pointer to the write position; the model returns the buffer.\<close>

definition getWriteArea :: "nat \<Rightarrow> bytearray \<Rightarrow> bytearray res" where
  "getWriteArea len b = addCapacity (int_of_size len) b"

text \<open>\<open>getReadArea\<close> clips the length it is given; its pointer is the read position.\<close>

definition getReadArea :: "nat \<Rightarrow> bytearray \<Rightarrow> nat" where
  "getReadArea len b = (if getReadSize b < len then getReadSize b else len)"

text \<open>The \<open>n\<close> bytes from \<open>peek()\<close> on.\<close>

definition peek :: "nat \<Rightarrow> bytearray \<Rightarrow> byte list res" where
  "peek n b = mem_read (readPos b) n (buf b)"

definition ba_reset :: "bytearray \<Rightarrow> bytearray res" where
  "ba_reset b = rbind (vec_resize kInitSize (buf b))
     (\<lambda>v. Inr (b\<lparr>readPos := 0, writePos := 0, buf := v\<rparr>))"

definition writePrepend :: "byte list \<Rightarrow> bytearray \<Rightarrow> bytearray res" where
  "writePrepend data b =
     (if \<not> length data \<le> readPos b then Inl Assert_fail
      else rbind (mem_write (readPos b - length data) data (buf b))
             (\<lambda>v. Inr (b\<lparr>readPos := readPos b - length data, buf := v\<rparr>)))"

section \<open>Integers\<close>

definition writeInt8 :: "int \<Rightarrow> 8 word \<Rightarrow> bytearray \<Rightarrow> bytearray res" where
  "writeInt8 bo value b = ba_write (to_mem bo value) b"

definition writeUint8 :: "int \<Rightarrow> 8 word \<Rightarrow> bytearray \<Rightarrow> bytearray res" where
  "writeUint8 bo value b = ba_write (to_mem bo value) b"

definition writeInt16 :: "int \<Rightarrow> 16 word \<Rightarrow> bytearray \<Rightarrow> bytearray res" where
  "writeInt16 bo value b =
     (let value = (if endian b \<noteq> bo then byteSwap value else value)
      in ba_write (to_mem bo value) b)"

definition writeUint16 :: "int \<Rightarrow> 16 word \<Rightarrow> bytearray \<Rightarrow> bytearray res" where
  "writeUint16 bo value b =
     (let value = (if endian b \<noteq> bo then byteSwap value else value)
      in ba_write (to_mem bo value) b)"

definition writeInt32 :: "int \<Rightarrow> 32 word \<Rightarrow> bytearray \<Rightarrow> bytearray res" where
  "writeInt32 bo value b =
     (let value = (if endian b \<noteq> bo then byteSwap value else value)
      in ba_write (to_mem bo value) b)"

definition writeUint32 :: "int \<Rightarrow> 32 word \<Rightarrow> bytearray \<Rightarrow> bytearray res" where
  "writeUint32 bo value b =
     (let value = (if endian b \<noteq> bo then byteSwap value else value)
      in ba_write (to_mem bo value) b)"

definition writeInt64 :: "int \<Rightarrow> 64 word \<Rightarrow> bytearray \<Rightarrow> bytearray res" where
  "writeInt64 bo value b =
     (let value = (if endian b \<noteq> bo then byteSwap value else value)
      in ba_write (to_mem bo value) b)"

definition writeUint64 :: "int \<Rightarrow> 64 word \<Rightarrow> bytearray \<Rightarrow> bytearray res" where
  "writeUint64 bo value b =
     (let value = (if endian b \<noteq> bo then byteSwap value else value)
      in ba_write (to_mem bo value) b)"

definition writeFloat :: "int \<Rightarrow> 32 word \<Rightarrow> bytearray \<Rightarrow> bytearray res" where
  "writeFloat bo value b = writeInt32 bo value b"

definition writeDouble :: "int \<Rightarrow> 64 word \<Rightarrow> bytearray \<Rightarrow> bytearray res" where
  "writeDouble bo value b = writeInt64 bo value b"

definition readInt8 :: "int \<Rightarrow> bytearray \<Rightarrow> (8 word \<times> bytearray) res" where
  "readInt8 bo b = rbind (ba_read 1 b) (\<lambda>(bs, b). Inr (of_mem bo bs, b))"

definition readUint8 :: "int \<Rightarrow> bytearray \<Rightarrow> (8 word \<times> bytearray) res" where
  "readUint8 bo b = rbind (ba_read 1 b) (\<lambda>(bs, b). Inr (of_mem bo bs, b))"

definition readInt16 :: "int \<Rightarrow> bytearray \<Rightarrow> (16 word \<times> bytearray) res" where
  "readInt16 bo b = rbind (ba_read 2 b) (\<lambda>(bs, b).
     let v = of_mem bo bs in Inr (if endian b \<noteq> bo then byteSwap v else v, b))"

definition readUint16 :: "int \<Rightarrow> bytearray \<Rightarrow> (16 word \<times> bytearray) res" where
  "readUint16 bo b = rbind (ba_read 2 b) (\<lambda>(bs, b).
     let v = of_mem bo bs in Inr (if endian b \<noteq> bo then byteSwap v else v, b))"

definition readInt32 :: "int \<Rightarrow> bytearray \<Rightarrow> (32 word \<times> bytearray) res" where
  "readInt32 bo b = rbind (ba_read 4 b) (\<lambda>(bs, b).
     let v = of_mem bo bs in Inr (if endian b \<noteq> bo then byteSwap v else v, b))"

definition readUint32 :: "int \<Rightarrow> bytearray \<Rightarrow> (32 word \<times> bytearray) res" where
  "readUint32 bo b = rbind (ba_read 4 b) (\<lambda>(bs, b).
     let v = of_mem bo bs in Inr (if endian b \<noteq> bo then byteSwap v else v, b))"

definition readInt64 :: "int \<Rightarrow> bytearray \<Rightarrow> (64 word \<times> bytearray) res" where
  "readInt64 bo b = rbind (ba_read 8 b) (\<lambda>(bs, b).
     let v = of_mem bo bs in Inr (if endian b \<noteq> bo then byteSwap v else v, b))"

definition readUint64 :: "int \<Rightarrow> bytearray \<Rightarrow> (64 word \<times> bytearray) res" where
  "readUint64 bo b = rbind (ba_read 8 b) (\<lambda>(bs, b).
     let v = of_mem bo bs in Inr (if endian b \<noteq> bo then byteSwap v else v, b))"

definition readFloat :: "int \<Rightarrow> bytearray \<Rightarrow> (32 word \<times> bytearray) res" where
  "readFloat bo b = readUint32 bo b"

definition readDouble :: "int \<Rightarrow> bytearray \<Rightarrow> (64 word \<times> bytearray) res" where
  "readDouble bo b = readUint64 bo b"

section \<open>Strings\<close>

definition writeString :: "string \<Rightarrow> bytearray \<Rightarrow> bytearray res" where
  "writeString value b = ba_write value b"

text \<open>\<open>value.size()\<close> is converted to the width of the length field.\<close>

definition writeString16 :: "int \<Rightarrow> string \<Rightarrow> bytearray \<Rightarrow> bytearray res" where
  "writeString16 bo value b =
     rbind (writeUint16 bo (of_nat (length value)) b) (\<lambda>b. ba_write value b)"

definition writeString32 :: "int \<Rightarrow> string \<Rightarrow> bytearray \<Rightarrow> bytearray res" where
  "writeString32 bo value b =
     rbind (writeUint32 bo (of_nat (length value)) b) (\<lambda>b. ba_write value b)"

definition writeString64 :: "int \<Rightarrow> string \<Rightarrow> bytearray \<Rightarrow> bytearray res" where
  "writeString64 bo value b =
     rbind (writeUint64 bo (of_nat (length value)) b) (\<lambda>b. ba_write value b)"

text \<open>\<open>std::string::resize\<close> raises above \<open>max_size()\<close>; the reads resize before they read.\<close>

definition str_resize :: "nat \<Rightarrow> unit res" where
  "str_resize n = (if vec_max_size < n then Inl Length_error else Inr ())"

definition readString16 :: "int \<Rightarrow> bytearray \<Rightarrow> (string \<times> bytearray) res" where
  "readString16 bo b = rbind (readUint16 bo b) (\<lambda>(len, b).
     rbind (str_resize (unat len)) (\<lambda>_. ba_read (unat len) b))"

definition readString32 :: "int \<Rightarrow> bytearray \<Rightarrow> (string \<times> bytearray) res" where
  "readString32 bo b = rbind (readUint32 bo b) (\<lambda>(len, b).
     rbind (str_resize (unat len)) (\<lambda>_. ba_read (unat len) b))"

definition readString64 :: "int \<Rightarrow> bytearray \<Rightarrow> (string \<times> bytearray) res" where
  "readString64 bo b = rbind (readUint64 bo b) (\<lambda>(len, b).
     rbind (str_resize (unat len)) (\<lambda>_. ba_read (unat len) b))"

definition toString :: "bytearray \<Rightarrow> (string \<times> bytearray) res" where
  "toString b = rbind (str_resize (getReadSize b)) (\<lambda>_.
     if getReadSize b = 0 then Inr ([], b) else ba_read (getReadSize b) b)"

text \<open>\<open>std::setw(2) << std::setfill('0') << std::hex\<close> of a byte, then a blank.\<close>

definition hex_digit :: "nat \<Rightarrow> char" where
  "hex_digit d = (if d < 10 then char_of (48 + d) else char_of (87 + d))"

definition hex_byte :: "byte \<Rightarrow> string" where
  "hex_byte c = [hex_digit (of_char c div 16), hex_digit (of_char c mod 16)]"

fun hex_lines :: "nat \<Rightarrow> string \<Rightarrow> string" where
  "hex_lines i [] = []"
| "hex_lines i (c # cs) =
     (if 0 < i \<and> i mod 32 = 0 then [CHR 0x0A] else []) @ hex_byte c @ '' '' @ hex_lines (Suc i) cs"

definition toHexString :: "bytearray \<Rightarrow> (string \<times> bytearray) res" where
  "toHexString b = rbind (toString b) (\<lambda>(s, b). Inr (hex_lines 0 s, b))"

section \<open>Searching for the line end\<close>

text \<open>
  \<open>std::search\<close> for the two bytes of \<open>kCRLF\<close> between the positions. The result of
  \<open>findCRLF\<close> is the distance from \<open>peek()\<close>, \<open>None\<close> for a null pointer.
\<close>

fun search_crlf :: "byte list \<Rightarrow> nat option" where
  "search_crlf (x # y # zs) =
     (if [x, y] = kCRLF then Some 0 else map_option Suc (search_crlf (y # zs)))"
| "search_crlf _ = None"

definition findCRLF :: "bytearray \<Rightarrow> nat option res" where
  "findCRLF b =
     (if readPos b \<le> writePos b \<and> writePos b \<le> length (buf b)
      then Inr (search_crlf (seg (readPos b) (writePos b) (buf b)))
      else Inl Memory_fault)"

section \<open>Files\<close>

text \<open>
  A file system is a map from names to contents. Whether \<open>ofstream::open\<close> succeeds is the
  parameter \<open>can_create\<close>; opening a file for reading succeeds when the map has it.
\<close>

type_synonym file_system = "string \<Rightarrow> byte list option"

definition writeToFile ::
    "(string \<Rightarrow> bool) \<Rightarrow> string \<Rightarrow> file_system \<Rightarrow> bytearray \<Rightarrow> (bool \<times> file_system) res" where
  "writeToFile can_create name fs b =
     (if \<not> can_create name then Inr (False, fs)
      else rbind (mem_read (readPos b) (getReadSize b) (buf b))
             (\<lambda>bs. Inr (True, fs(name \<mapsto> bs))))"

text \<open>
  The loop of \<open>readFromFile\<close>: a \<open>read\<close> that gets fewer than \<open>kInitSize\<close> bytes sets the
  end-of-file flag the loop tests.
\<close>

function readFile_loop :: "byte list \<Rightarrow> bytearray \<Rightarrow> bytearray res" where
  "readFile_loop rest b =
     rbind (ba_write (take kInitSize rest) b)
       (\<lambda>b. if length rest < kInitSize then Inr b else readFile_loop (drop kInitSize rest) b)"
  by pat_completeness auto
termination
  by (relation "measure (\<lambda>(rest, b). length rest)") (auto simp: kInitSize_def)

declare readFile_loop.simps [simp del]

definition readFromFile :: "string \<Rightarrow> file_system \<Rightarrow> bytearray \<Rightarrow> (bool \<times> bytearray) res" where
  "readFromFile name fs b =
     (case fs name of
        None \<Rightarrow> Inr (False, b)
      | Some bytes \<Rightarrow> rbind (readFile_loop bytes b) (\<lambda>b. Inr (True, b)))"

section \<open>Invariant and abstraction\<close>

text \<open>
  \<open>ba_wf\<close> is what every access relies on; \<open>ba_inv\<close> adds that the reserve in front is
  intact, which \<open>addCapacity\<close> asserts. The abstraction of a buffer is its unread content.
\<close>

definition ba_content :: "bytearray \<Rightarrow> byte list" where
  "ba_content b = seg (readPos b) (writePos b) (buf b)"

definition ba_wf :: "bytearray \<Rightarrow> bool" where
  "ba_wf b \<longleftrightarrow> readPos b \<le> writePos b \<and> writePos b \<le> length (buf b) \<and>
     length (buf b) \<le> vec_max_size"

definition ba_inv :: "bytearray \<Rightarrow> bool" where
  "ba_inv b \<longleftrightarrow> ba_wf b \<and> kCheapPrepend \<le> readPos b"

definition ba_room :: "nat \<Rightarrow> bytearray \<Rightarrow> bool" where
  "ba_room n b \<longleftrightarrow> length (buf b) + n + kCheapPrepend < 2147483648"

lemmas ba_consts = kCheapPrepend_def kInitSize_def vec_max_size_def

lemma ba_inv_wf [simp]: "ba_inv b \<Longrightarrow> ba_wf b"
  by (simp add: ba_inv_def)

lemma ba_wf_sizes:
  assumes "ba_wf b"
  shows "getReadSize b = writePos b - readPos b"
    and "getWriteSize b = length (buf b) - writePos b"
    and "length (ba_content b) = getReadSize b"
proof -
  from assms have *: "readPos b \<le> writePos b" "writePos b \<le> length (buf b)" "length (buf b) < size_mod"
    by (auto simp: ba_wf_def ba_consts)
  show 1: "getReadSize b = writePos b - readPos b"
    using * by (simp add: getReadSize_def size_simps)
  show "getWriteSize b = length (buf b) - writePos b"
    using * by (simp add: getWriteSize_def size_simps)
  show "length (ba_content b) = getReadSize b"
    using * by (simp add: ba_content_def 1)
qed

lemma addCapacity_grow:
  assumes "ba_inv b" and "ba_room n b" and "length (buf b) - writePos b + readPos b < n + kCheapPrepend"
  shows "addCapacity (int n) b =
    Inr (b\<lparr>buf := buf b @ replicate (writePos b + n - length (buf b)) (char_of (0::nat))\<rparr>)"
proof -
  have wf: "ba_wf b" using assms(1) by simp
  then have b: "readPos b \<le> writePos b" "writePos b \<le> length (buf b)" by (auto simp: ba_wf_def)
  have r: "length (buf b) + n + 8 < 2147483648" using assms(2) by (simp add: ba_room_def ba_consts)
  have len: "length (buf b) \<le> writePos b + n"
    using assms(1,3) b unfolding ba_inv_def by linarith
  have "size_add (getWriteSize b) (readPos b) = length (buf b) - writePos b + readPos b"
    using b r by (simp add: ba_wf_sizes [OF wf] size_simps)
  moreover have "size_of_int (int n) = n" "size_add n kCheapPrepend = n + kCheapPrepend"
      "size_add (writePos b) n = writePos b + n"
    using b r by (simp_all add: size_simps ba_consts)
  moreover have "vec_resize (writePos b + n) (buf b) =
      Inr (buf b @ replicate (writePos b + n - length (buf b)) (char_of (0::nat)))"
    using b r len by (simp add: vec_resize_def ba_consts)
  ultimately show ?thesis using assms(3) by (simp add: addCapacity_def)
qed

lemma addCapacity_shift:
  assumes "ba_inv b" and "ba_room n b" and "n + kCheapPrepend \<le> length (buf b) - writePos b + readPos b"
  shows "addCapacity (int n) b =
    Inr (b\<lparr>buf := take kCheapPrepend (buf b) @ ba_content b @
                    drop (kCheapPrepend + length (ba_content b)) (buf b),
           readPos := kCheapPrepend, writePos := kCheapPrepend + length (ba_content b)\<rparr>)"
proof -
  have wf: "ba_wf b" using assms(1) by simp
  then have b: "readPos b \<le> writePos b" "writePos b \<le> length (buf b)" by (auto simp: ba_wf_def)
  have r: "length (buf b) + n + 8 < 2147483648" using assms(2) by (simp add: ba_room_def ba_consts)
  have rp: "kCheapPrepend \<le> readPos b" using assms(1) by (simp add: ba_inv_def)
  have "size_add (getWriteSize b) (readPos b) = length (buf b) - writePos b + readPos b"
    using b r by (simp add: ba_wf_sizes [OF wf] size_simps)
  moreover have "size_of_int (int n) = n" "size_add n kCheapPrepend = n + kCheapPrepend"
    using r by (simp_all add: size_simps ba_consts)
  moreover have "mem_move kCheapPrepend (readPos b) (getReadSize b) (buf b) =
      Inr (take kCheapPrepend (buf b) @ ba_content b @ drop (kCheapPrepend + length (ba_content b)) (buf b))"
    using b rp by (simp add: mem_move_def ba_wf_sizes [OF wf] ba_content_def seg_def)
  moreover have "size_add kCheapPrepend (getReadSize b) = kCheapPrepend + length (ba_content b)"
    using b r by (simp add: ba_wf_sizes [OF wf] size_simps ba_consts)
  ultimately show ?thesis using assms(3) rp by (simp add: addCapacity_def Let_def)
qed

text \<open>
  The contract of \<open>addCapacity\<close>: room for \<open>n\<close> more bytes behind the write position, unread
  content and byte order untouched.
\<close>

lemma addCapacity_spec:
  assumes "ba_inv b" and "ba_room n b"
  shows "\<exists>b'. addCapacity (int n) b = Inr b' \<and> ba_inv b' \<and> ba_content b' = ba_content b \<and>
    endian b' = endian b \<and> writePos b' + n \<le> length (buf b') \<and> length (buf b') \<le> length (buf b) + n"
proof -
  have wf: "ba_wf b" using assms(1) by simp
  then have b: "readPos b \<le> writePos b" "writePos b \<le> length (buf b)" by (auto simp: ba_wf_def)
  have r: "length (buf b) + n + 8 < 2147483648" using assms(2) by (simp add: ba_room_def ba_consts)
  show ?thesis
  proof (cases "length (buf b) - writePos b + readPos b < n + kCheapPrepend")
    case True
    from addCapacity_grow [OF assms True] b r assms(1) True show ?thesis
      by (auto simp: ba_inv_def ba_wf_def ba_content_def seg_append_left ba_consts)
  next
    case False
    then have "n + kCheapPrepend \<le> length (buf b) - writePos b + readPos b" by simp
    from addCapacity_shift [OF assms this] b r assms(1) this show ?thesis
      by (auto simp: ba_inv_def ba_wf_def ba_content_def seg_def ba_consts)
  qed
qed

section \<open>Refinement to a queue of bytes\<close>

lemma ba_write_spec:
  assumes "ba_inv b" and "ba_room (length xs) b"
  shows "\<exists>b'. ba_write xs b = Inr b' \<and> ba_inv b' \<and> ba_content b' = ba_content b @ xs \<and>
    endian b' = endian b \<and> length (buf b') \<le> length (buf b) + length xs"
proof (cases "xs = []")
  case True
  with assms show ?thesis by (simp add: ba_write_def)
next
  case False
  from addCapacity_spec [OF assms] obtain c where c: "addCapacity (int (length xs)) b = Inr c"
      "ba_inv c" "ba_content c = ba_content b" "endian c = endian b"
      "writePos c + length xs \<le> length (buf c)" "length (buf c) \<le> length (buf b) + length xs"
    by blast
  have r: "length (buf c) + 8 < 2147483648" "length xs < 2147483648"
    using assms(2) c(6) by (auto simp: ba_room_def ba_consts)
  have p: "readPos c \<le> writePos c" "writePos c \<le> length (buf c)"
    using c(2) by (auto simp: ba_inv_def ba_wf_def)
  let ?v = "take (writePos c) (buf c) @ xs @ drop (writePos c + length xs) (buf c)"
  have w: "ba_write xs b = Inr (c\<lparr>buf := ?v, writePos := writePos c + length xs\<rparr>)"
    using False c(1,5) r by (simp add: ba_write_def mem_write_def size_simps)
  have "ba_content (c\<lparr>buf := ?v, writePos := writePos c + length xs\<rparr>) = ba_content c @ xs"
    using p c(5) by (simp add: ba_content_def seg_def drop_take)
  moreover have "ba_inv (c\<lparr>buf := ?v, writePos := writePos c + length xs\<rparr>)"
    using c(2,5) p by (auto simp: ba_inv_def ba_wf_def)
  moreover have "length ?v = length (buf c)" using c(5) by simp
  ultimately show ?thesis using w c(3,4,6) by auto
qed

lemma ba_read_spec:
  assumes "ba_wf b" and "n \<le> length (ba_content b)"
  shows "ba_read n b = Inr (take n (ba_content b), b\<lparr>readPos := readPos b + n\<rparr>)"
    and "ba_wf (b\<lparr>readPos := readPos b + n\<rparr>)"
    and "ba_content (b\<lparr>readPos := readPos b + n\<rparr>) = drop n (ba_content b)"
proof -
  from assms have p: "readPos b + n \<le> writePos b" "writePos b \<le> length (buf b)" "length (buf b) < size_mod"
    by (auto simp: ba_wf_sizes(1,3) ba_wf_def ba_consts)
  then have "mem_read (readPos b) n (buf b) = Inr (take n (ba_content b))"
    by (simp add: mem_read_def ba_content_def seg_def min_def)
  then show "ba_read n b = Inr (take n (ba_content b), b\<lparr>readPos := readPos b + n\<rparr>)"
    using assms p by (simp add: ba_read_def ba_wf_sizes(3) size_simps)
  show "ba_wf (b\<lparr>readPos := readPos b + n\<rparr>)"
    using assms(1) p by (simp add: ba_wf_def)
  show "ba_content (b\<lparr>readPos := readPos b + n\<rparr>) = drop n (ba_content b)"
    by (simp add: ba_content_def drop_seg)
qed

lemma ba_read_short: "ba_wf b \<Longrightarrow> length (ba_content b) < n \<Longrightarrow> ba_read n b = Inl Out_of_range"
  by (simp add: ba_read_def ba_wf_sizes(3))

lemma ba_inv_readPos: "ba_inv b \<Longrightarrow> ba_wf (b\<lparr>readPos := readPos b + n\<rparr>) \<Longrightarrow> ba_inv (b\<lparr>readPos := readPos b + n\<rparr>)"
  by (simp add: ba_inv_def)

lemma ba_room_readPos [simp]: "ba_room n (b\<lparr>readPos := m\<rparr>) = ba_room n b"
  by (simp add: ba_room_def)

text \<open>The buffer keeps the contract of a byte queue.\<close>

interpretation baq: byte_queue ba_write ba_read ba_content ba_inv ba_room
proof
  fix q and xs :: "byte list" assume "ba_inv q" "ba_room (length xs) q"
  then show "\<exists>q'. ba_write xs q = Inr q' \<and> ba_inv q' \<and> ba_content q' = ba_content q @ xs"
    using ba_write_spec by blast
next
  fix q n q' and xs :: "byte list" assume *: "ba_inv q" "ba_room (length xs + n) q" "ba_write xs q = Inr q'"
  then have "ba_room (length xs) q" by (simp add: ba_room_def)
  with * ba_write_spec [of q xs] show "ba_room n q'" by (auto simp: ba_room_def)
next
  fix m n q assume "ba_room (m + n) q" then show "ba_room m q" by (simp add: ba_room_def)
next
  fix q n assume *: "ba_inv q" "n \<le> length (ba_content q)"
  then have "ba_inv (q\<lparr>readPos := readPos q + n\<rparr>)"
    using ba_read_spec(2) ba_inv_readPos by simp
  with ba_read_spec [of q n] * show "\<exists>q'. ba_read n q = Inr (take n (ba_content q), q') \<and>
      ba_inv q' \<and> ba_content q' = drop n (ba_content q)" by auto
next
  fix q n assume "ba_inv q" "length (ba_content q) < n"
  then show "ba_read n q = Inl Out_of_range" by (simp add: ba_read_short)
qed

lemma endian_addCapacity: "addCapacity n b = Inr b' \<Longrightarrow> endian b' = endian b"
  by (auto simp: addCapacity_def rbind_Inr_iff Let_def split: if_splits)

lemma endian_ba_write: "ba_write xs b = Inr b' \<Longrightarrow> endian b' = endian b"
  by (auto simp: ba_write_def rbind_Inr_iff dest: endian_addCapacity split: if_splits)

lemma endian_ba_read: "ba_read n b = Inr (bs, b') \<Longrightarrow> endian b' = endian b"
  by (auto simp: ba_read_def rbind_Inr_iff split: if_splits)

text \<open>
  Each integer type is a codec over that queue. The byte order chosen by the buffer decides the
  bytes: \<open>word_enc\<close> and \<open>word_dec\<close> are the swap-if-needed of the typed writers and readers.
\<close>

definition word_enc :: "int \<Rightarrow> int \<Rightarrow> 'a::len word \<Rightarrow> byte list" where
  "word_enc bo e v = to_mem bo (if e \<noteq> bo then byteSwap v else v)"

definition word_dec :: "int \<Rightarrow> int \<Rightarrow> byte list \<Rightarrow> 'a::len word" where
  "word_dec bo e bs = (let v = of_mem bo bs in if e \<noteq> bo then byteSwap v else v)"

lemma length_word_enc [simp]: "length (word_enc bo e v) = nbytes v"
  by (simp add: word_enc_def nbytes_const [of "byteSwap v" v])

lemma word_dec_enc: "8 dvd LENGTH('a::len) \<Longrightarrow> word_dec bo e (word_enc bo e (v :: 'a word)) = v"
  by (simp add: word_dec_def word_enc_def of_mem_to_mem byteSwap_byteSwap)

lemma word_enc_wire: "8 dvd LENGTH('a::len) \<Longrightarrow> host_order bo \<Longrightarrow> word_enc bo BIG_ENDIAN (v :: 'a word) = be_bytes v"
  by (auto simp: word_enc_def host_order_def to_mem_LITTLE_byteSwap)

lemmas ba_word_defs = writeInt8_def writeUint8_def writeInt16_def writeUint16_def writeInt32_def
  writeUint32_def writeInt64_def writeUint64_def readInt8_def readUint8_def readInt16_def
  readUint16_def readInt32_def readUint32_def readInt64_def readUint64_def

lemmas ba_codec_simps = ba_word_defs word_enc_def word_dec_def Let_def of_mem_to_mem byteSwap_byteSwap
  endian_ba_write endian_ba_read

interpretation int8: value_codec ba_write ba_read ba_content ba_inv ba_room
    endian "\<lambda>_. to_mem bo" "\<lambda>_. of_mem bo" 1 "writeInt8 bo" "readInt8 bo" for bo
  by unfold_locales (simp_all add: ba_codec_simps)

interpretation uint8: value_codec ba_write ba_read ba_content ba_inv ba_room
    endian "\<lambda>_. to_mem bo" "\<lambda>_. of_mem bo" 1 "writeUint8 bo" "readUint8 bo" for bo
  by unfold_locales (simp_all add: ba_codec_simps)

interpretation int16: value_codec ba_write ba_read ba_content ba_inv ba_room
    endian "word_enc bo" "word_dec bo" 2 "writeInt16 bo" "readInt16 bo" for bo
  by unfold_locales (simp_all add: ba_codec_simps)

interpretation uint16: value_codec ba_write ba_read ba_content ba_inv ba_room
    endian "word_enc bo" "word_dec bo" 2 "writeUint16 bo" "readUint16 bo" for bo
  by unfold_locales (simp_all add: ba_codec_simps)

interpretation int32: value_codec ba_write ba_read ba_content ba_inv ba_room
    endian "word_enc bo" "word_dec bo" 4 "writeInt32 bo" "readInt32 bo" for bo
  by unfold_locales (simp_all add: ba_codec_simps)

interpretation uint32: value_codec ba_write ba_read ba_content ba_inv ba_room
    endian "word_enc bo" "word_dec bo" 4 "writeUint32 bo" "readUint32 bo" for bo
  by unfold_locales (simp_all add: ba_codec_simps)

interpretation int64: value_codec ba_write ba_read ba_content ba_inv ba_room
    endian "word_enc bo" "word_dec bo" 8 "writeInt64 bo" "readInt64 bo" for bo
  by unfold_locales (simp_all add: ba_codec_simps)

interpretation uint64: value_codec ba_write ba_read ba_content ba_inv ba_room
    endian "word_enc bo" "word_dec bo" 8 "writeUint64 bo" "readUint64 bo" for bo
  by unfold_locales (simp_all add: ba_codec_simps)

section \<open>Properties\<close>

lemma ba_room_mono: "ba_room m b \<Longrightarrow> n \<le> m \<Longrightarrow> ba_room n b"
  by (simp add: ba_room_def)

lemma ByteArray_inv:
  assumes "n < 2147483648"
  shows "ba_inv (ByteArray n)" and "ba_content (ByteArray n) = []"
    and "endian (ByteArray n) = BIG_ENDIAN" and "ba_room m (ByteArray n) \<longleftrightarrow> n + m + 16 < 2147483648"
  using assms by (auto simp: ByteArray_def ba_inv_def ba_wf_def ba_content_def ba_room_def ba_consts size_simps)

text \<open>
  C8. A \<open>ByteArray\<close> is a queue of bytes: while the buffer stays below 2 GiB, a write never
  fails and appends the bytes to the unread content, and from the result every read of at most
  the unread size returns exactly the oldest bytes and leaves the rest, while a longer read
  raises \<open>std::out_of_range\<close>.
\<close>

theorem ba_queue_refinement:
  assumes "ba_inv b" and "ba_room (length xs) b"
  shows "\<exists>b'. ba_write xs b = Inr b' \<and> ba_inv b' \<and> ba_content b' = ba_content b @ xs \<and>
    (\<forall>n. if n \<le> getReadSize b'
         then \<exists>b''. ba_read n b' = Inr (take n (ba_content b'), b'') \<and> ba_inv b'' \<and>
                    ba_content b'' = drop n (ba_content b')
         else ba_read n b' = Inl Out_of_range)"
proof -
  from baq.put_spec [OF assms] obtain b' where
    b': "ba_write xs b = Inr b'" "ba_inv b'" "ba_content b' = ba_content b @ xs" by blast
  moreover have "getReadSize b' = length (ba_content b')" using b'(2) by (simp add: ba_wf_sizes(3))
  ultimately show ?thesis using baq.get_spec [OF b'(2)] baq.get_short [OF b'(2)] by auto
qed

theorem ba_queue_refinement_witness:
  "ba_inv (ByteArray 1024) \<and> ba_room 3 (ByteArray 1024) \<and>
   (\<exists>b'. ba_write ''abc'' (ByteArray 1024) = Inr b' \<and> ba_content b' = ''abc'')"
  using ba_queue_refinement [of "ByteArray 1024" "''abc''"] by (auto simp: ByteArray_inv)

text \<open>
  What \<open>tests/bytearray_test.cc\<close> samples: a sequence of values written through a typed writer
  is read back by the matching reader, and the buffer is empty afterwards.
\<close>

definition reads_back ::
    "('v \<Rightarrow> bytearray \<Rightarrow> bytearray res) \<Rightarrow> (bytearray \<Rightarrow> ('v \<times> bytearray) res) \<Rightarrow> bytearray \<Rightarrow> 'v list \<Rightarrow> bool" where
  "reads_back wr rd b vs \<longleftrightarrow> (\<exists>b1 b2. write_all wr vs b = Inr b1 \<and>
     read_all rd (length vs) b1 = Inr (vs, b2) \<and> ba_inv b2 \<and> getReadSize b2 = 0)"

lemma reads_backI:
  assumes "\<exists>q1 q2. write_all wr vs b = Inr q1 \<and> length (ba_content q1) = w * length vs \<and>
    read_all rd (length vs) q1 = Inr (vs, q2) \<and> ba_inv q2 \<and> ba_content q2 = []"
  shows "reads_back wr rd b vs"
  using assms unfolding reads_back_def by (metis ba_wf_sizes(3) ba_inv_wf list.size(3))

lemma width_room: "ba_room (8 * n) b \<Longrightarrow> w \<le> 8 \<Longrightarrow> length vs \<le> n \<Longrightarrow> ba_room (w * length vs) b"
  by (erule ba_room_mono) (rule mult_le_mono)

text \<open>
  For each of the eight integer types, on a host of either byte order and for a buffer of
  either byte order, \<open>n\<close> values written with the type's writer come back in order from its
  reader, leaving nothing to read.
\<close>

theorem typed_roundtrip:
  assumes "ba_inv b" and "ba_content b = []" and "ba_room (8 * n) b"
  shows "(\<forall>vs. length vs \<le> n \<longrightarrow> reads_back (writeInt8 bo) (readInt8 bo) b vs) \<and>
    (\<forall>vs. length vs \<le> n \<longrightarrow> reads_back (writeUint8 bo) (readUint8 bo) b vs) \<and>
    (\<forall>vs. length vs \<le> n \<longrightarrow> reads_back (writeInt16 bo) (readInt16 bo) b vs) \<and>
    (\<forall>vs. length vs \<le> n \<longrightarrow> reads_back (writeUint16 bo) (readUint16 bo) b vs) \<and>
    (\<forall>vs. length vs \<le> n \<longrightarrow> reads_back (writeInt32 bo) (readInt32 bo) b vs) \<and>
    (\<forall>vs. length vs \<le> n \<longrightarrow> reads_back (writeUint32 bo) (readUint32 bo) b vs) \<and>
    (\<forall>vs. length vs \<le> n \<longrightarrow> reads_back (writeInt64 bo) (readInt64 bo) b vs) \<and>
    (\<forall>vs. length vs \<le> n \<longrightarrow> reads_back (writeUint64 bo) (readUint64 bo) b vs)"
  using reads_backI [OF int8.write_read_all [OF assms(1,2) width_room [OF assms(3)]]]
    reads_backI [OF uint8.write_read_all [OF assms(1,2) width_room [OF assms(3)]]]
    reads_backI [OF int16.write_read_all [OF assms(1,2) width_room [OF assms(3)]]]
    reads_backI [OF uint16.write_read_all [OF assms(1,2) width_room [OF assms(3)]]]
    reads_backI [OF int32.write_read_all [OF assms(1,2) width_room [OF assms(3)]]]
    reads_backI [OF uint32.write_read_all [OF assms(1,2) width_room [OF assms(3)]]]
    reads_backI [OF int64.write_read_all [OF assms(1,2) width_room [OF assms(3)]]]
    reads_backI [OF uint64.write_read_all [OF assms(1,2) width_room [OF assms(3)]]]
  by simp

theorem typed_roundtrip_witness:
  "ba_inv (ByteArray 1024) \<and> ba_room (8 * 100) (ByteArray 1024) \<and>
   reads_back (writeInt32 LITTLE_ENDIAN) (readInt32 LITTLE_ENDIAN) (ByteArray 1024) [1, -1, 305419896]"
  using typed_roundtrip [of "ByteArray 1024" 100] by (auto simp: ByteArray_inv)

text \<open>
  The wire format does not depend on the host: a buffer in its default mode puts 16, 32 and
  64 bit integers in network byte order whatever \<open>BYTE_ORDER\<close> is.
\<close>

theorem wire_format_network_order:
  assumes "ba_inv b" and "ba_room 8 b" and "endian b = BIG_ENDIAN" and "host_order bo"
  shows "(\<exists>b'. writeInt16 bo v16 b = Inr b' \<and> ba_content b' = ba_content b @ be_bytes v16) \<and>
    (\<exists>b'. writeInt32 bo v32 b = Inr b' \<and> ba_content b' = ba_content b @ be_bytes v32) \<and>
    (\<exists>b'. writeInt64 bo v64 b = Inr b' \<and> ba_content b' = ba_content b @ be_bytes v64)"
proof -
  have r: "ba_room (2 + 0) b" "ba_room (4 + 0) b" "ba_room (8 + 0) b"
    using assms(2) by (simp_all add: ba_room_def)
  have "\<exists>b'. writeInt16 bo v16 b = Inr b' \<and> ba_content b' = ba_content b @ be_bytes v16"
    using int16.wr_spec [OF assms(1) r(1), of bo v16] assms(3,4) by (auto simp: word_enc_wire)
  moreover have "\<exists>b'. writeInt32 bo v32 b = Inr b' \<and> ba_content b' = ba_content b @ be_bytes v32"
    using int32.wr_spec [OF assms(1) r(2), of bo v32] assms(3,4) by (auto simp: word_enc_wire)
  moreover have "\<exists>b'. writeInt64 bo v64 b = Inr b' \<and> ba_content b' = ba_content b @ be_bytes v64"
    using int64.wr_spec [OF assms(1) r(3), of bo v64] assms(3,4) by (auto simp: word_enc_wire)
  ultimately show ?thesis by blast
qed

theorem wire_format_network_order_witness:
  "host_order LITTLE_ENDIAN \<and>
   (\<exists>b'. writeInt32 LITTLE_ENDIAN 258 (ByteArray 1024) = Inr b' \<and>
     ba_content b' = map char_of [0::nat, 0, 1, 2])"
proof -
  have "be_bytes (258 :: 32 word) = map char_of [0::nat, 0, 1, 2]" by code_simp
  with wire_format_network_order [of "ByteArray 1024" LITTLE_ENDIAN 0 258 0]
  show ?thesis by (auto simp: ByteArray_inv host_order_def)
qed

lemma str_resize_small: "n \<le> vec_max_size \<Longrightarrow> str_resize n = Inr ()"
  by (simp add: str_resize_def)

lemma ba_inv_content_max: "ba_inv b \<Longrightarrow> length (ba_content b) \<le> vec_max_size"
  using ba_wf_sizes [of b] by (auto simp: ba_inv_def ba_wf_def)

text \<open>What a reader gets after a length and a string, whatever the length says.\<close>

lemma ba_read_prefix:
  assumes "ba_inv b" and "ba_content b = s" and "n \<le> length s"
  shows "\<exists>b'. rbind (str_resize n) (\<lambda>_. ba_read n b) = Inr (take n s, b') \<and> ba_inv b' \<and>
    ba_content b' = drop n s"
  using baq.get_spec [OF assms(1), of n] assms ba_inv_content_max [OF assms(1)]
  by (auto simp: str_resize_small)

text \<open>
  Length-prefixed strings. With a 32 or 64 bit length a string written to an empty buffer is
  read back whole. With a 16 bit length \<open>writeString16\<close> stores the size modulo 65536 but all
  the bytes: the reader gets a string of at most 65535 bytes back unchanged, and of a longer one only
  that remainder, the other bytes staying in the buffer as if they were the next field.
\<close>

theorem string_roundtrip:
  assumes "ba_inv b" and "ba_content b = []" and "ba_room (8 + length s) b"
  shows "(\<exists>b1 b2. writeString16 bo s b = Inr b1 \<and>
      readString16 bo b1 = Inr (take (length s mod 65536) s, b2) \<and>
      ba_content b2 = drop (length s mod 65536) s) \<and>
    (\<exists>b1 b2. writeString32 bo s b = Inr b1 \<and> readString32 bo b1 = Inr (s, b2) \<and> ba_content b2 = []) \<and>
    (\<exists>b1 b2. writeString64 bo s b = Inr b1 \<and> readString64 bo b1 = Inr (s, b2) \<and> ba_content b2 = [])"
proof -
  have len: "length s < 2147483648" using assms(3) by (simp add: ba_room_def)
  have r: "ba_room (2 + length s) b" "ba_room (4 + length s) b" "ba_room (8 + length s) b"
    using assms(3) by (auto elim: ba_room_mono)
  have l: "unat (of_nat (length s) :: 16 word) = length s mod 65536" "unat (of_nat (length s) :: 32 word) = length s"
    "unat (of_nat (length s) :: 64 word) = length s" using len by (simp_all add: unat_of_nat)
  have "\<exists>b1 b2. writeString16 bo s b = Inr b1 \<and> readString16 bo b1 = Inr (take (length s mod 65536) s, b2) \<and>
      ba_content b2 = drop (length s mod 65536) s"
  proof -
    from uint16.framed [OF assms(1,2) r(1), of bo "of_nat (length s)"] obtain c d e where
      f: "writeUint16 bo (of_nat (length s)) b = Inr c" "ba_write s c = Inr d" "readUint16 bo d = Inr (of_nat (length s), e)"
        "ba_inv e" "ba_content e = s" by blast
    with ba_read_prefix [OF f(4,5), of "length s mod 65536"] l(1) show ?thesis
      by (auto simp: writeString16_def readString16_def)
  qed
  moreover have "\<exists>b1 b2. writeString32 bo s b = Inr b1 \<and> readString32 bo b1 = Inr (s, b2) \<and> ba_content b2 = []"
  proof -
    from uint32.framed [OF assms(1,2) r(2), of bo "of_nat (length s)"] obtain c d e where
      f: "writeUint32 bo (of_nat (length s)) b = Inr c" "ba_write s c = Inr d" "readUint32 bo d = Inr (of_nat (length s), e)"
        "ba_inv e" "ba_content e = s" by blast
    with ba_read_prefix [OF f(4,5), of "length s"] l(2) show ?thesis by (auto simp: writeString32_def readString32_def)
  qed
  moreover have "\<exists>b1 b2. writeString64 bo s b = Inr b1 \<and> readString64 bo b1 = Inr (s, b2) \<and> ba_content b2 = []"
  proof -
    from uint64.framed [OF assms(1,2) r(3), of bo "of_nat (length s)"] obtain c d e where
      f: "writeUint64 bo (of_nat (length s)) b = Inr c" "ba_write s c = Inr d" "readUint64 bo d = Inr (of_nat (length s), e)"
        "ba_inv e" "ba_content e = s" by blast
    with ba_read_prefix [OF f(4,5), of "length s"] l(3) show ?thesis by (auto simp: writeString64_def readString64_def)
  qed
  ultimately show ?thesis by blast
qed

theorem string_roundtrip_witness:
  "ba_room (8 + 65537) (ByteArray 1024) \<and>
   (\<exists>b1 b2. writeString16 LITTLE_ENDIAN (replicate 65537 CHR ''x'') (ByteArray 1024) = Inr b1 \<and>
      readString16 LITTLE_ENDIAN b1 = Inr (''x'', b2) \<and> ba_content b2 = replicate 65536 CHR ''x'')"
proof -
  have "take (65537 mod 65536) (replicate 65537 CHR ''x'') = ''x''"
    "drop (65537 mod 65536) (replicate 65537 CHR ''x'') = replicate 65536 CHR ''x''"
    by (simp_all add: take_replicate)
  then show ?thesis
    using string_roundtrip [of "ByteArray 1024" "replicate 65537 CHR ''x''" LITTLE_ENDIAN]
    by (simp add: ByteArray_inv)
qed

section \<open>The reserve in front of the content\<close>

lemma write_into_reserve_aborts:
  assumes "ba_wf b" and "readPos b < kCheapPrepend" and "ba_room 0 b" and "xs \<noteq> []"
    and "length xs + kCheapPrepend \<le> length (buf b) - writePos b + readPos b"
  shows "ba_write xs b = Inl Assert_fail"
proof -
  have p: "readPos b \<le> writePos b" "writePos b \<le> length (buf b)" "length (buf b) + 8 < 2147483648"
    using assms(1,3) by (auto simp: ba_wf_def ba_room_def ba_consts)
  then have "size_add (getWriteSize b) (readPos b) = length (buf b) - writePos b + readPos b"
    by (simp add: ba_wf_sizes(2) [OF assms(1)] size_simps)
  moreover have "length xs \<le> length (buf b)" using p assms(2,5) by simp
  then have "size_add (size_of_int (int_of_size (length xs))) kCheapPrepend = length xs + kCheapPrepend"
    using p by (simp add: size_simps ba_consts)
  ultimately have "\<not> size_add (getWriteSize b) (readPos b) <
      size_add (size_of_int (int_of_size (length xs))) kCheapPrepend"
    using assms(5) by linarith
  with assms(2,4) show ?thesis by (simp add: ba_write_def addCapacity_def)
qed

text \<open>
  \<open>reset\<close> puts both positions at 0, inside the reserve. From then on every write of 1 to
  1016 bytes, the common case, violates the assertion in \<open>addCapacity\<close> and aborts.
\<close>

theorem write_after_reset_aborts:
  assumes "0 < length xs" and "length xs \<le> 1016"
  shows "\<exists>b'. ba_reset b = Inr b' \<and> ba_content b' = [] \<and> ba_write xs b' = Inl Assert_fail"
proof -
  let ?v = "take 1024 (buf b) @ replicate (1024 - length (buf b)) (char_of (0::nat))"
  let ?b = "b\<lparr>readPos := 0, writePos := 0, buf := ?v\<rparr>"
  have "length ?v = 1024" by simp
  then have "ba_write xs ?b = Inl Assert_fail"
    using assms by (intro write_into_reserve_aborts) (auto simp: ba_wf_def ba_room_def ba_consts)
  then show ?thesis
    by (simp add: ba_reset_def vec_resize_def ba_content_def ba_consts)
qed

theorem write_after_reset_aborts_witness:
  "\<exists>b'. ba_reset (ByteArray 1024) = Inr b' \<and> ba_content b' = [] \<and> ba_write ''a'' b' = Inl Assert_fail"
  by (rule write_after_reset_aborts) simp_all

text \<open>
  \<open>writePrepend\<close> of at most the reserve puts the bytes in front of the unread content
  without moving it. It uses the reserve up: the next write that would still fit without
  reallocation aborts on the same assertion.
\<close>

theorem writePrepend_spec:
  assumes "ba_inv b" and "readPos b = kCheapPrepend" and "0 < length xs" and "length xs \<le> kCheapPrepend"
    and "0 < length ys" and "writePos b + length ys + length xs \<le> getCapacity b" and "ba_room 0 b"
  shows "\<exists>b'. writePrepend xs b = Inr b' \<and> ba_wf b' \<and> ba_content b' = xs @ ba_content b \<and>
    endian b' = endian b \<and> ba_write ys b' = Inl Assert_fail"
proof -
  have p: "8 \<le> writePos b" "writePos b \<le> length (buf b)"
    using assms(1,2) by (auto simp: ba_inv_def ba_wf_def ba_consts)
  let ?v = "take (8 - length xs) (buf b) @ xs @ drop 8 (buf b)"
  let ?b = "b\<lparr>readPos := 8 - length xs, buf := ?v\<rparr>"
  have len: "length ?v = length (buf b)" using p assms(2,4) by (simp add: ba_consts)
  have w: "writePrepend xs b = Inr ?b"
    using p assms(2,4) by (simp add: writePrepend_def mem_write_def ba_consts)
  have wf: "ba_wf ?b" using assms(1) p len by (simp add: ba_wf_def ba_inv_def)
  have c: "ba_content ?b = xs @ ba_content b"
    using p assms(2,4) by (simp add: ba_content_def seg_def ba_consts)
  have "ba_room 0 ?b" using assms(7) len by (simp add: ba_room_def)
  then have "ba_write ys ?b = Inl Assert_fail"
    using wf len p assms(3-6) by (intro write_into_reserve_aborts) (auto simp: ba_consts getCapacity_def)
  with w wf c show ?thesis by auto
qed

theorem writePrepend_spec_witness:
  "\<exists>b'. writePrepend ''ab'' (ByteArray 1024) = Inr b' \<and> ba_content b' = ''ab'' \<and>
     ba_write ''c'' b' = Inl Assert_fail"
proof -
  have "readPos (ByteArray 1024) = kCheapPrepend" "writePos (ByteArray 1024) = 8" "getCapacity (ByteArray 1024) = 1032"
    by (simp_all add: ByteArray_def getCapacity_def ba_consts size_simps)
  then show ?thesis
    using writePrepend_spec [of "ByteArray 1024" "''ab''" "''c''"]
    by (auto simp: ByteArray_inv ba_consts)
qed

section \<open>Files\<close>

lemma readFile_loop_spec:
  assumes "ba_inv b" and "ba_room (length bytes) b"
  shows "\<exists>b'. readFile_loop bytes b = Inr b' \<and> ba_inv b' \<and> ba_content b' = ba_content b @ bytes"
  using assms
proof (induction bytes b rule: readFile_loop.induct)
  case (1 bytes b)
  let ?chunk = "take kInitSize bytes" and ?rest = "drop kInitSize bytes"
  have "length bytes = length ?chunk + length ?rest"
    by (metis append_take_drop_id length_append)
  with "1.prems"(2) have "ba_room (length ?chunk + length ?rest) b" by metis
  then have "ba_room (length ?chunk) b" by (rule baq.room_less)
  from ba_write_spec [OF "1.prems"(1) this] obtain c where
    c: "ba_write ?chunk b = Inr c" "ba_inv c" "ba_content c = ba_content b @ ?chunk" by blast
  have "ba_room (length ?rest) c"
    using baq.put_room [OF "1.prems"(1) \<open>ba_room (length ?chunk + length ?rest) b\<close> c(1)] .
  then have "\<exists>b'. readFile_loop ?rest c = Inr b' \<and> ba_inv b' \<and> ba_content b' = ba_content c @ ?rest"
    if "\<not> length bytes < kInitSize" using "1.IH" [OF c(1) that c(2)] by blast
  with c show ?case by (subst readFile_loop.simps) auto
qed

text \<open>
  \<open>writeToFile\<close> followed by \<open>readFromFile\<close> on another buffer reproduces the unread content,
  whatever its length relative to the 1024 byte chunks of the read loop; the loop always ends.
\<close>

theorem file_roundtrip:
  assumes "ba_wf b" and "ba_inv c" and "ba_room (getReadSize b) c" and "can_create name"
  shows "\<exists>fs' c'. writeToFile can_create name fs b = Inr (True, fs') \<and>
    readFromFile name fs' c = Inr (True, c') \<and> ba_content c' = ba_content c @ ba_content b"
proof -
  have "mem_read (readPos b) (getReadSize b) (buf b) = Inr (ba_content b)"
    using assms(1) by (simp add: mem_read_def ba_wf_sizes ba_wf_def ba_content_def seg_def)
  moreover from readFile_loop_spec [of c "ba_content b"] assms obtain c' where
    "readFile_loop (ba_content b) c = Inr c'" "ba_content c' = ba_content c @ ba_content b"
    by (auto simp: ba_wf_sizes(3))
  ultimately show ?thesis
    using assms(4) by (simp add: writeToFile_def readFromFile_def)
qed

theorem file_roundtrip_witness:
  "\<exists>b fs' c'. ba_write (replicate 2048 CHR ''z'') (ByteArray 1024) = Inr b \<and>
     writeToFile (\<lambda>_. True) ''f'' Map.empty b = Inr (True, fs') \<and>
     readFromFile ''f'' fs' (ByteArray 1024) = Inr (True, c') \<and> ba_content c' = replicate 2048 CHR ''z''"
proof -
  from ba_write_spec [of "ByteArray 1024" "replicate 2048 CHR ''z''"] obtain b where
    b: "ba_write (replicate 2048 CHR ''z'') (ByteArray 1024) = Inr b" "ba_inv b"
      "ba_content b = replicate 2048 CHR ''z''"
    by (auto simp: ByteArray_inv)
  moreover have "getReadSize b = 2048" using ba_wf_sizes(3) [of b] b by simp
  ultimately show ?thesis
    using file_roundtrip [of b "ByteArray 1024" "\<lambda>_. True" "''f''" Map.empty]
    by (auto simp: ByteArray_inv)
qed

end
