(* ===== verification/Http_Message.thy ===== *)
theory Http_Message
  imports Header_Map Byte_Array
begin

text \<open>
  \<open>src/reyao/http/http_request.h/.cc\<close> and \<open>http_response.h/.cc\<close>: methods, status codes, the
  two message classes and their textual form (\<open>dump\<close>). Fields carry the prefix \<open>rq_\<close> or
  \<open>rs_\<close> instead of the trailing underscore; plain getters and setters are the record's own.
\<close>

section \<open>Methods and status codes\<close>

datatype HttpMethod = GET | HEAD | POST | INVALID_METHOD

definition method_num :: "HttpMethod \<Rightarrow> nat" where
  "method_num m = (case m of GET \<Rightarrow> 1 | HEAD \<Rightarrow> 2 | POST \<Rightarrow> 3 | INVALID_METHOD \<Rightarrow> 4)"

definition StringToHttpMethod :: "string \<Rightarrow> HttpMethod" where
  "StringToHttpMethod s =
     (if strcmp ''GET'' s = 0 then GET
      else if strcmp ''HEAD'' s = 0 then HEAD
      else if strcmp ''POST'' s = 0 then POST
      else INVALID_METHOD)"

definition s_method_string :: "string list" where
  "s_method_string = [''GET'', ''HEAD'', ''POST'']"

definition HttpMethodToString :: "HttpMethod \<Rightarrow> string" where
  "HttpMethodToString m =
     (if 4 \<le> method_num m then ''<unknown>'' else s_method_string ! (method_num m - 1))"

datatype HttpStatus =
  OK | MOVED_PERMANENTLY | BAD_REQUEST | UNAUTHORIZED | NOT_FOUND | INTERNAL_SERVER_ERROR

definition status_code :: "HttpStatus \<Rightarrow> nat" where
  "status_code s = (case s of OK \<Rightarrow> 200 | MOVED_PERMANENTLY \<Rightarrow> 301 | BAD_REQUEST \<Rightarrow> 400 |
     UNAUTHORIZED \<Rightarrow> 401 | NOT_FOUND \<Rightarrow> 404 | INTERNAL_SERVER_ERROR \<Rightarrow> 500)"

definition HttpStatusToString :: "HttpStatus \<Rightarrow> string" where
  "HttpStatusToString s = (case s of OK \<Rightarrow> ''OK'' | MOVED_PERMANENTLY \<Rightarrow> ''Moved Permanently'' |
     BAD_REQUEST \<Rightarrow> ''Bad Request'' | UNAUTHORIZED \<Rightarrow> ''Unauthorized'' |
     NOT_FOUND \<Rightarrow> ''Not Found'' | INTERNAL_SERVER_ERROR \<Rightarrow> ''Internal Server Error'')"

definition isHttpStatus :: "int \<Rightarrow> bool" where
  "isHttpStatus status \<longleftrightarrow> status \<in> {200, 301, 400, 401, 404, 500}"

text \<open>The cast \<open>(HttpStatus)status_code\<close>, used on codes \<open>isHttpStatus\<close> accepted.\<close>

definition status_of_code :: "int \<Rightarrow> HttpStatus" where
  "status_of_code c = (if c = 200 then OK else if c = 301 then MOVED_PERMANENTLY
     else if c = 400 then BAD_REQUEST else if c = 401 then UNAUTHORIZED
     else if c = 404 then NOT_FOUND else INTERNAL_SERVER_ERROR)"

section \<open>Requests\<close>

record HttpRequest =
  rq_method :: HttpMethod
  rq_version :: nat
  rq_keepAlive :: bool
  rq_path :: string
  rq_query :: string
  rq_fragment :: string
  rq_body :: string
  rq_headers :: str_map
  rq_params :: str_map
  rq_cookies :: str_map

definition new_HttpRequest :: "nat \<Rightarrow> bool \<Rightarrow> HttpRequest" where
  "new_HttpRequest version keepAlive =
     \<lparr> rq_method = GET, rq_version = version, rq_keepAlive = keepAlive, rq_path = ''/'',
       rq_query = [], rq_fragment = [], rq_body = [], rq_headers = [], rq_params = [], rq_cookies = [] \<rparr>"

definition rq_getHeader :: "string \<Rightarrow> HttpRequest \<Rightarrow> string" where
  "rq_getHeader key r =
     (case strmap_find key (rq_headers r) of None \<Rightarrow> ''header not found'' | Some v \<Rightarrow> v)"

definition rq_getParam :: "string \<Rightarrow> HttpRequest \<Rightarrow> string" where
  "rq_getParam key r =
     (case strmap_find key (rq_params r) of None \<Rightarrow> ''param not found'' | Some v \<Rightarrow> v)"

definition rq_getCookie :: "string \<Rightarrow> HttpRequest \<Rightarrow> string" where
  "rq_getCookie key r =
     (case strmap_find key (rq_cookies r) of None \<Rightarrow> ''cookie not found'' | Some v \<Rightarrow> v)"

definition rq_addHeader :: "string \<Rightarrow> string \<Rightarrow> HttpRequest \<Rightarrow> HttpRequest" where
  "rq_addHeader key val r = r\<lparr>rq_headers := strmap_assign key val (rq_headers r)\<rparr>"

definition rq_addParam :: "string \<Rightarrow> string \<Rightarrow> HttpRequest \<Rightarrow> HttpRequest" where
  "rq_addParam key val r = r\<lparr>rq_params := strmap_assign key val (rq_params r)\<rparr>"

definition rq_addCookie :: "string \<Rightarrow> string \<Rightarrow> HttpRequest \<Rightarrow> HttpRequest" where
  "rq_addCookie key val r = r\<lparr>rq_cookies := strmap_assign key val (rq_cookies r)\<rparr>"

definition rq_delHeader :: "string \<Rightarrow> HttpRequest \<Rightarrow> HttpRequest" where
  "rq_delHeader key r = r\<lparr>rq_headers := strmap_erase key (rq_headers r)\<rparr>"

definition rq_delParam :: "string \<Rightarrow> HttpRequest \<Rightarrow> HttpRequest" where
  "rq_delParam key r = r\<lparr>rq_params := strmap_erase key (rq_params r)\<rparr>"

definition rq_delCookie :: "string \<Rightarrow> HttpRequest \<Rightarrow> HttpRequest" where
  "rq_delCookie key r = r\<lparr>rq_cookies := strmap_erase key (rq_cookies r)\<rparr>"

text \<open>The loop over the headers that both \<open>dump\<close> functions contain.\<close>

fun dump_headers :: "str_map \<Rightarrow> string" where
  "dump_headers [] = []"
| "dump_headers ((k, v) # m) =
     (if strcasecmp k ''connection'' = 0 then dump_headers m
      else k @ '': '' @ v @ kCRLF @ dump_headers m)"

definition rq_first_line :: "HttpRequest \<Rightarrow> string" where
  "rq_first_line r = HttpMethodToString (rq_method r) @ '' '' @
     rq_path r @ (if rq_query r = [] then [] else ''?'') @
     rq_query r @ (if rq_fragment r = [] then [] else ''#'') @
     rq_fragment r @ '' HTTP/'' @ dec (rq_version r div 16) @
     ''.'' @ dec (rq_version r mod 16)"

definition rq_dump :: "HttpRequest \<Rightarrow> string" where
  "rq_dump r =
     rq_first_line r @ kCRLF @
     ''connection: '' @ (if rq_keepAlive r then ''keep-alive'' else ''close'') @ kCRLF @
     dump_headers (rq_headers r) @
     (if rq_body r = [] then kCRLF
      else ''content-length: '' @ dec (length (rq_body r)) @ kCRLF @ kCRLF @ rq_body r)"

section \<open>Responses\<close>

record HttpResponse =
  rs_status :: HttpStatus
  rs_version :: nat
  rs_keepAlive :: bool
  rs_body :: string
  rs_reason :: string
  rs_headers :: str_map

definition new_HttpResponse :: "nat \<Rightarrow> bool \<Rightarrow> HttpResponse" where
  "new_HttpResponse version keepAlive =
     \<lparr> rs_status = OK, rs_version = version, rs_keepAlive = keepAlive,
       rs_body = [], rs_reason = [], rs_headers = [] \<rparr>"

definition rs_getHeader :: "string \<Rightarrow> HttpResponse \<Rightarrow> string" where
  "rs_getHeader key r =
     (case strmap_find key (rs_headers r) of None \<Rightarrow> ''header not found'' | Some v \<Rightarrow> v)"

definition rs_addHeader :: "string \<Rightarrow> string \<Rightarrow> HttpResponse \<Rightarrow> HttpResponse" where
  "rs_addHeader key val r = r\<lparr>rs_headers := strmap_assign key val (rs_headers r)\<rparr>"

definition rs_delHeader :: "string \<Rightarrow> HttpResponse \<Rightarrow> HttpResponse" where
  "rs_delHeader key r = r\<lparr>rs_headers := strmap_erase key (rs_headers r)\<rparr>"

definition rs_first_line :: "HttpResponse \<Rightarrow> string" where
  "rs_first_line r = ''HTTP/'' @ dec (rs_version r div 16) @
     ''.'' @ dec (rs_version r mod 16) @
     '' '' @ dec (status_code (rs_status r)) @ '' '' @
     (if rs_reason r = [] then HttpStatusToString (rs_status r) else rs_reason r)"

definition rs_dump :: "HttpResponse \<Rightarrow> string" where
  "rs_dump r =
     rs_first_line r @ kCRLF @
     ''Connection: '' @ (if rs_keepAlive r then ''Keep-Alive'' else ''Close'') @ kCRLF @
     dump_headers (rs_headers r) @
     (if rs_body r = [] then kCRLF
      else ''Content-Length: '' @ dec (length (rs_body r)) @ kCRLF @ kCRLF @ rs_body r)"

section \<open>Properties\<close>

definition rq_wf :: "HttpRequest \<Rightarrow> bool" where
  "rq_wf r \<longleftrightarrow> strmap_inv (rq_headers r) \<and> strmap_inv (rq_params r) \<and> strmap_inv (rq_cookies r)"

lemma method_string_roundtrip: "m \<noteq> INVALID_METHOD \<Longrightarrow> StringToHttpMethod (HttpMethodToString m) = m"
  by (cases m) (simp_all add: StringToHttpMethod_def HttpMethodToString_def s_method_string_def
      method_num_def strcmp_def c_str_def)

lemma status_code_roundtrip:
  "isHttpStatus (int (status_code s)) \<and> status_of_code (int (status_code s)) = s"
  by (cases s) (simp_all add: isHttpStatus_def status_of_code_def status_code_def)

lemma rq_wf_updates:
  assumes "rq_wf r"
  shows "rq_wf (rq_addHeader k v r)" "rq_wf (rq_addParam k v r)" "rq_wf (rq_addCookie k v r)"
    "rq_wf (rq_delHeader k r)" "rq_wf (rq_delParam k r)" "rq_wf (rq_delCookie k r)"
  using assms by (simp_all add: rq_wf_def rq_addHeader_def rq_addParam_def rq_addCookie_def
      rq_delHeader_def rq_delParam_def rq_delCookie_def hdr.inv_assign hdr.inv_erase)

text \<open>
  The three maps of a request ignore the case of keys: after \<open>addHeader\<close> every spelling of
  the key finds the value and every other key what it found before, after \<open>delHeader\<close> every
  spelling is gone, and all updates keep the maps ordered. The same holds for parameters and cookies.
\<close>

theorem request_maps_case_insensitive:
  assumes "rq_wf r"
  shows "rq_wf (rq_delHeader k (rq_addHeader k v r)) \<and>
    rq_getHeader k' (rq_addHeader k v r) = (if strcasecmp k' k = 0 then v else rq_getHeader k' r) \<and>
    rq_getHeader k' (rq_delHeader k r) = (if strcasecmp k' k = 0 then ''header not found'' else rq_getHeader k' r) \<and>
    rq_getParam k' (rq_addParam k v r) = (if strcasecmp k' k = 0 then v else rq_getParam k' r) \<and>
    rq_getParam k' (rq_delParam k r) = (if strcasecmp k' k = 0 then ''param not found'' else rq_getParam k' r) \<and>
    rq_getCookie k' (rq_addCookie k v r) = (if strcasecmp k' k = 0 then v else rq_getCookie k' r) \<and>
    rq_getCookie k' (rq_delCookie k r) = (if strcasecmp k' k = 0 then ''cookie not found'' else rq_getCookie k' r)"
proof -
  from assms have inv: "strmap_inv (rq_headers r)" "strmap_inv (rq_params r)" "strmap_inv (rq_cookies r)"
    by (simp_all add: rq_wf_def)
  have "strcasecmp k' k = 0 \<longleftrightarrow> fold_case k' = fold_case k" by (simp add: strcasecmp_def)
  with inv rq_wf_updates [OF rq_wf_updates(1) [OF assms]] show ?thesis
    by (simp add: rq_getHeader_def rq_addHeader_def rq_delHeader_def rq_getParam_def rq_addParam_def
        rq_delParam_def rq_getCookie_def rq_addCookie_def rq_delCookie_def hdr.find_assign hdr.find_erase)
qed

theorem request_maps_case_insensitive_witness:
  "rq_wf (new_HttpRequest 17 False) \<and>
   rq_getHeader ''CONTENT-length'' (rq_addHeader ''Content-Length'' ''5'' (new_HttpRequest 17 False)) = ''5''"
proof -
  have "rq_wf (new_HttpRequest 17 False)"
    by (simp add: rq_wf_def new_HttpRequest_def hdr.inv_empty)
  moreover have "strcasecmp ''CONTENT-length'' ''Content-Length'' = 0"
    by code_simp
  ultimately show ?thesis
    using request_maps_case_insensitive [of "new_HttpRequest 17 False" "''Content-Length''" "''5''" "''CONTENT-length''"]
    by simp
qed

end
