(* ===== verification/Socket_Stream.thy ===== *)
theory Socket_Stream
  imports Byte_Array
begin

text \<open>
  \<open>src/reyao/socket_stream.cc\<close>: reading from and writing to a connected socket through a
  \<open>ByteArray\<close>. What a call of \<open>Socket::recv\<close> or \<open>Socket::send\<close> returns is decided by the kernel
  and is an argument: \<open>Recv_bytes bs\<close> is a call that delivered \<open>bs\<close> (the empty list is the end of
  the stream, return value 0), \<open>Recv_error\<close> one that returned -1. A \<open>recv\<close> never delivers more
  bytes than it was asked for, which the theorems assume as \<open>recv_fits\<close>.
\<close>

datatype recv_event = Recv_bytes "byte list" | Recv_error

definition recv_fits :: "nat \<Rightarrow> recv_event \<Rightarrow> bool" where
  "recv_fits sz ev = (case ev of Recv_bytes bs \<Rightarrow> length bs \<le> sz | Recv_error \<Rightarrow> True)"

definition recv_data :: "recv_event \<Rightarrow> byte list" where
  "recv_data ev = (case ev of Recv_bytes bs \<Rightarrow> bs | Recv_error \<Rightarrow> [])"

text \<open>\<open>read(void*, size_t)\<close> and \<open>read(ByteArray*, size_t)\<close>.\<close>

definition ss_read :: "bool \<Rightarrow> recv_event \<Rightarrow> int \<times> byte list" where
  "ss_read connected ev =
     (if \<not> connected then (-1, [])
      else case ev of Recv_bytes bs \<Rightarrow> (int_of_size (length bs), bs) | Recv_error \<Rightarrow> (-1, []))"

definition ss_read_ba :: "bool \<Rightarrow> recv_event \<Rightarrow> nat \<Rightarrow> bytearray \<Rightarrow> (int \<times> bytearray) res" where
  "ss_read_ba connected ev sz b =
     (if \<not> connected then Inr (-1, b)
      else rbind (getWriteArea sz b) (\<lambda>b.
        case ev of
          Recv_error \<Rightarrow> Inr (-1, b)
        | Recv_bytes bs \<Rightarrow>
            rbind (mem_write (writePos b) bs (buf b)) (\<lambda>v.
              let rt = int_of_size (length bs) in
              Inr (rt, if rt > 0 then setWritePos (size_add (writePos b) (size_of_int rt)) (b\<lparr>buf := v\<rparr>)
                       else b\<lparr>buf := v\<rparr>))))"

text \<open>
  \<open>write(void*, size_t)\<close> and \<open>write(ByteArray*, size_t)\<close>: \<open>sent\<close> is the return value of
  \<open>send\<close>. The second result is what was handed to \<open>send\<close>.
\<close>

definition ss_write :: "bool \<Rightarrow> int \<Rightarrow> byte list \<Rightarrow> int \<times> byte list" where
  "ss_write connected sent bs = (if \<not> connected then (-1, []) else (sent, bs))"

definition ss_write_ba :: "bool \<Rightarrow> int \<Rightarrow> nat \<Rightarrow> bytearray \<Rightarrow> (int \<times> byte list \<times> bytearray) res" where
  "ss_write_ba connected sent sz b =
     (if \<not> connected then Inr (-1, [], b)
      else rbind (peek (getReadArea sz b) b) (\<lambda>bs.
        Inr (sent, bs, if sent > 0 then setReadPos (size_add (readPos b) (size_of_int sent)) b else b)))"

definition ss_write_all :: "bool \<Rightarrow> int \<Rightarrow> bytearray \<Rightarrow> (int \<times> byte list \<times> bytearray) res" where
  "ss_write_all connected sent b = ss_write_ba connected sent (getReadSize b) b"

text \<open>The capacity a read leaves: it depends on the unread content, not on the reads before.\<close>

lemma addCapacity_length:
  assumes "ba_inv b" and "ba_room n b" and "addCapacity (int n) b = Inr b'"
  shows "length (buf b') \<le> max (length (buf b)) (length (ba_content b) + 2 * n + 8)"
proof (cases "length (buf b) - writePos b + readPos b < n + kCheapPrepend")
  case True
  have "readPos b \<le> writePos b" "writePos b \<le> length (buf b)" "length (ba_content b) = writePos b - readPos b"
    using assms(1) by (auto simp: ba_inv_def ba_wf_def ba_wf_sizes(1,3))
  with addCapacity_grow [OF assms(1,2) True] assms(3) True show ?thesis
    by (auto simp: ba_consts)
next
  case False
  then have f: "n + kCheapPrepend \<le> length (buf b) - writePos b + readPos b" by simp
  have "readPos b \<le> writePos b" "writePos b \<le> length (buf b)" "kCheapPrepend \<le> readPos b"
    using assms(1) by (auto simp: ba_inv_def ba_wf_def)
  with addCapacity_shift [OF assms(1,2) f] assms(1,3) show ?thesis
    by (auto simp: ba_wf_sizes(1,3))
qed

lemma ba_advance:
  assumes "ba_inv b" and "n \<le> length (ba_content b)"
  shows "ba_inv (b\<lparr>readPos := readPos b + n\<rparr>)"
    and "ba_content (b\<lparr>readPos := readPos b + n\<rparr>) = drop n (ba_content b)"
    and "size_add (readPos b) n = readPos b + n"
    and "peek n b = Inr (take n (ba_content b))"
proof -
  have wf: "ba_wf b" using assms(1) by simp
  show "ba_inv (b\<lparr>readPos := readPos b + n\<rparr>)"
    using ba_read_spec(2) [OF wf assms(2)] assms(1) by (rule ba_inv_readPos [rotated])
  show "ba_content (b\<lparr>readPos := readPos b + n\<rparr>) = drop n (ba_content b)"
    by (rule ba_read_spec(3) [OF wf assms(2)])
  have p: "readPos b + n \<le> writePos b" "writePos b \<le> length (buf b)" "length (buf b) < size_mod"
    using wf assms(2) by (auto simp: ba_wf_sizes(1,3) ba_wf_def ba_consts)
  then show "size_add (readPos b) n = readPos b + n" by (simp add: size_simps)
  show "peek n b = Inr (take n (ba_content b))"
    using p by (simp add: peek_def mem_read_def ba_content_def seg_def min_def)
qed

text \<open>Filling the area \<open>getWriteArea\<close> returns and moving the write position behind the bytes.\<close>

lemma write_area_spec:
  assumes "ba_inv b" and "ba_room n b" and "length bs \<le> n"
  shows "\<exists>c v. getWriteArea n b = Inr c \<and> mem_write (writePos c) bs (buf c) = Inr v \<and>
    size_add (writePos c) (length bs) = writePos c + length bs \<and>
    ba_inv (c\<lparr>buf := v, writePos := writePos c + length bs\<rparr>) \<and>
    ba_content (c\<lparr>buf := v, writePos := writePos c + length bs\<rparr>) = ba_content b @ bs \<and>
    endian c = endian b \<and> length v = length (buf c) \<and>
    length (buf c) \<le> max (length (buf b)) (length (ba_content b) + 2 * n + 8)"
proof -
  have r: "length (buf b) + n + 8 < 2147483648" using assms(2) by (simp add: ba_room_def ba_consts)
  from addCapacity_spec [OF assms(1,2)] obtain c where c: "addCapacity (int n) b = Inr c" "ba_inv c"
      "ba_content c = ba_content b" "endian c = endian b" "writePos c + n \<le> length (buf c)" "length (buf c) \<le> length (buf b) + n"
    by blast
  let ?v = "take (writePos c) (buf c) @ bs @ drop (writePos c + length bs) (buf c)"
  have p: "readPos c \<le> writePos c" "writePos c \<le> length (buf c)" "length (buf c) \<le> vec_max_size"
    using c(2) by (auto simp: ba_inv_def ba_wf_def)
  have l: "length ?v = length (buf c)" using c(5) assms(3) by auto
  have "mem_write (writePos c) bs (buf c) = Inr ?v" using c(5) assms(3) by (simp add: mem_write_def)
  moreover have "getWriteArea n b = Inr c" using c(1) r by (simp add: getWriteArea_def size_simps)
  moreover have "ba_content (c\<lparr>buf := ?v, writePos := writePos c + length bs\<rparr>) = ba_content c @ bs"
    using p c(5) assms(3) by (simp add: ba_content_def seg_def drop_take)
  moreover have "ba_inv (c\<lparr>buf := ?v, writePos := writePos c + length bs\<rparr>)"
    using c(2,5) p l assms(3) by (simp add: ba_inv_def ba_wf_def)
  moreover have "size_add (writePos c) (length bs) = writePos c + length bs"
    using c(5,6) r assms(3) by (simp add: size_simps)
  ultimately show ?thesis using c(3,4) l addCapacity_length [OF assms(1,2) c(1)] by auto
qed

lemma ss_read_ba_spec:
  assumes "ba_inv b" and "ba_room n b" and "length bs \<le> n"
  shows "\<exists>b'. ss_read_ba True (Recv_bytes bs) n b = Inr (int (length bs), b') \<and> ba_inv b' \<and>
    ba_content b' = ba_content b @ bs \<and> endian b' = endian b \<and>
    length (buf b') \<le> max (length (buf b)) (length (ba_content b) + 2 * n + 8)"
proof -
  from write_area_spec [OF assms] obtain c v where cv: "getWriteArea n b = Inr c"
      "mem_write (writePos c) bs (buf c) = Inr v" "size_add (writePos c) (length bs) = writePos c + length bs"
      "ba_inv (c\<lparr>buf := v, writePos := writePos c + length bs\<rparr>)"
      "ba_content (c\<lparr>buf := v, writePos := writePos c + length bs\<rparr>) = ba_content b @ bs"
      "endian c = endian b" "length v = length (buf c)"
      "length (buf c) \<le> max (length (buf b)) (length (ba_content b) + 2 * n + 8)"
    by blast
  have "length bs < 2147483648" using assms(2,3) by (simp add: ba_room_def)
  then have "ss_read_ba True (Recv_bytes bs) n b =
      Inr (int (length bs), c\<lparr>buf := v, writePos := writePos c + length bs\<rparr>)"
    using cv(1-3) by (auto simp: ss_read_ba_def setWritePos_def size_simps Let_def)
  with cv(4-8) show ?thesis by auto
qed

lemma ss_write_ba_spec:
  assumes "ba_wf b" and "0 \<le> sent" and "sent \<le> int (min sz (length (ba_content b)))"
  shows "\<exists>b'. ss_write_ba True sent sz b = Inr (sent, take sz (ba_content b), b') \<and> ba_wf b' \<and>
    ba_content b' = drop (nat sent) (ba_content b)"
proof -
  define k where "k = min sz (length (ba_content b))"
  have len: "length (ba_content b) = getReadSize b" using assms(1) by (rule ba_wf_sizes(3))
  have k: "getReadArea sz b = k" by (auto simp: getReadArea_def k_def len)
  have p: "readPos b + length (ba_content b) = writePos b" "writePos b \<le> length (buf b)" "length (buf b) < size_mod"
    using assms(1) by (auto simp: ba_wf_sizes(1,3) ba_wf_def ba_consts)
  have pk: "peek k b = Inr (take sz (ba_content b))"
    using p by (auto simp: peek_def mem_read_def k_def ba_content_def seg_def min_def)
  define n where "n = nat sent"
  have n: "sent = int n" "n \<le> length (ba_content b)" using assms(2,3) by (auto simp: n_def)
  have "size_add (readPos b) n = readPos b + n" using p n(2) by (simp add: size_simps)
  moreover have "size_of_int sent = n" using n p by (simp add: size_simps)
  ultimately have "ss_write_ba True sent sz b = Inr (sent, take sz (ba_content b), b\<lparr>readPos := readPos b + n\<rparr>)"
    using k pk n by (simp add: ss_write_ba_def setReadPos_def)
  with ba_read_spec(2,3) [OF assms(1) n(2)] show ?thesis by (simp add: n_def)
qed

lemma writePrepend_content:
  assumes "ba_wf b" and "length xs \<le> readPos b"
  shows "\<exists>b'. writePrepend xs b = Inr b' \<and> ba_wf b' \<and> ba_content b' = xs @ ba_content b \<and> endian b' = endian b"
proof -
  let ?p = "readPos b - length xs"
  let ?v = "take ?p (buf b) @ xs @ drop (readPos b) (buf b)"
  have p: "readPos b \<le> writePos b" "writePos b \<le> length (buf b)" "length (buf b) \<le> vec_max_size"
    using assms(1) by (auto simp: ba_wf_def)
  then have "writePrepend xs b = Inr (b\<lparr>readPos := ?p, buf := ?v\<rparr>)"
    using assms(2) by (simp add: writePrepend_def mem_write_def)
  moreover have "ba_wf (b\<lparr>readPos := ?p, buf := ?v\<rparr>)" using p assms(2) by (simp add: ba_wf_def)
  moreover have "ba_content (b\<lparr>readPos := ?p, buf := ?v\<rparr>) = xs @ ba_content b"
    using p assms(2) by (simp add: ba_content_def seg_def)
  ultimately show ?thesis by auto
qed

end
