(* ===== verification/Util.thy ===== *)
theory Util
  imports Byte_Array C_Text
begin

text \<open>
  \<open>src/reyao/util.cc\<close>: the millisecond clock, hexadecimal input (chunk sizes of HTTP bodies)
  and reading a text file.
\<close>

text \<open>\<open>GetCurrentMs\<close> from the two fields \<open>gettimeofday\<close> fills in.\<close>

definition GetCurrentMs :: "int \<Rightarrow> int \<Rightarrow> int" where
  "GetCurrentMs tv_sec tv_usec = tv_sec * 1000 + c_div tv_usec 1000"

text \<open>
  The accumulator of \<open>HexToDec\<close> is a \<open>size_t\<close>; the result is converted to \<open>int\<close>.
  \<open>None\<close> is the early return at a character that is not a hexadecimal digit.
\<close>

fun hex_loop :: "nat \<Rightarrow> string \<Rightarrow> nat option" where
  "hex_loop res [] = Some res"
| "hex_loop res (c # cs) =
     (if 48 \<le> ord_of c \<and> ord_of c \<le> 57
      then hex_loop (size_sub (size_add ((res * 16) mod size_mod) (ord_of c)) 48) cs
      else if 65 \<le> ord_of (toupper_c c) \<and> ord_of (toupper_c c) \<le> 70
      then hex_loop (size_add (size_sub (size_add ((res * 16) mod size_mod) (ord_of (toupper_c c))) 65) 10) cs
      else None)"

definition HexToDec :: "string \<Rightarrow> int" where
  "HexToDec hex = (case hex_loop 0 hex of None \<Rightarrow> -1 | Some res \<Rightarrow> int_of_size res)"

text \<open>\<open>std::getline\<close> until it fails: lines without their newline, no line after a final one.\<close>

function getlines :: "string \<Rightarrow> string list" where
  "getlines s =
     (if s = [] then []
      else if CHR 0x0A \<in> set s
      then takeWhile (\<lambda>c. c \<noteq> CHR 0x0A) s # getlines (tl (dropWhile (\<lambda>c. c \<noteq> CHR 0x0A) s))
      else [s])"
  by pat_completeness auto
termination
proof (relation "measure length", simp_all)
  fix s :: string assume "s \<noteq> []"
  have "length (dropWhile (\<lambda>c. c \<noteq> CHR 0x0A) s) \<le> length s" by (rule length_dropWhile_le)
  with \<open>s \<noteq> []\<close> show "length (dropWhile (\<lambda>c. c \<noteq> CHR 0x0A) s) - Suc 0 < length s"
    by (cases s) auto
qed

declare getlines.simps [simp del]

definition ReadFile :: "file_system \<Rightarrow> string \<Rightarrow> string" where
  "ReadFile fs pathname =
     (case fs pathname of None \<Rightarrow> [] | Some s \<Rightarrow> concat (getlines s))"

section \<open>Hexadecimal input against its mathematical value\<close>

definition is_hex_c :: "char \<Rightarrow> bool" where
  "is_hex_c c \<longleftrightarrow> is_digit_c c \<or> 65 \<le> ord_of (toupper_c c) \<and> ord_of (toupper_c c) \<le> 70"

definition hex_digit_val :: "char \<Rightarrow> nat" where
  "hex_digit_val c = (if is_digit_c c then ord_of c - 48 else ord_of (toupper_c c) - 55)"

fun hex_val :: "nat \<Rightarrow> string \<Rightarrow> nat" where
  "hex_val acc [] = acc"
| "hex_val acc (c # cs) = hex_val (acc * 16 + hex_digit_val c) cs"

lemma size_sub_mod_add: "size_sub ((y + k) mod size_mod) k = y mod size_mod"
proof -
  have "(int ((y + k) mod size_mod) - int k) mod int size_mod = (int (y + k) - int k) mod int size_mod"
    unfolding of_nat_mod by (rule mod_diff_left_eq)
  also have "\<dots> = int (y mod size_mod)" by (simp only: of_nat_add add_diff_cancel_right' of_nat_mod)
  finally show ?thesis by (simp only: size_sub_def nat_int)
qed

lemma size_digit_step:
  "size_sub (size_add ((res * 16) mod size_mod) (k + d)) k = (res * 16 + d) mod size_mod"
proof -
  have "size_add ((res * 16) mod size_mod) (k + d) = (res * 16 + d + k) mod size_mod"
    unfolding size_add_def by (simp only: mod_add_left_eq add.assoc add.commute [of k])
  then show ?thesis by (simp only: size_sub_mod_add)
qed

lemma hex_val_mod: "hex_val (acc mod size_mod) s mod size_mod = hex_val acc s mod size_mod"
proof (induction s arbitrary: acc)
  case (Cons c cs)
  let ?d = "hex_digit_val c"
  have "hex_val (acc mod size_mod * 16 + ?d) cs mod size_mod =
      hex_val ((acc mod size_mod * 16 + ?d) mod size_mod) cs mod size_mod"
    by (rule Cons.IH [symmetric])
  also have "(acc mod size_mod * 16 + ?d) mod size_mod = (acc * 16 + ?d) mod size_mod"
    by (rule mod_add_cong [OF mod_mult_left_eq refl])
  finally show ?case using Cons.IH [of "acc * 16 + ?d"] by simp
qed simp

lemma hex_loop_val:
  "res < size_mod \<Longrightarrow>
   hex_loop res s = (if list_all is_hex_c s then Some (hex_val res s mod size_mod) else None)"
proof (induction s arbitrary: res)
  case (Cons c cs)
  define d where "d = hex_digit_val c"
  have step: "hex_loop res (c # cs) = (if is_hex_c c then hex_loop ((res * 16 + d) mod size_mod) cs else None)"
  proof (cases "is_digit_c c")
    case True
    then have "ord_of c = 48 + d" "d \<le> 15" by (auto simp: d_def hex_digit_val_def is_digit_c_def)
    with True size_digit_step [of res 48 d] show ?thesis by (simp add: is_hex_c_def is_digit_c_def)
  next
    case False
    then have n: "\<not> (48 \<le> ord_of c \<and> ord_of c \<le> 57)" by (simp add: is_digit_c_def)
    show ?thesis
    proof (cases "is_hex_c c")
      case True
      with False have o: "65 \<le> ord_of (toupper_c c)" "ord_of (toupper_c c) \<le> 70" by (auto simp: is_hex_c_def)
      define e where "e = ord_of (toupper_c c) - 65"
      have e: "ord_of (toupper_c c) = 65 + e" "e \<le> 5" "d = e + 10"
        using o False by (auto simp: e_def d_def hex_digit_val_def)
      have "size_add ((res * 16 + e) mod size_mod) 10 = (res * 16 + d) mod size_mod"
        unfolding size_add_def e(3) by (simp only: mod_add_left_eq add.assoc)
      with n o True e size_digit_step [of res 65 e] show ?thesis by (simp add: n)
    qed (use False n in \<open>auto simp: is_hex_c_def\<close>)
  qed
  have "hex_loop ((res * 16 + d) mod size_mod) cs =
      (if list_all is_hex_c cs then Some (hex_val (res * 16 + d) cs mod size_mod) else None)"
    using Cons.IH [of "(res * 16 + d) mod size_mod"] hex_val_mod [of "res * 16 + d" cs] by simp
  then show ?case by (simp add: step d_def del: hex_loop.simps)
qed simp

text \<open>
  \<open>HexToDec\<close> of any string: -1 when a character is not a hexadecimal digit, otherwise the
  value reduced modulo \<open>2^64\<close> and then converted to a 32 bit \<open>int\<close>. Up to \<open>7fffffff\<close> this is
  the value itself; \<open>ffffffff\<close> is -1 and cannot be told from an error.
\<close>

theorem HexToDec_spec:
  "HexToDec s = (if list_all is_hex_c s then int_of_size (hex_val 0 s mod size_mod) else -1) \<and>
   HexToDec ''7fffffff'' = 2147483647 \<and> HexToDec ''FFFFFFFF'' = -1 \<and> HexToDec ''fffffffe'' = -2"
proof -
  have "HexToDec s = (if list_all is_hex_c s then int_of_size (hex_val 0 s mod size_mod) else -1)" for s
    by (simp add: HexToDec_def hex_loop_val)
  moreover have "HexToDec ''7fffffff'' = 2147483647" "HexToDec ''FFFFFFFF'' = -1" "HexToDec ''fffffffe'' = -2"
    by (simp_all add: HexToDec_def toupper_c_def ord_of_def size_add_def size_sub_def int_of_size_def)
  ultimately show ?thesis by blast
qed

text \<open>
  \<open>ReadFile\<close> returns the bytes of the file with every newline removed, not the file: the
  loop appends the lines \<open>getline\<close> returns and never their separators.
\<close>

theorem ReadFile_drops_newlines:
  "ReadFile fs name = (case fs name of None \<Rightarrow> [] | Some s \<Rightarrow> filter (\<lambda>c. c \<noteq> CHR 0x0A) s)"
proof -
  have "concat (getlines s) = filter (\<lambda>c. c \<noteq> CHR 0x0A) s" for s
  proof (induction s rule: getlines.induct)
    case (1 s)
    let ?P = "\<lambda>c. c \<noteq> CHR 0x0A"
    show ?case
    proof (cases "CHR 0x0A \<in> set s")
      case True
      then have "dropWhile ?P s \<noteq> []" by (simp add: dropWhile_eq_Nil_conv)
      then obtain r where r: "dropWhile ?P s = CHR 0x0A # r"
        using hd_dropWhile [of ?P s] by (cases "dropWhile ?P s") auto
      have "filter ?P s = filter ?P (takeWhile ?P s @ dropWhile ?P s)" by simp
      also have "\<dots> = takeWhile ?P s @ filter ?P r"
        unfolding filter_append r by (auto simp: filter_id_conv dest: set_takeWhileD)
      finally have "filter ?P s = takeWhile ?P s @ filter ?P r" .
      moreover have "concat (getlines r) = filter ?P r" using 1 True r by (cases s) auto
      ultimately show ?thesis using True r by (subst getlines.simps) auto
    next
      case False
      then have "filter ?P s = s" by (auto simp: filter_id_conv)
      with False show ?thesis by (subst getlines.simps) auto
    qed
  qed
  then show ?thesis by (simp add: ReadFile_def split: option.split)
qed

end
