(* ===== verification/Http_Parser.thy ===== *)
theory Http_Parser
  imports Http_Message Socket_Stream Util
begin

text \<open>
  \<open>src/reyao/http/http_parser.h\<close> and \<open>http_parser.cc\<close>: the incremental parsers of requests and
  responses. A parser owns a \<open>ByteArray\<close>; it reads from the socket until the message is complete
  or broken, consuming lines and body parts as soon as they have arrived.

  The two classes differ in \<open>parseFirstLine\<close>, in the object that receives headers and body, and
  in the size of a read; everything else is the same text twice. The model has that text once, with
  these differences as arguments, and instantiates it for both classes. A loop that the code runs
  until a condition holds is a \<open>partial_function\<close>: \<open>None\<close> is a run that does not return.
\<close>

section \<open>State\<close>

datatype ParseState = PARSE_FIRST_LINE | PARSE_HEADER | PARSE_BODY

datatype ParseChunkState = PARSE_CHUNK_SIZE | PARSE_CHUNK_CONTENT

text \<open>The members of \<open>HttpParser\<close> other than the buffer, with the message that is filled in.\<close>

record 'm parse_st =
  readSize :: nat
  parseState :: ParseState
  p_error :: bool
  p_finish :: bool
  p_body :: string
  contentLen :: nat
  chunked :: bool
  chunkSize :: nat
  chunkState :: ParseChunkState
  msg :: 'm

record 'm http_parser =
  ba :: bytearray
  st :: "'m parse_st"

definition s_maxReqBufferSize :: nat where
  "s_maxReqBufferSize = 4 * 1024"

definition s_maxResBufferSize :: nat where
  "s_maxResBufferSize = 64 * 1024 * 1024"

definition new_parse_st :: "'m \<Rightarrow> 'm parse_st" where
  "new_parse_st m =
     \<lparr> readSize = 0, parseState = PARSE_FIRST_LINE, p_error = False, p_finish = False, p_body = [],
       contentLen = 0, chunked = False, chunkSize = 0, chunkState = PARSE_CHUNK_SIZE, msg = m \<rparr>"

definition new_http_parser :: "'m \<Rightarrow> 'm http_parser" where
  "new_http_parser m = \<lparr> ba = ByteArray kInitSize, st = new_parse_st m \<rparr>"

section \<open>Lines\<close>

text \<open>
  \<open>peek\<close>, \<open>findCRLF\<close> and the \<open>setReadPos\<close> behind the line; \<open>None\<close> when no line is complete.
  A line handler gets the bytes from \<open>start\<close> up to \<open>end\<close>, where the carriage return lies.
\<close>

definition next_line :: "bytearray \<Rightarrow> (byte list \<times> bytearray) option res" where
  "next_line b = rbind (findCRLF b) (\<lambda>e.
     case e of
       None \<Rightarrow> Inr None
     | Some e \<Rightarrow> rbind (peek e b) (\<lambda>line.
         Inr (Some (line, setReadPos (size_add (size_add (readPos b) e) 2) b))))"

definition parseURI :: "string \<Rightarrow> char \<Rightarrow> HttpRequest \<Rightarrow> string \<times> HttpRequest" where
  "parseURI uri des req =
     (let temp = find_ch des uri in
      (take temp uri,
       if temp \<noteq> length uri
       then if des = CHR ''#'' then req\<lparr>rq_fragment := drop (temp + 1) uri\<rparr>
            else if des = CHR ''?'' then req\<lparr>rq_query := drop (temp + 1) uri\<rparr>
            else if des = CHR ''/'' then req\<lparr>rq_path := drop temp uri\<rparr>
            else req
       else req))"

definition rq_parseFirstLine :: "string \<Rightarrow> HttpRequest parse_st \<Rightarrow> HttpRequest parse_st res" where
  "rq_parseFirstLine line s =
     (let space = find_ch CHR '' '' line in
      if space = length line then Inr (s\<lparr>p_error := True\<rparr>)
      else
        let s = s\<lparr>msg := (msg s)\<lparr>rq_method := StringToHttpMethod (take space line)\<rparr>\<rparr>;
            rest = drop (space + 1) line;
            space = find_ch CHR '' '' rest in
        if space = length rest then Inr (s\<lparr>p_error := True\<rparr>)
        else
          let version = drop (space + 1) rest in
          if version \<noteq> ''HTTP/1.0'' \<and> version \<noteq> ''HTTP/1.1'' then Inr (s\<lparr>p_error := True\<rparr>)
          else
            let s = s\<lparr>msg := (msg s)\<lparr>rq_version := (if version = ''HTTP/1.0'' then 16 else 17)\<rparr>\<rparr>;
                target = take space rest;
                begin = find_ch CHR ''/'' target in
            if begin = length target then Inr (s\<lparr>p_error := True\<rparr>)
            else
              let uri = drop begin target;
                  (uri, req) = parseURI uri CHR ''#'' (msg s);
                  (uri, req) = parseURI uri CHR ''?'' req;
                  (uri, req) = parseURI uri CHR ''/'' req
              in Inr (s\<lparr>msg := req, parseState := PARSE_HEADER\<rparr>))"

definition rs_parseFirstLine :: "string \<Rightarrow> HttpResponse parse_st \<Rightarrow> HttpResponse parse_st res" where
  "rs_parseFirstLine line s =
     (let space = find_ch CHR '' '' line in
      if space = length line then Inr (s\<lparr>p_error := True\<rparr>)
      else
        let version = take space line in
        if version \<noteq> ''HTTP/1.0'' \<and> version \<noteq> ''HTTP/1.1'' then Inr (s\<lparr>p_error := True\<rparr>)
        else
          let s = s\<lparr>msg := (msg s)\<lparr>rs_version := (if version = ''HTTP/1.0'' then 16 else 17)\<rparr>\<rparr>;
              rest = drop (space + 1) line;
              space = find_ch CHR '' '' rest in
          if space = length rest then Inr (s\<lparr>p_error := True\<rparr>)
          else
            rbind (stoi (take space rest)) (\<lambda>status_code.
              if \<not> isHttpStatus status_code then Inr (s\<lparr>p_error := True\<rparr>)
              else Inr (s\<lparr>msg := (msg s)\<lparr>rs_status := status_of_code status_code,
                                        rs_reason := drop space rest\<rparr>,
                         parseState := PARSE_HEADER\<rparr>)))"

text \<open>
  \<open>parseHeader\<close>. For a line whose only colon is its last byte, \<open>end - temp - 2\<close> is -1 and the
  \<open>std::string\<close> constructor raises \<open>std::length_error\<close>. \<open>header_field\<close> is what happens to a line
  that has been cut into title and value.
\<close>

definition header_field ::
    "(string \<Rightarrow> string \<Rightarrow> 'm \<Rightarrow> 'm) \<Rightarrow> string \<Rightarrow> string \<Rightarrow> 'm parse_st \<Rightarrow> 'm parse_st res" where
  "header_field addHeader title val s =
     (let s = (if strcasecmp title ''transfer-encoding'' = 0 \<and> strcasecmp val ''chunked'' = 0
               then s\<lparr>chunked := True\<rparr> else s)
      in rbind (if \<not> chunked s \<and> strcasecmp title ''content-length'' = 0
                then rbind (stoi val) (\<lambda>n. Inr (s\<lparr>contentLen := size_of_int n\<rparr>))
                else Inr s)
           (\<lambda>s. Inr (s\<lparr>msg := addHeader title val (msg s)\<rparr>)))"

definition parseHeader ::
    "(string \<Rightarrow> string \<Rightarrow> 'm \<Rightarrow> 'm) \<Rightarrow> string \<Rightarrow> 'm parse_st \<Rightarrow> 'm parse_st res" where
  "parseHeader addHeader line s =
     (if hd (line @ kCRLF) = CHR 0x0D then Inr (s\<lparr>parseState := PARSE_BODY\<rparr>)
      else
        let temp = find_ch CHR '':'' line in
        if temp \<noteq> length line \<and> temp + 2 \<noteq> length line
        then if length line < temp + 2 then Inl Length_error
             else header_field addHeader (take temp line) (drop (temp + 2) line) s
        else Inr (s\<lparr>p_error := True\<rparr>))"

section \<open>Bodies\<close>

text \<open>
  \<open>parseChunkedBody\<close>. The test the code writes as \<open>chunkSize_ == PARSE_CHUNK_SIZE\<close> compares a
  size with an enumerator whose value is 0. With a non-zero size in state
  \<open>PARSE_CHUNK_SIZE\<close> neither branch would do anything and the loop would spin.
\<close>

partial_function (option) parseChunkedBody ::
    "(string \<Rightarrow> 'm \<Rightarrow> 'm) \<Rightarrow> 'm http_parser \<Rightarrow> 'm http_parser res option" where
  "parseChunkedBody setBody p =
     (let s = st p; b = ba p in
      if p_error s then Some (Inr p)
      else if chunkSize s = 0
      then case next_line b of
          Inl e \<Rightarrow> Some (Inl e)
        | Inr None \<Rightarrow> Some (Inr p)
        | Inr (Some (hex, b)) \<Rightarrow>
            (let n = size_of_int (HexToDec hex); s = s\<lparr>chunkSize := n\<rparr> in
             if n = size_of_int (-1) then Some (Inr \<lparr>ba = b, st = s\<lparr>p_error := True\<rparr>\<rparr>)
             else if n = 0
             then Some (Inr \<lparr>ba = b, st = s\<lparr>msg := setBody (p_body s) (msg s), p_finish := True\<rparr>\<rparr>)
             else parseChunkedBody setBody \<lparr>ba = b, st = s\<lparr>chunkState := PARSE_CHUNK_CONTENT\<rparr>\<rparr>)
      else if chunkState s = PARSE_CHUNK_CONTENT
      then (let n = size_add (chunkSize s) 2 in
            if n \<le> getReadSize b
            then case peek n b of
                Inl e \<Rightarrow> Some (Inl e)
              | Inr bytes \<Rightarrow>
                  parseChunkedBody setBody
                    \<lparr>ba = setReadPos (size_add (readPos b) n) b,
                     st = s\<lparr>p_body := p_body s @ bytes, chunkSize := 0, chunkState := PARSE_CHUNK_SIZE\<rparr>\<rparr>
            else Some (Inr p))
      else parseChunkedBody setBody p)"

definition parseFixedBody :: "(string \<Rightarrow> 'm \<Rightarrow> 'm) \<Rightarrow> 'm http_parser \<Rightarrow> 'm http_parser res" where
  "parseFixedBody setBody p =
     (let s = st p; b = ba p in
      if contentLen s = 0 then Inr (p\<lparr>st := s\<lparr>p_finish := True\<rparr>\<rparr>)
      else if contentLen s \<le> getReadSize b
      then rbind (peek (contentLen s) b) (\<lambda>bytes.
             Inr \<lparr>ba = setReadPos (size_add (readPos b) (contentLen s)) b,
                  st = s\<lparr>msg := setBody bytes (msg s), p_finish := True\<rparr>\<rparr>)
      else Inr p)"

section \<open>The loops of \<open>parseRequest\<close> and \<open>parseResponse\<close>\<close>

text \<open>The inner loop, from the state after a successful read to its \<open>break\<close>.\<close>

partial_function (option) parse_inner ::
    "(string \<Rightarrow> 'm parse_st \<Rightarrow> 'm parse_st res) \<Rightarrow> (string \<Rightarrow> string \<Rightarrow> 'm \<Rightarrow> 'm) \<Rightarrow> (string \<Rightarrow> 'm \<Rightarrow> 'm) \<Rightarrow>
     'm http_parser \<Rightarrow> 'm http_parser res option" where
  "parse_inner firstLine addHeader setBody p =
     (let s = st p; b = ba p in
      if p_error s then Some (Inr p)
      else case parseState s of
        PARSE_BODY \<Rightarrow>
          (let s = (if \<not> chunked s \<and> contentLen s = 0 then s\<lparr>p_finish := True\<rparr> else s);
               p = p\<lparr>st := s\<rparr> in
           if chunked s then parseChunkedBody setBody p else Some (parseFixedBody setBody p))
      | phase \<Rightarrow>
          (case next_line b of
             Inl e \<Rightarrow> Some (Inl e)
           | Inr None \<Rightarrow> Some (Inr p)
           | Inr (Some (line, b)) \<Rightarrow>
               (case (if phase = PARSE_FIRST_LINE then firstLine line s else parseHeader addHeader line s) of
                  Inl e \<Rightarrow> Some (Inl e)
                | Inr s \<Rightarrow> parse_inner firstLine addHeader setBody \<lparr>ba = b, st = s\<rparr>)))"

text \<open>
  The outer loop over the outcomes of the successive calls of \<open>recv\<close>; when there are none left
  the call blocks and the parser does not return. The result has the return value, the parser and
  the outcomes not yet used.
\<close>

fun parse_outer ::
    "(string \<Rightarrow> 'm parse_st \<Rightarrow> 'm parse_st res) \<Rightarrow> (string \<Rightarrow> string \<Rightarrow> 'm \<Rightarrow> 'm) \<Rightarrow> (string \<Rightarrow> 'm \<Rightarrow> 'm) \<Rightarrow>
     nat \<Rightarrow> bool \<Rightarrow> recv_event list \<Rightarrow> 'm http_parser \<Rightarrow> (bool \<times> 'm http_parser \<times> recv_event list) res option" where
  "parse_outer firstLine addHeader setBody maxSize connected evs p =
     (if p_finish (st p) \<or> p_error (st p) then Some (Inr (\<not> p_error (st p), p, evs))
      else if readSize (st p) = maxSize \<or> \<not> connected then Some (Inr (False, p, evs))
      else case evs of
        [] \<Rightarrow> None
      | ev # evs \<Rightarrow>
          (case ss_read_ba connected ev maxSize (ba p) of
             Inl e \<Rightarrow> Some (Inl e)
           | Inr (len, b) \<Rightarrow>
               if len \<le> 0 then Some (Inr (False, p\<lparr>ba := b\<rparr>, evs))
               else case parse_inner firstLine addHeader setBody (p\<lparr>ba := b\<rparr>) of
                   None \<Rightarrow> None
                 | Some (Inl e) \<Rightarrow> Some (Inl e)
                 | Some (Inr p) \<Rightarrow> parse_outer firstLine addHeader setBody maxSize connected evs p))"

declare parse_outer.simps [simp del]

definition rq_setBody :: "string \<Rightarrow> HttpRequest \<Rightarrow> HttpRequest" where
  "rq_setBody s req = req\<lparr>rq_body := s\<rparr>"

definition rs_setBody :: "string \<Rightarrow> HttpResponse \<Rightarrow> HttpResponse" where
  "rs_setBody s rsp = rsp\<lparr>rs_body := s\<rparr>"

text \<open>
  The response parser has its own copies of the header and body functions; they differ from the
  request parser's in the message they update.
\<close>

abbreviation rs_parseHeader :: "string \<Rightarrow> HttpResponse parse_st \<Rightarrow> HttpResponse parse_st res" where
  "rs_parseHeader \<equiv> parseHeader rs_addHeader"

abbreviation rs_parseChunkedBody :: "HttpResponse http_parser \<Rightarrow> HttpResponse http_parser res option" where
  "rs_parseChunkedBody \<equiv> parseChunkedBody rs_setBody"

abbreviation rs_parseFixedBody :: "HttpResponse http_parser \<Rightarrow> HttpResponse http_parser res" where
  "rs_parseFixedBody \<equiv> parseFixedBody rs_setBody"

definition parseRequest where
  "parseRequest = parse_outer rq_parseFirstLine rq_addHeader rq_setBody s_maxReqBufferSize"

definition parseResponse where
  "parseResponse = parse_outer rs_parseFirstLine rs_addHeader rs_setBody s_maxResBufferSize"

end
