(* ===== verification/Http_Machine.thy ===== *)
theory Http_Machine
  imports Http_Parser
begin

text \<open>
  What the parsers of \<open>http_parser.cc\<close> compute, stated without buffer, read positions and
  socket: a machine that consumes a list of bytes. \<open>pstep\<close> takes one line, one chunk or a body
  from the front of the input or reports that it cannot proceed; \<open>run\<close> iterates it. The loops of
  the code implement the machine (a refinement proved once, in the locale \<open>message_parser\<close>, for
  both parsers), and the machine does not depend on how the input is cut into reads.
\<close>

section \<open>The machine\<close>

definition a_line :: "byte list \<Rightarrow> (byte list \<times> byte list) option" where
  "a_line bs = (case search_crlf bs of None \<Rightarrow> None | Some e \<Rightarrow> Some (take e bs, drop (e + 2) bs))"

definition body_step ::
    "(string \<Rightarrow> 'm \<Rightarrow> 'm) \<Rightarrow> 'm parse_st \<Rightarrow> byte list \<Rightarrow> ('m parse_st \<times> byte list) option" where
  "body_step setBody s bs =
     (if \<not> chunked s
      then if contentLen s = 0 then Some (s\<lparr>p_finish := True\<rparr>, bs)
           else if contentLen s \<le> length bs
           then Some (s\<lparr>msg := setBody (take (contentLen s) bs) (msg s), p_finish := True\<rparr>, drop (contentLen s) bs)
           else None
      else if chunkSize s = 0
      then case a_line bs of
          None \<Rightarrow> None
        | Some (hex, bs) \<Rightarrow>
            let n = size_of_int (HexToDec hex); s = s\<lparr>chunkSize := n\<rparr> in
            Some (if n = size_of_int (-1) then s\<lparr>p_error := True\<rparr>
                  else if n = 0 then s\<lparr>msg := setBody (p_body s) (msg s), p_finish := True\<rparr>
                  else s\<lparr>chunkState := PARSE_CHUNK_CONTENT\<rparr>, bs)
      else let n = size_add (chunkSize s) 2 in
        if chunkState s = PARSE_CHUNK_CONTENT \<and> n \<le> length bs
        then Some (s\<lparr>p_body := p_body s @ take n bs, chunkSize := 0, chunkState := PARSE_CHUNK_SIZE\<rparr>, drop n bs)
        else None)"

definition pstep where
  "pstep firstLine addHeader setBody s bs =
     (if p_error s \<or> p_finish s then None
      else if parseState s = PARSE_BODY then map_option Inr (body_step setBody s bs)
      else case a_line bs of
          None \<Rightarrow> None
        | Some (line, bs) \<Rightarrow>
            Some (map_res (\<lambda>s. (s, bs))
              (if parseState s = PARSE_FIRST_LINE then firstLine line s else parseHeader addHeader line s)))"

definition pweight :: "'m parse_st \<Rightarrow> byte list \<Rightarrow> nat" where
  "pweight s bs = 2 * length bs + (if p_error s \<or> p_finish s then 0 else 1) + (if chunkSize s = 0 then 0 else 1)"

lemma search_crlf_bound: "search_crlf bs = Some e \<Longrightarrow> e + 2 \<le> length bs"
  by (induction bs arbitrary: e rule: search_crlf.induct) (auto split: if_splits)

lemma a_line_length: "a_line bs = Some (line, rest) \<Longrightarrow> length line + 2 + length rest = length bs"
  by (auto simp: a_line_def dest!: search_crlf_bound split: option.splits)

lemma body_step_less:
  "body_step setBody s bs = Some (s', bs') \<Longrightarrow> \<not> p_error s \<Longrightarrow> \<not> p_finish s \<Longrightarrow> pweight s' bs' < pweight s bs"
  by (auto simp: body_step_def pweight_def Let_def dest!: a_line_length split: if_splits option.splits)

lemma pstep_less:
  "pstep firstLine addHeader setBody s bs = Some (Inr (s', bs')) \<Longrightarrow> pweight s' bs' < pweight s bs"
proof (cases "parseState s = PARSE_BODY")
  case True
  then show "pstep firstLine addHeader setBody s bs = Some (Inr (s', bs')) \<Longrightarrow> ?thesis"
    by (auto simp: pstep_def body_step_less split: if_splits)
next
  case False
  assume step: "pstep firstLine addHeader setBody s bs = Some (Inr (s', bs'))"
  then obtain line where "a_line bs = Some (line, bs')" and "\<not> (p_error s \<or> p_finish s)"
    using False by (auto simp: pstep_def split: if_splits option.splits sum.splits elim!: map_res.elims)
  then show ?thesis using a_line_length [of bs line bs'] by (simp add: pweight_def)
qed

function run where
  "run firstLine addHeader setBody s bs =
     (case pstep firstLine addHeader setBody s bs of
        None \<Rightarrow> Inr (s, bs)
      | Some (Inl e) \<Rightarrow> Inl e
      | Some (Inr (s', bs')) \<Rightarrow> run firstLine addHeader setBody s' bs')"
  by pat_completeness auto
termination
  by (relation "measure (\<lambda>(firstLine, addHeader, setBody, s, bs). pweight s bs)") (auto simp: pstep_less)

declare run.simps [simp del]

section \<open>More input never changes what was parsed\<close>

lemma search_crlf_append: "search_crlf bs = Some e \<Longrightarrow> search_crlf (bs @ xs) = Some e"
proof (induction bs arbitrary: e rule: search_crlf.induct)
  case (1 x y zs)
  then show ?case by (cases "[x, y] = kCRLF") auto
qed simp_all

lemma a_line_append: "a_line bs = Some (line, rest) \<Longrightarrow> a_line (bs @ xs) = Some (line, rest @ xs)"
  by (auto simp: a_line_def search_crlf_append dest: search_crlf_bound split: option.splits)

lemma body_step_append:
  "body_step setBody s bs = Some (s', bs') \<Longrightarrow> body_step setBody s (bs @ xs) = Some (s', bs' @ xs)"
  by (auto simp: body_step_def Let_def a_line_append split: if_splits option.splits)

lemma pstep_append:
  "pstep f a g s bs = Some (Inr (s', bs')) \<Longrightarrow> pstep f a g s (bs @ xs) = Some (Inr (s', bs' @ xs))"
  "pstep f a g s bs = Some (Inl e) \<Longrightarrow> pstep f a g s (bs @ xs) = Some (Inl e)"
  by (auto simp: pstep_def body_step_append a_line_append split: if_splits option.splits
      elim!: map_res.elims)

lemma run_append:
  "run f a g s (bs @ xs) =
     (case run f a g s bs of Inl e \<Rightarrow> Inl e | Inr (s', bs') \<Rightarrow> run f a g s' (bs' @ xs))"
proof (induction f a g s bs rule: run.induct)
  case (1 f a g s bs)
  show ?case
  proof (cases "pstep f a g s bs")
    case None
    then show ?thesis by (simp add: run.simps [of f a g s bs])
  next
    case (Some r)
    show ?thesis
    proof (cases r)
      case (Inl e)
      with Some pstep_append(2) [of f a g s bs e xs] show ?thesis
        by (simp add: run.simps [of f a g s bs] run.simps [of f a g s "bs @ xs"])
    next
      case (Inr x)
      obtain s' bs' where x: "x = (s', bs')" by (cases x)
      with Some Inr pstep_append(1) [of f a g s bs s' bs' xs] 1 show ?thesis
        by (simp add: run.simps [of f a g s bs] run.simps [of f a g s "bs @ xs"])
    qed
  qed
qed

lemma run_stuck: "run f a g s bs = Inr (s', bs') \<Longrightarrow> pstep f a g s' bs' = None"
proof (induction f a g s bs rule: run.induct)
  case (1 f a g s bs)
  from "1.prems" "1.IH" show ?case
    by (subst (asm) run.simps) (auto split: option.splits sum.splits prod.splits)
qed

lemma run_length: "run f a g s bs = Inr (s', bs') \<Longrightarrow> length bs' \<le> length bs"
proof (induction f a g s bs rule: run.induct)
  case (1 f a g s bs)
  have len: "length c \<le> length bs" if "pstep f a g s bs = Some (Inr (t, c))" for t c
    using that by (auto simp: pstep_def body_step_def Let_def split: if_splits option.splits
        dest!: a_line_length elim!: map_res.elims)
  from "1.prems" "1.IH" len show ?case
    by (subst (asm) run.simps) (fastforce split: option.splits sum.splits prod.splits)
qed

lemma run_stopped: "p_error s \<or> p_finish s \<Longrightarrow> run f a g s bs = Inr (s, bs)"
  by (simp add: run.simps pstep_def)

section \<open>The loops of the code implement the machine\<close>

text \<open>Outside an error, a chunk size is pending exactly in the state that waits for the chunk.\<close>

definition st_inv :: "'m parse_st \<Rightarrow> bool" where
  "st_inv s \<longleftrightarrow> p_error s \<or> (chunkSize s = 0 \<longleftrightarrow> chunkState s = PARSE_CHUNK_SIZE)"

text \<open>A concrete result agrees with a result of the machine; \<open>n\<close> is the capacity, which parsing keeps.\<close>

fun sim :: "nat \<Rightarrow> 'm http_parser res \<Rightarrow> ('m parse_st \<times> byte list) res \<Rightarrow> bool" where
  "sim n (Inl e) r \<longleftrightarrow> r = Inl e"
| "sim n (Inr p) r \<longleftrightarrow> r = Inr (st p, ba_content (ba p)) \<and> ba_inv (ba p) \<and> length (buf (ba p)) = n"

lemma next_line_spec:
  assumes "ba_inv b"
  shows "a_line (ba_content b) = None \<Longrightarrow> next_line b = Inr None"
    and "a_line (ba_content b) = Some (line, rest) \<Longrightarrow>
      \<exists>b'. next_line b = Inr (Some (line, b')) \<and> ba_inv b' \<and> ba_content b' = rest \<and> length (buf b') = length (buf b)"
proof -
  have f: "findCRLF b = Inr (search_crlf (ba_content b))"
    using assms by (auto simp: findCRLF_def ba_content_def ba_inv_def ba_wf_def)
  then show "a_line (ba_content b) = None \<Longrightarrow> next_line b = Inr None"
    by (auto simp: next_line_def a_line_def split: option.splits)
  assume "a_line (ba_content b) = Some (line, rest)"
  then obtain e where e: "search_crlf (ba_content b) = Some e" "line = take e (ba_content b)"
      "rest = drop (e + 2) (ba_content b)"
    by (auto simp: a_line_def split: option.splits)
  from search_crlf_bound [OF e(1)] have le: "e + 2 \<le> length (ba_content b)" .
  then have "e \<le> length (ba_content b)" by simp
  note a2 = ba_advance [OF assms le] and a0 = ba_advance [OF assms this]
  have "readPos b + (e + 2) < size_mod" using a2(3) size_add_less by metis
  then have "size_add (size_add (readPos b) e) 2 = readPos b + (e + 2)"
    by (simp add: size_simps)
  then have "next_line b = Inr (Some (line, b\<lparr>readPos := readPos b + (e + 2)\<rparr>))"
    using f e a0(4) by (simp add: next_line_def setReadPos_def)
  then show "\<exists>b'. next_line b = Inr (Some (line, b')) \<and> ba_inv b' \<and> ba_content b' = rest \<and> length (buf b') = length (buf b)"
    using a2(1,2) e(3) by auto
qed

lemma header_field_frame:
  "header_field a k v s = Inr s' \<Longrightarrow> chunkSize s' = chunkSize s \<and> chunkState s' = chunkState s \<and>
     p_finish s' = p_finish s \<and> readSize s' = readSize s"
  by (auto simp: header_field_def Let_def rbind_Inr_iff split: if_split_asm)

lemma parseHeader_frame:
  "parseHeader a line s = Inr s' \<Longrightarrow> chunkSize s' = chunkSize s \<and> chunkState s' = chunkState s \<and>
     p_finish s' = p_finish s \<and> readSize s' = readSize s"
  by (auto simp: parseHeader_def Let_def split: if_split_asm dest: header_field_frame)

lemma stoi_error: "stoi x = Inl e \<Longrightarrow> e = Invalid_argument \<or> e = Out_of_range"
  by (auto simp: stoi_def Let_def split: if_splits)

lemma header_field_error: "header_field a k v s = Inl e \<Longrightarrow> e = Invalid_argument \<or> e = Out_of_range"
  by (auto simp: header_field_def Let_def rbind_Inl_iff split: if_split_asm dest: stoi_error)

lemma parseHeader_error:
  "parseHeader a line s = Inl e \<Longrightarrow> e \<in> {Length_error, Invalid_argument, Out_of_range}"
  by (auto simp: parseHeader_def Let_def split: if_split_asm dest: header_field_error)

text \<open>One round of \<open>parseChunkedBody\<close>: it stops where the machine is stuck and follows its step otherwise.\<close>

definition chunk_ready :: "'m parse_st \<Rightarrow> bool" where
  "chunk_ready s \<longleftrightarrow> st_inv s \<and> parseState s = PARSE_BODY \<and> chunked s \<and> \<not> p_finish s"

definition chunk_round :: "(string \<Rightarrow> 'm \<Rightarrow> 'm) \<Rightarrow> 'm parse_st \<Rightarrow> bytearray \<Rightarrow> bool" where
  "chunk_round g s b \<longleftrightarrow>
     (case body_step g s (ba_content b) of
        None \<Rightarrow> parseChunkedBody g \<lparr>ba = b, st = s\<rparr> = Some (Inr \<lparr>ba = b, st = s\<rparr>)
      | Some (s', bs') \<Rightarrow> \<exists>b'. ba_content b' = bs' \<and> ba_inv b' \<and> length (buf b') = length (buf b) \<and>
          (if p_error s' \<or> p_finish s'
           then parseChunkedBody g \<lparr>ba = b, st = s\<rparr> = Some (Inr \<lparr>ba = b', st = s'\<rparr>)
           else chunk_ready s' \<and>
                parseChunkedBody g \<lparr>ba = b, st = s\<rparr> = parseChunkedBody g \<lparr>ba = b', st = s'\<rparr>))"

lemma chunk_round_size:
  assumes "ba_inv b" "chunk_ready s" "\<not> p_error s" "chunkSize s = 0"
  shows "chunk_round g s b"
proof (cases "a_line (ba_content b)")
  case None
  with assms next_line_spec(1) [OF assms(1)] show ?thesis
    by (simp add: chunk_round_def chunk_ready_def body_step_def parseChunkedBody.simps [of g "\<lparr>ba = b, st = s\<rparr>"])
next
  case (Some x)
  then obtain hex b' where x: "a_line (ba_content b) = Some (hex, ba_content b')"
      "next_line b = Inr (Some (hex, b'))" "ba_inv b'" "length (buf b') = length (buf b)"
    using next_line_spec(2) [OF assms(1), of "fst x" "snd x"] by (cases x) auto
  define n where "n = size_of_int (HexToDec hex)"
  consider "n = size_of_int (-1)" | "n \<noteq> size_of_int (-1)" "n = 0" | "n \<noteq> size_of_int (-1)" "n \<noteq> 0" by blast
  then show ?thesis
    using assms x
    by cases (auto simp: chunk_round_def chunk_ready_def st_inv_def body_step_def Let_def
        parseChunkedBody.simps [of g "\<lparr>ba = b, st = s\<rparr>"] simp flip: n_def intro!: exI [of _ b'])
qed

lemma chunk_round_content:
  assumes "ba_inv b" "chunk_ready s" "\<not> p_error s" "chunkSize s \<noteq> 0"
  shows "chunk_round g s b"
proof -
  define n where "n = size_add (chunkSize s) 2"
  have cs: "chunkState s = PARSE_CHUNK_CONTENT"
    using assms by (cases "chunkState s") (auto simp: st_inv_def chunk_ready_def)
  have len: "getReadSize b = length (ba_content b)" using assms(1) by (simp add: ba_wf_sizes(3))
  note unf = parseChunkedBody.simps [of g "\<lparr>ba = b, st = s\<rparr>"]
  show ?thesis
  proof (cases "n \<le> length (ba_content b)")
    case True
    with assms cs len ba_advance [OF assms(1) True] show ?thesis
      by (auto simp: chunk_round_def chunk_ready_def st_inv_def body_step_def Let_def setReadPos_def unf
          simp flip: n_def intro!: exI [of _ "b\<lparr>readPos := readPos b + n\<rparr>"])
  next
    case False
    with assms cs len show ?thesis
      by (simp add: chunk_round_def chunk_ready_def body_step_def Let_def unf flip: n_def)
  qed
qed

lemma chunk_loop_run:
  assumes "ba_inv b" "chunk_ready s"
  shows "\<exists>r. parseChunkedBody g \<lparr>ba = b, st = s\<rparr> = Some r \<and> sim (length (buf b)) r (run f a g s (ba_content b))"
  using assms
proof (induction "pweight s (ba_content b)" arbitrary: s b rule: less_induct)
  case less
  show ?case
  proof (cases "p_error s")
    case True
    then show ?thesis
      using less.prems by (simp add: parseChunkedBody.simps [of g "\<lparr>ba = b, st = s\<rparr>"] run_stopped)
  next
    case False
    have ps: "pstep f a g s (ba_content b) = map_option Inr (body_step g s (ba_content b))"
      using False less.prems(2) by (simp add: pstep_def chunk_ready_def)
    have round: "chunk_round g s b"
      using chunk_round_size chunk_round_content less.prems False by blast
    show ?thesis
    proof (cases "body_step g s (ba_content b)")
      case None
      with round ps less.prems(1) show ?thesis by (simp add: chunk_round_def run.simps [of f a g s])
    next
      case (Some x)
      obtain s' bs' where x: "x = (s', bs')" by (cases x)
      from round Some x obtain b' where b': "ba_content b' = bs'" "ba_inv b'" "length (buf b') = length (buf b)"
          "if p_error s' \<or> p_finish s'
           then parseChunkedBody g \<lparr>ba = b, st = s\<rparr> = Some (Inr \<lparr>ba = b', st = s'\<rparr>)
           else chunk_ready s' \<and> parseChunkedBody g \<lparr>ba = b, st = s\<rparr> = parseChunkedBody g \<lparr>ba = b', st = s'\<rparr>"
        by (auto simp: chunk_round_def)
      have r: "run f a g s (ba_content b) = run f a g s' (ba_content b')"
        using ps Some x b'(1) by (simp add: run.simps [of f a g s])
      have "pweight s' (ba_content b') < pweight s (ba_content b)"
        using pstep_less [of f a g s] ps Some x b'(1) by simp
      from less.hyps [OF this b'(2)] b' r show ?thesis
        by (cases "p_error s' \<or> p_finish s'") (auto simp: run_stopped)
    qed
  qed
qed

lemma fixed_body_run:
  assumes "ba_inv b" "parseState s = PARSE_BODY" "\<not> chunked s" "\<not> p_finish s" "\<not> p_error s"
  shows "sim (length (buf b))
      (parseFixedBody g \<lparr>ba = b, st = if contentLen s = 0 then s\<lparr>p_finish := True\<rparr> else s\<rparr>)
      (run f a g s (ba_content b))"
proof -
  have len: "getReadSize b = length (ba_content b)" using assms(1) by (simp add: ba_wf_sizes(3))
  have r: "run f a g s (ba_content b) = (case body_step g s (ba_content b) of None \<Rightarrow> Inr (s, ba_content b)
      | Some (s', bs') \<Rightarrow> run f a g s' bs')"
    using assms by (simp add: run.simps [of f a g s] pstep_def split: option.split)
  show ?thesis
  proof (cases "contentLen s \<noteq> 0 \<and> contentLen s \<le> length (ba_content b)")
    case True
    note adv = ba_advance [OF assms(1) conjunct2 [OF True]]
    from True adv assms show ?thesis
      by (simp add: r body_step_def parseFixedBody_def len run_stopped setReadPos_def)
  next
    case False
    with assms show ?thesis
      by (auto simp: r body_step_def parseFixedBody_def len run_stopped)
  qed
qed

text \<open>
  What the caller of a parser learns: the exception, or the return value and the final state. A
  message that is not complete is a failure when the stream ends (\<open>closed\<close>) and otherwise the
  parser is still waiting.
\<close>

definition parse_outcome :: "bool \<Rightarrow> ('m parse_st \<times> byte list) res \<Rightarrow> (bool \<times> 'm parse_st) res option" where
  "parse_outcome closed r =
     (case r of
        Inl e \<Rightarrow> Some (Inl e)
      | Inr (s, _) \<Rightarrow>
          if p_finish s \<or> p_error s then Some (Inr (\<not> p_error s, s))
          else if closed then Some (Inr (False, s)) else None)"

definition returned ::
    "(bool \<times> 'm http_parser \<times> recv_event list) res option \<Rightarrow> (bool \<times> 'm parse_st) res option" where
  "returned = map_option (map_res (\<lambda>(ok, p, _). (ok, st p)))"

text \<open>The reads of one message: pieces of data of at most \<open>n\<close> bytes, then nothing, an end of stream or an error.\<close>

definition pieces_ok :: "nat \<Rightarrow> byte list list \<Rightarrow> bool" where
  "pieces_ok n segs = list_all (\<lambda>bs. bs \<noteq> [] \<and> recv_fits n (Recv_bytes bs)) segs"

definition stream_end :: "recv_event list \<Rightarrow> bool" where
  "stream_end evs \<longleftrightarrow> evs = [] \<or> hd evs = Recv_bytes [] \<or> hd evs = Recv_error"

definition parse_room :: "nat \<Rightarrow> nat \<Rightarrow> bytearray \<Rightarrow> bool" where
  "parse_room n tot b \<longleftrightarrow> max (length (buf b)) (length (ba_content b) + tot + 2 * n + 8) + n + 8 < 2147483648"

lemma parse_room_ba_room: "parse_room n tot b \<Longrightarrow> ba_room n b"
  by (simp add: parse_room_def ba_room_def ba_consts)

lemma parse_outer_end:
  assumes "stream_end evs" "ba_inv b" "ba_room n b" "n \<noteq> readSize s"
  shows "returned (parse_outer f a g n True evs \<lparr>ba = b, st = s\<rparr>) = parse_outcome (evs \<noteq> []) (Inr (s, bs))"
proof -
  from addCapacity_spec [OF assms(2,3)] obtain c where c: "addCapacity (int n) b = Inr c"
      "writePos c + n \<le> length (buf c)" by blast
  have "n < 2147483648" using assms(3) by (simp add: ba_room_def)
  then have "ss_read_ba True Recv_error n b = Inr (-1, c)"
      "ss_read_ba True (Recv_bytes []) n b = Inr (0, c)"
    using c by (simp_all add: ss_read_ba_def getWriteArea_def size_simps mem_write_def)
  with assms(1,4) show ?thesis
    by (cases evs) (auto simp: parse_outer.simps [of f a g] stream_end_def returned_def parse_outcome_def)
qed

locale message_parser =
  fixes firstLine :: "string \<Rightarrow> 'm parse_st \<Rightarrow> 'm parse_st res"
    and addHeader :: "string \<Rightarrow> string \<Rightarrow> 'm \<Rightarrow> 'm"
    and setBody :: "string \<Rightarrow> 'm \<Rightarrow> 'm"
  assumes firstLine_frame: "firstLine line s = Inr s' \<Longrightarrow>
      chunkSize s' = chunkSize s \<and> chunkState s' = chunkState s \<and> p_finish s' = p_finish s \<and> readSize s' = readSize s"
    and firstLine_error: "firstLine line s = Inl e \<Longrightarrow> e = Invalid_argument \<or> e = Out_of_range"
begin

lemma line_frame:
  assumes "(if c then firstLine line s else parseHeader addHeader line s) = Inr s'"
  shows "chunkSize s' = chunkSize s \<and> chunkState s' = chunkState s \<and> p_finish s' = p_finish s \<and> readSize s' = readSize s"
  using assms by (auto simp: firstLine_frame dest!: parseHeader_frame split: if_splits)

lemma inner_run:
  assumes "ba_inv b" "st_inv s" "\<not> p_finish s"
  shows "\<exists>r. parse_inner firstLine addHeader setBody \<lparr>ba = b, st = s\<rparr> = Some r \<and>
    sim (length (buf b)) r (run firstLine addHeader setBody s (ba_content b))"
  using assms
proof (induction "pweight s (ba_content b)" arbitrary: s b rule: less_induct)
  case less
  let ?run = "run firstLine addHeader setBody" and ?inner = "parse_inner firstLine addHeader setBody"
  note unf = parse_inner.simps [of _ _ _ "\<lparr>ba = b, st = s\<rparr>"]
  consider (err) "p_error s" | (body) "\<not> p_error s" "parseState s = PARSE_BODY"
    | (line) "\<not> p_error s" "parseState s \<noteq> PARSE_BODY" by blast
  then show ?case
  proof cases
    case err
    with less.prems show ?thesis by (simp add: unf run_stopped)
  next
    case body
    with chunk_loop_run [of b s setBody firstLine addHeader] less.prems
      fixed_body_run [of b s setBody firstLine addHeader] show ?thesis
      by (cases "chunked s") (auto simp: unf chunk_ready_def Let_def)
  next
    case line
    define handle where "handle = (\<lambda>l. if parseState s = PARSE_FIRST_LINE then firstLine l s else parseHeader addHeader l s)"
    have ps: "pstep firstLine addHeader setBody s bs = (case a_line bs of None \<Rightarrow> None
        | Some (l, bs') \<Rightarrow> Some (map_res (\<lambda>s. (s, bs')) (handle l)))" for bs
      using line less.prems(3) by (simp add: pstep_def handle_def split: option.split)
    have inner: "?inner \<lparr>ba = b, st = s\<rparr> = (case next_line b of Inl e \<Rightarrow> Some (Inl e) | Inr None \<Rightarrow> Some (Inr \<lparr>ba = b, st = s\<rparr>)
        | Inr (Some (l, b')) \<Rightarrow> (case handle l of Inl e \<Rightarrow> Some (Inl e) | Inr s' \<Rightarrow> ?inner \<lparr>ba = b', st = s'\<rparr>))"
      using line by (cases "parseState s") (simp_all add: unf handle_def Let_def split: sum.split option.split)
    show ?thesis
    proof (cases "a_line (ba_content b)")
      case None
      with next_line_spec(1) [OF less.prems(1)] inner ps less.prems(1) show ?thesis
        by (simp add: run.simps [of _ _ _ s])
    next
      case (Some x)
      then obtain l b' where x: "a_line (ba_content b) = Some (l, ba_content b')"
          "next_line b = Inr (Some (l, b'))" "ba_inv b'" "length (buf b') = length (buf b)"
        using next_line_spec(2) [OF less.prems(1), of "fst x" "snd x"] by (cases x) auto
      show ?thesis
      proof (cases "handle l")
        case (Inl e)
        with x inner ps show ?thesis by (simp add: run.simps [of _ _ _ s])
      next
        case (Inr s')
        have step: "pstep firstLine addHeader setBody s (ba_content b) = Some (Inr (s', ba_content b'))"
          using x(1) ps Inr by simp
        have "st_inv s'" "\<not> p_finish s'"
          using line_frame [of _ l s s'] Inr line less.prems by (auto simp: handle_def st_inv_def)
        from less.hyps [OF pstep_less [OF step] x(3) this] x inner Inr step show ?thesis
          by (simp add: run.simps [of _ _ _ s])
      qed
    qed
  qed
qed

lemma pstep_inv:
  assumes "pstep firstLine addHeader setBody s bs = Some (Inr (t, c))" "st_inv s"
  shows "st_inv t \<and> readSize t = readSize s"
proof (cases "parseState s = PARSE_BODY")
  case True
  with assms show ?thesis
    by (auto simp: pstep_def body_step_def st_inv_def Let_def split: if_splits option.splits)
next
  case False
  with assms(1) obtain line where
    "(if parseState s = PARSE_FIRST_LINE then firstLine line s else parseHeader addHeader line s) = Inr t" "\<not> p_error s"
    by (auto simp: pstep_def split: if_splits option.splits elim!: map_res.elims)
  with assms(2) line_frame [of _ line s t] show ?thesis by (auto simp: st_inv_def)
qed

lemma run_inv:
  "run firstLine addHeader setBody s bs = Inr (s', bs') \<Longrightarrow> st_inv s \<Longrightarrow> st_inv s' \<and> readSize s' = readSize s"
proof (induction "pweight s bs" arbitrary: s bs rule: less_induct)
  case less
  show ?case
  proof (cases "pstep firstLine addHeader setBody s bs")
    case (Some r)
    with less.prems(1) obtain t c where "r = Inr (t, c)" "run firstLine addHeader setBody t c = Inr (s', bs')"
      by (subst (asm) run.simps) (auto split: sum.splits prod.splits)
    with Some less.hyps [OF pstep_less] pstep_inv less.prems(2) show ?thesis by metis
  qed (use less.prems in \<open>simp add: run.simps [of _ _ _ s]\<close>)
qed

lemma outer_read:
  assumes "ba_inv b" "st_inv s" "\<not> p_finish s" "\<not> p_error s" "readSize s \<noteq> n" "bs \<noteq> []" "length bs \<le> n"
    and "parse_room n (length bs + m) b"
  shows "\<exists>b'. (case run firstLine addHeader setBody s (ba_content b @ bs) of
      Inl e \<Rightarrow> parse_outer firstLine addHeader setBody n True (Recv_bytes bs # evs) \<lparr>ba = b, st = s\<rparr> = Some (Inl e)
    | Inr (s', bs') \<Rightarrow> ba_inv b' \<and> ba_content b' = bs' \<and> parse_room n m b' \<and>
        parse_outer firstLine addHeader setBody n True (Recv_bytes bs # evs) \<lparr>ba = b, st = s\<rparr> =
        parse_outer firstLine addHeader setBody n True evs \<lparr>ba = b', st = s'\<rparr>)"
proof -
  from ss_read_ba_spec [OF assms(1) parse_room_ba_room [OF assms(8)] assms(7)] obtain c where c:
    "ss_read_ba True (Recv_bytes bs) n b = Inr (int (length bs), c)" "ba_inv c" "ba_content c = ba_content b @ bs"
    "length (buf c) \<le> max (length (buf b)) (length (ba_content b) + 2 * n + 8)" by blast
  from inner_run [OF c(2) assms(2,3)] obtain r where r:
    "parse_inner firstLine addHeader setBody \<lparr>ba = c, st = s\<rparr> = Some r"
    "sim (length (buf c)) r (run firstLine addHeader setBody s (ba_content b @ bs))" by (auto simp: c(3))
  have eq: "parse_outer firstLine addHeader setBody n True (Recv_bytes bs # evs) \<lparr>ba = b, st = s\<rparr> =
      (case r of Inl e \<Rightarrow> Some (Inl e) | Inr p \<Rightarrow> parse_outer firstLine addHeader setBody n True evs p)"
    using assms c(1) r(1) by (simp add: parse_outer.simps [of firstLine addHeader setBody n True "Recv_bytes bs # evs"])
  show ?thesis
  proof (cases r)
    case (Inr p)
    have "length (ba_content (ba p)) \<le> length (ba_content b) + length bs"
      using run_length [of firstLine addHeader setBody s "ba_content b @ bs"] r(2) Inr by simp
    then have "parse_room n m (ba p)"
      using assms(8) c(4) r(2) Inr by (auto simp: parse_room_def)
    with eq r(2) Inr show ?thesis by (cases p) (auto intro!: exI [of _ "ba p"])
  qed (use eq r(2) in simp)
qed

lemma outer_run:
  assumes "ba_inv b" "st_inv s" "readSize s \<noteq> n" "pieces_ok n segs" "stream_end evs"
    and "parse_room n (length (concat segs)) b" and "pstep firstLine addHeader setBody s (ba_content b) = None"
  shows "returned (parse_outer firstLine addHeader setBody n True (map Recv_bytes segs @ evs) \<lparr>ba = b, st = s\<rparr>) =
    parse_outcome (evs \<noteq> []) (run firstLine addHeader setBody s (ba_content b @ concat segs))"
  using assms
proof (induction segs arbitrary: b s)
  case Nil
  then show ?case
    using parse_outer_end [of evs b n s firstLine addHeader setBody] parse_room_ba_room
    by (simp add: run.simps [of _ _ _ s])
next
  case (Cons bs segs)
  let ?run = "run firstLine addHeader setBody" and ?outer = "parse_outer firstLine addHeader setBody n True"
  show ?case
  proof (cases "p_finish s \<or> p_error s")
    case True
    then show ?thesis
      by (auto simp: run_stopped parse_outcome_def returned_def parse_outer.simps [of _ _ _ _ _ "_ # _"])
  next
    case False
    have bs: "bs \<noteq> []" "length bs \<le> n" "pieces_ok n segs"
      using Cons.prems(4) by (simp_all add: pieces_ok_def recv_fits_def)
    have split: "?run s (ba_content b @ concat (bs # segs)) = (case ?run s (ba_content b @ bs) of
        Inl e \<Rightarrow> Inl e | Inr (s', bs') \<Rightarrow> ?run s' (bs' @ concat segs))"
      using run_append [of _ _ _ s "ba_content b @ bs" "concat segs"] by simp
    have room: "parse_room n (length bs + length (concat segs)) b" using Cons.prems(6) by simp
    have nf: "\<not> p_finish s" "\<not> p_error s" using False by auto
    note rd = outer_read [OF Cons.prems(1,2) nf Cons.prems(3) bs(1,2) room, of "map Recv_bytes segs @ evs"]
    show ?thesis
    proof (cases "?run s (ba_content b @ bs)")
      case (Inl e)
      with rd split show ?thesis by (simp add: parse_outcome_def returned_def)
    next
      case (Inr x)
      obtain s' bs' where x: "x = (s', bs')" by (cases x)
      from rd Inr x obtain b' where b': "ba_inv b'" "ba_content b' = bs'" "parse_room n (length (concat segs)) b'"
          "?outer (Recv_bytes bs # map Recv_bytes segs @ evs) \<lparr>ba = b, st = s\<rparr> = ?outer (map Recv_bytes segs @ evs) \<lparr>ba = b', st = s'\<rparr>"
        by auto
      have "st_inv s'" "readSize s' \<noteq> n" "pstep firstLine addHeader setBody s' (ba_content b') = None"
        using run_inv [OF Inr [unfolded x] Cons.prems(2)] run_stuck [OF Inr [unfolded x]] Cons.prems(3) b'(2) by auto
      from Cons.IH [OF b'(1) this(1,2) bs(3) Cons.prems(5) b'(3) this(3)] b'(2,4) split Inr x show ?thesis by simp
    qed
  qed
qed

text \<open>A message that ends exactly with the last piece: the parser uses all pieces and nothing behind them.\<close>

lemma outer_exact:
  assumes "ba_inv b" "st_inv s" "readSize s \<noteq> n" "pieces_ok n segs" "parse_room n (length (concat segs)) b"
    and "pstep firstLine addHeader setBody s (ba_content b) = None"
    and "run firstLine addHeader setBody s (ba_content b @ concat segs) = Inr (s', [])" "p_finish s' \<or> p_error s'"
  shows "\<exists>b'. parse_outer firstLine addHeader setBody n True (map Recv_bytes segs @ evs) \<lparr>ba = b, st = s\<rparr> =
    Some (Inr (\<not> p_error s', \<lparr>ba = b', st = s'\<rparr>, evs))"
  using assms
proof (induction segs arbitrary: b s)
  case Nil
  then show ?case by (auto simp: run.simps [of _ _ _ s] parse_outer.simps [of _ _ _ _ _ evs])
next
  case (Cons bs segs)
  let ?run = "run firstLine addHeader setBody" and ?outer = "parse_outer firstLine addHeader setBody n True"
  have bs: "bs \<noteq> []" "length bs \<le> n" "pieces_ok n segs"
    using Cons.prems(4) by (simp_all add: pieces_ok_def recv_fits_def)
  have nf: "\<not> p_finish s" "\<not> p_error s"
    using Cons.prems(7) bs(1) run_stopped [of s firstLine addHeader setBody "ba_content b @ concat (bs # segs)"] by auto
  have room: "parse_room n (length bs + length (concat segs)) b" using Cons.prems(5) by simp
  note rd = outer_read [OF Cons.prems(1,2) nf Cons.prems(3) bs(1,2) room, of "map Recv_bytes segs @ evs"]
  from Cons.prems(7) run_append [of firstLine addHeader setBody s "ba_content b @ bs" "concat segs"]
  obtain t c where t: "?run s (ba_content b @ bs) = Inr (t, c)" "?run t (c @ concat segs) = Inr (s', [])"
    by (auto split: sum.splits)
  from rd t(1) obtain b' where b': "ba_inv b'" "ba_content b' = c" "parse_room n (length (concat segs)) b'"
      "?outer (Recv_bytes bs # map Recv_bytes segs @ evs) \<lparr>ba = b, st = s\<rparr> = ?outer (map Recv_bytes segs @ evs) \<lparr>ba = b', st = t\<rparr>"
    by auto
  have "st_inv t" "readSize t \<noteq> n" "pstep firstLine addHeader setBody t (ba_content b') = None"
    using run_inv [OF t(1) Cons.prems(2)] run_stuck [OF t(1)] Cons.prems(3) b'(2) by auto
  from Cons.IH [OF b'(1) this(1,2) bs(3) b'(3) this(3)] t(2) b'(2,4) Cons.prems(8) show ?case by simp
qed

lemma fresh_parser:
  "ba_inv (ByteArray kInitSize)" "ba_content (ByteArray kInitSize) = []" "st_inv (new_parse_st m)"
  "readSize (new_parse_st m) = 0" "pstep firstLine addHeader setBody (new_parse_st m) [] = None"
  by (simp_all add: ByteArray_inv ba_consts new_parse_st_def st_inv_def pstep_def a_line_def)

lemma fresh_room: "k + 3 * n + 1048 < 2147483648 \<Longrightarrow> parse_room n k (ByteArray kInitSize)"
  using fresh_parser(2) by (simp add: parse_room_def ByteArray_def ba_consts size_simps)

lemma parse_exact:
  assumes "pieces_ok n segs" "0 < n" "length (concat segs) + 3 * n + 1048 < 2147483648"
    and "run firstLine addHeader setBody (new_parse_st m) (concat segs) = Inr (s', [])" "p_finish s' \<or> p_error s'"
  shows "\<exists>b'. parse_outer firstLine addHeader setBody n True (map Recv_bytes segs @ evs) (new_http_parser m) =
    Some (Inr (\<not> p_error s', \<lparr>ba = b', st = s'\<rparr>, evs))"
  using outer_exact [OF fresh_parser(1,3) _ assms(1) fresh_room [OF assms(3)], of m s' evs] assms(2,4,5)
  by (simp add: new_http_parser_def fresh_parser(2,4,5))

text \<open>A fresh parser returns what the machine computes from all bytes received, however they were cut.\<close>

lemma parse_pieces:
  assumes "pieces_ok n segs" "stream_end evs" "0 < n" "length (concat segs) + 3 * n + 1048 < 2147483648"
  shows "returned (parse_outer firstLine addHeader setBody n True (map Recv_bytes segs @ evs) (new_http_parser m)) =
    parse_outcome (evs \<noteq> []) (run firstLine addHeader setBody (new_parse_st m) (concat segs))"
  using outer_run [OF fresh_parser(1,3) _ assms(1,2) fresh_room [OF assms(4)], of m] assms(3)
  by (simp add: new_http_parser_def fresh_parser(2,4,5))

text \<open>A read that brings the end of a message and more: the parser stops and the surplus stays in its buffer.\<close>

lemma parse_surplus:
  assumes "bs \<noteq> []" "length bs \<le> n" "length bs + 3 * n + 1048 < 2147483648"
    and "run firstLine addHeader setBody (new_parse_st m) bs = Inr (s', rest)" "p_finish s' \<or> p_error s'"
  shows "\<exists>b'. parse_outer firstLine addHeader setBody n True (Recv_bytes bs # evs) (new_http_parser m) =
    Some (Inr (\<not> p_error s', \<lparr>ba = b', st = s'\<rparr>, evs)) \<and> ba_content b' = rest"
proof -
  have "\<not> p_finish (new_parse_st m)" "\<not> p_error (new_parse_st m)" "readSize (new_parse_st m) \<noteq> n"
    using assms(1,2) by (cases bs; auto simp: new_parse_st_def)+
  from outer_read [OF fresh_parser(1,3) this assms(1,2), of 0 evs] fresh_room [of "length bs" n] assms(3,4,5)
  show ?thesis
    by (auto simp: new_http_parser_def fresh_parser(2) parse_outer.simps [of _ _ _ _ _ evs])
qed

end

end
