(* ===== verification/Http_Parsing.thy ===== *)
theory Http_Parsing
  imports Http_Machine
begin

text \<open>
  The properties of the request and the response parser: they compute a function of the bytes
  received, raise only the exceptions of the standard library calls they make, and read back what
  \<open>HttpRequest::dump\<close> and \<open>HttpResponse::dump\<close> write.
\<close>

abbreviation rq_run where "rq_run \<equiv> run rq_parseFirstLine rq_addHeader rq_setBody"
abbreviation rs_run where "rs_run \<equiv> run rs_parseFirstLine rs_addHeader rs_setBody"

lemma rq_parseFirstLine_frame:
  "rq_parseFirstLine line s = Inr s' \<Longrightarrow> chunkSize s' = chunkSize s \<and> chunkState s' = chunkState s \<and>
     p_finish s' = p_finish s \<and> readSize s' = readSize s"
  unfolding rq_parseFirstLine_def Let_def
  by (simp split: if_split_asm prod.split_asm; clarify; simp)

lemma rq_parseFirstLine_total: "rq_parseFirstLine line s \<noteq> Inl e"
  unfolding rq_parseFirstLine_def Let_def by (simp split: prod.split)

interpretation rqp: message_parser rq_parseFirstLine rq_addHeader rq_setBody
  by unfold_locales (use rq_parseFirstLine_frame rq_parseFirstLine_total in blast)+

interpretation rsp: message_parser rs_parseFirstLine rs_addHeader rs_setBody
  by unfold_locales (auto simp: rs_parseFirstLine_def Let_def rbind_Inr_iff rbind_Inl_iff
      split: if_split_asm dest: stoi_error)

text \<open>
  C1. The result of \<open>parseRequest\<close> is a function of the bytes received before the stream pauses or
  ends, however \<open>recv\<close> cut them into pieces: the exception, or return value and parser state, that
  the byte-level machine computes from their concatenation. In particular no cut makes the parser
  loop, abort or touch memory outside its buffer.
\<close>

theorem request_parse_pieces:
  assumes "pieces_ok s_maxReqBufferSize segs" "stream_end evs" "length (concat segs) < 2147470312"
  shows "returned (parseRequest True (map Recv_bytes segs @ evs) (new_http_parser req)) =
    parse_outcome (evs \<noteq> []) (rq_run (new_parse_st req) (concat segs))"
  unfolding parseRequest_def using assms
  by (intro rqp.parse_pieces) (simp_all add: s_maxReqBufferSize_def)

theorem request_parse_pieces_witness:
  "pieces_ok s_maxReqBufferSize [''GE'', ''T''] \<and> stream_end [Recv_error] \<and>
   returned (parseRequest True (map Recv_bytes [''GE'', ''T''] @ [Recv_error]) (new_http_parser (new_HttpRequest 17 False))) =
     Some (Inr (False, new_parse_st (new_HttpRequest 17 False)))"
proof -
  have "pieces_ok s_maxReqBufferSize [''GE'', ''T'']" "stream_end [Recv_error]"
    by (simp_all add: pieces_ok_def recv_fits_def stream_end_def s_maxReqBufferSize_def)
  moreover have "rq_run (new_parse_st m) ''GET'' = Inr (new_parse_st m, ''GET'')" for m
    by (simp add: run.simps pstep_def a_line_def kCRLF_def new_parse_st_def)
  ultimately show ?thesis
    using request_parse_pieces [of "[''GE'', ''T'']" "[Recv_error]" "new_HttpRequest 17 False"]
    by (simp add: parse_outcome_def new_parse_st_def)
qed

text \<open>
  C11. The same for \<open>parseResponse\<close>, whose reads are of up to 64 MiB.
\<close>

theorem response_parse_pieces:
  assumes "pieces_ok s_maxResBufferSize segs" "stream_end evs" "length (concat segs) < 1946156000"
  shows "returned (parseResponse True (map Recv_bytes segs @ evs) (new_http_parser rsp)) =
    parse_outcome (evs \<noteq> []) (rs_run (new_parse_st rsp) (concat segs))"
  unfolding parseResponse_def using assms
  by (intro rsp.parse_pieces) (simp_all add: s_maxResBufferSize_def)

theorem response_parse_pieces_witness:
  "pieces_ok s_maxResBufferSize [''HTTP''] \<and> stream_end [] \<and>
   returned (parseResponse True (map Recv_bytes [''HTTP''] @ []) (new_http_parser (new_HttpResponse 17 False))) = None"
proof -
  have "pieces_ok s_maxResBufferSize [''HTTP'']" "stream_end []"
    by (simp_all add: pieces_ok_def recv_fits_def stream_end_def s_maxResBufferSize_def)
  moreover have "rs_run (new_parse_st m) ''HTTP'' = Inr (new_parse_st m, ''HTTP'')" for m
    by (simp add: run.simps pstep_def a_line_def kCRLF_def new_parse_st_def)
  ultimately show ?thesis
    using response_parse_pieces [of "[''HTTP'']" "[]" "new_HttpResponse 17 False"]
    by (simp add: parse_outcome_def new_parse_st_def)
qed

section \<open>Exceptions\<close>

context message_parser
begin

lemma run_error:
  "run firstLine addHeader setBody s bs = Inl e \<Longrightarrow> e \<in> {Length_error, Invalid_argument, Out_of_range}"
proof (induction "pweight s bs" arbitrary: s bs rule: less_induct)
  case less
  show ?case
  proof (cases "pstep firstLine addHeader setBody s bs")
    case (Some r)
    show ?thesis
    proof (cases r)
      case (Inl e')
      with Some less.prems have "pstep firstLine addHeader setBody s bs = Some (Inl e)"
        by (simp add: run.simps [of _ _ _ s])
      then show ?thesis
        by (auto simp: pstep_def split: if_splits option.splits elim!: map_res.elims
            dest: firstLine_error parseHeader_error)
    next
      case (Inr x)
      with Some less.prems less.hyps [OF pstep_less] show ?thesis
        by (cases x) (simp add: run.simps [of _ _ _ s])
    qed
  qed (use less.prems in \<open>simp add: run.simps [of _ _ _ s]\<close>)
qed

end

text \<open>
  Whatever a client sends, and in whatever pieces, a parser that does not return normally has
  raised one of three exceptions, all from standard library calls on the client's text:
  \<open>std::length_error\<close> (a header line that ends in its colon), \<open>std::invalid_argument\<close> or
  \<open>std::out_of_range\<close> (a \<open>Content-Length\<close> that is no \<open>int\<close>). No assertion of the buffer fails and no
  access leaves it. All three are reachable.
\<close>

theorem request_exceptions:
  assumes "pieces_ok s_maxReqBufferSize segs" "stream_end evs" "length (concat segs) < 2147470312" "\<not> chunked s"
  shows "returned (parseRequest True (map Recv_bytes segs @ evs) (new_http_parser req)) \<notin>
      {Some (Inl Assert_fail), Some (Inl Memory_fault)} \<and>
    header_field rq_addHeader ''Content-Length'' ''x'' s = Inl Invalid_argument \<and>
    header_field rq_addHeader ''Content-Length'' ''99999999999'' s = Inl Out_of_range \<and>
    parseHeader rq_addHeader ''Host:'' s = Inl Length_error"
proof -
  have "returned (parseRequest True (map Recv_bytes segs @ evs) (new_http_parser req)) =
      parse_outcome (evs \<noteq> []) (rq_run (new_parse_st req) (concat segs))"
    unfolding parseRequest_def using rqp.parse_pieces [OF assms(1,2)] assms(3) by (simp add: s_maxReqBufferSize_def)
  moreover have "parse_outcome c (rq_run (new_parse_st req) bs) \<notin> {Some (Inl Assert_fail), Some (Inl Memory_fault)}" for c bs
    using rqp.run_error [of "new_parse_st req" bs]
    by (cases "rq_run (new_parse_st req) bs") (auto simp: parse_outcome_def split: if_split_asm)
  moreover have "strcasecmp ''Content-Length'' ''content-length'' = 0" "strcasecmp ''Content-Length'' ''transfer-encoding'' \<noteq> 0"
    by code_simp+
  moreover have "stoi ''x'' = Inl Invalid_argument" "stoi ''99999999999'' = Inl Out_of_range"
    by (simp_all add: stoi_def c_str_def is_space_c_def is_digit_c_def ord_of_def)
  ultimately show ?thesis
    using assms(4) by (simp add: header_field_def parseHeader_def kCRLF_def)
qed

theorem request_exceptions_witness:
  "\<not> chunked (new_parse_st (new_HttpRequest 17 False)) \<and>
   returned (parseRequest True (map Recv_bytes [''GE'', ''T''] @ []) (new_http_parser (new_HttpRequest 17 False))) \<noteq>
     Some (Inl Memory_fault)"
  using request_exceptions [of "[''GE'', ''T'']" "[]" "new_parse_st (new_HttpRequest 17 False)"]
  by (simp add: new_parse_st_def pieces_ok_def recv_fits_def stream_end_def s_maxReqBufferSize_def)

section \<open>Parsing line by line\<close>

lemma search_crlf_line:
  "CHR 0x0D \<notin> set line \<Longrightarrow> search_crlf (line @ kCRLF @ rest) = Some (length line)"
proof (induction line)
  case (Cons x line)
  then obtain y zs where "line @ kCRLF @ rest = y # zs" by (cases line) (auto simp: kCRLF_def)
  with Cons show ?case by (auto simp: kCRLF_def)
qed (simp add: kCRLF_def)

lemma a_line_line: "CHR 0x0D \<notin> set line \<Longrightarrow> a_line (line @ kCRLF @ rest) = Some (line, rest)"
  by (simp add: a_line_def search_crlf_line) (simp add: kCRLF_def)

lemma run_line:
  assumes "CHR 0x0D \<notin> set line" "\<not> p_error s" "\<not> p_finish s" "parseState s \<noteq> PARSE_BODY"
  shows "run f a g s (line @ kCRLF @ rest) =
    (case if parseState s = PARSE_FIRST_LINE then f line s else parseHeader a line s of
       Inl e \<Rightarrow> Inl e | Inr s' \<Rightarrow> run f a g s' rest)"
  using assms by (simp add: run.simps [of f a g s] pstep_def a_line_line split: sum.split)

lemma parseHeader_blank: "parseHeader a [] s = Inr (s\<lparr>parseState := PARSE_BODY\<rparr>)"
  by (simp add: parseHeader_def kCRLF_def)

lemma run_blank:
  assumes "\<not> p_error s" "\<not> p_finish s" "parseState s = PARSE_HEADER"
  shows "run f a g s (kCRLF @ rest) = run f a g (s\<lparr>parseState := PARSE_BODY\<rparr>) rest"
  using run_line [of "[]" s f a g rest] assms by (simp add: parseHeader_blank)

text \<open>A header line as \<open>dump\<close> writes it.\<close>

definition field_ok :: "string \<Rightarrow> string \<Rightarrow> bool" where
  "field_ok k v \<longleftrightarrow> k \<noteq> [] \<and> CHR '':'' \<notin> set k \<and> CHR 0x0D \<notin> set k \<and> v \<noteq> [] \<and> CHR 0x0D \<notin> set v"

lemma hd_line_CR: "k \<noteq> [] \<Longrightarrow> CHR 0x0D \<notin> set k \<Longrightarrow> hd ((k @ r) @ kCRLF) \<noteq> CHR 0x0D"
  by (cases k) auto

lemma parseHeader_field:
  assumes "field_ok k v"
  shows "parseHeader a (k @ '': '' @ v) s = header_field a k v s"
proof -
  have "find_ch CHR '':'' (k @ '': '' @ v) = length k"
    using assms by (simp add: field_ok_def find_ch_append)
  then show ?thesis
    using assms hd_line_CR [of k "'': '' @ v"] by (simp add: parseHeader_def field_ok_def)
qed

definition plain_field :: "string \<Rightarrow> string \<Rightarrow> bool" where
  "plain_field k v \<longleftrightarrow> field_ok k v \<and> strcasecmp k ''transfer-encoding'' \<noteq> 0 \<and> strcasecmp k ''content-length'' \<noteq> 0"

lemma run_field:
  assumes "\<not> p_error s" "\<not> p_finish s" "parseState s = PARSE_HEADER" "plain_field k v"
  shows "run f a g s (k @ '': '' @ v @ kCRLF @ rest) = run f a g (s\<lparr>msg := a k v (msg s)\<rparr>) rest"
proof -
  have "CHR 0x0D \<notin> set (k @ '': '' @ v)" using assms(4) by (simp add: plain_field_def field_ok_def)
  from run_line [OF this assms(1,2), of f a g rest] assms show ?thesis
    using parseHeader_field [of k v a s] by (simp add: plain_field_def header_field_def)
qed

definition sent_fields :: "str_map \<Rightarrow> str_map" where
  "sent_fields m = filter (\<lambda>(k, v). strcasecmp k ''connection'' \<noteq> 0) m"

lemma run_dump_headers:
  assumes "\<not> p_error s" "\<not> p_finish s" "parseState s = PARSE_HEADER" "list_all (\<lambda>(k, v). plain_field k v) m"
  shows "run f a g s (dump_headers m @ rest) =
    run f a g (s\<lparr>msg := fold (\<lambda>(k, v). a k v) (sent_fields m) (msg s)\<rparr>) rest"
  using assms
proof (induction m arbitrary: s)
  case (Cons kv m)
  obtain k v where kv: "kv = (k, v)" by (cases kv)
  show ?case
  proof (cases "strcasecmp k ''connection'' = 0")
    case True
    with Cons kv show ?thesis by (simp add: sent_fields_def)
  next
    case False
    with Cons.prems kv run_field [of s k v f a g "dump_headers m @ rest"]
      Cons.IH [of "s\<lparr>msg := a k v (msg s)\<rparr>"] show ?thesis
      by (simp add: sent_fields_def)
  qed
qed (simp add: sent_fields_def)

text \<open>The end of a dumped message: a blank line, or the length of the body, a blank line and the body.\<close>

lemma run_content_length:
  assumes "\<not> p_error s" "\<not> p_finish s" "parseState s = PARSE_HEADER" "\<not> chunked s"
    and "strcasecmp k ''content-length'' = 0" "k \<noteq> []" "CHR '':'' \<notin> set k" "CHR 0x0D \<notin> set k" "n < 2147483648"
  shows "run f a g s (k @ '': '' @ dec n @ kCRLF @ rest) =
    run f a g (s\<lparr>contentLen := n, msg := a k (dec n) (msg s)\<rparr>) rest"
proof -
  have "CHR 0x0D \<notin> set (dec n)" using dec_digits [of n] is_digit_neq by blast
  with assms have ok: "field_ok k (dec n)" "CHR 0x0D \<notin> set (k @ '': '' @ dec n)" by (simp_all add: field_ok_def)
  have "fold_case k = fold_case ''content-length''" using assms(5) by (simp add: strcasecmp_def)
  then have "strcasecmp k ''transfer-encoding'' = strcasecmp ''content-length'' ''transfer-encoding''"
    by (simp add: strcasecmp_def)
  also have "\<dots> \<noteq> 0" by code_simp
  finally have "parseHeader a (k @ '': '' @ dec n) s = Inr (s\<lparr>contentLen := n, msg := a k (dec n) (msg s)\<rparr>)"
    using parseHeader_field [OF ok(1), of a s] assms by (simp add: header_field_def stoi_dec size_simps)
  with run_line [OF ok(2) assms(1,2), of f a g rest] assms(3) show ?thesis by simp
qed

lemma run_fixed_body:
  assumes "\<not> p_error s" "\<not> p_finish s" "parseState s = PARSE_BODY" "\<not> chunked s" "contentLen s = length body"
  shows "run f a g s (body @ rest) =
    Inr (s\<lparr>msg := (if body = [] then msg s else g body (msg s)), p_finish := True\<rparr>, rest)"
  using assms by (auto simp: run.simps [of f a g s] pstep_def body_step_def run_stopped)

text \<open>Everything behind the first line of a dumped message.\<close>

definition dump_tail :: "string \<Rightarrow> string \<Rightarrow> string \<Rightarrow> str_map \<Rightarrow> string \<Rightarrow> string" where
  "dump_tail ck cv lk m body = ck @ '': '' @ cv @ kCRLF @ dump_headers m @
     (if body = [] then kCRLF else lk @ '': '' @ dec (length body) @ kCRLF @ kCRLF @ body)"

definition tail_msg where
  "tail_msg a g ck cv lk m body x =
     (let h = fold (\<lambda>(k, v). a k v) (sent_fields m) (a ck cv x)
      in if body = [] then h else g body (a lk (dec (length body)) h))"

lemma run_dump_tail:
  assumes s: "\<not> p_error s" "\<not> p_finish s" "parseState s = PARSE_HEADER" "\<not> chunked s" "contentLen s = 0"
    and "plain_field ck cv" "list_all (\<lambda>(k, v). plain_field k v) m"
    and "strcasecmp lk ''content-length'' = 0" "field_ok lk x" "length body < 2147483648"
  shows "run f a g s (dump_tail ck cv lk m body) =
    Inr (s\<lparr>parseState := PARSE_BODY, contentLen := length body,
           msg := tail_msg a g ck cv lk m body (msg s), p_finish := True\<rparr>, [])"
proof -
  let ?s = "s\<lparr>msg := fold (\<lambda>(k, v). a k v) (sent_fields m) (a ck cv (msg s))\<rparr>"
  have h: "run f a g s (dump_tail ck cv lk m body) =
      run f a g ?s (if body = [] then kCRLF else lk @ '': '' @ dec (length body) @ kCRLF @ kCRLF @ body)"
    using assms run_field [of s ck cv f a g] run_dump_headers [of "s\<lparr>msg := a ck cv (msg s)\<rparr>" m f a g]
    by (simp add: dump_tail_def)
  show ?thesis
  proof (cases "body = []")
    case True
    have "run f a g ?s kCRLF = run f a g (?s\<lparr>parseState := PARSE_BODY\<rparr>) []"
      using run_blank [of ?s f a g "[]"] s by simp
    with h True s run_fixed_body [of "?s\<lparr>parseState := PARSE_BODY\<rparr>" "[]" f a g "[]"] show ?thesis
      by (simp add: tail_msg_def Let_def)
  next
    case False
    let ?t = "?s\<lparr>contentLen := length body, msg := a lk (dec (length body)) (msg ?s)\<rparr>"
    have "run f a g ?s (lk @ '': '' @ dec (length body) @ kCRLF @ kCRLF @ body) = run f a g ?t (kCRLF @ body)"
      using assms by (intro run_content_length) (simp_all add: field_ok_def)
    also have "\<dots> = run f a g (?t\<lparr>parseState := PARSE_BODY\<rparr>) (body @ [])"
      using s run_blank [of ?t f a g body] by simp
    finally show ?thesis
      using h False s run_fixed_body [of "?t\<lparr>parseState := PARSE_BODY\<rparr>" body f a g "[]"]
      by (simp add: tail_msg_def Let_def)
  qed
qed

section \<open>Requests are read back as they were dumped\<close>

definition uri_chars :: "char list \<Rightarrow> string \<Rightarrow> bool" where
  "uri_chars no s = list_all (\<lambda>c. c \<notin> set no \<and> c \<noteq> CHR '' '' \<and> c \<noteq> CHR 0x0D) s"

definition request_ok :: "HttpRequest \<Rightarrow> bool" where
  "request_ok r \<longleftrightarrow>
     (rq_version r = 16 \<or> rq_version r = 17) \<and>
     rq_path r \<noteq> [] \<and> hd (rq_path r) = CHR ''/'' \<and> uri_chars ''?#'' (rq_path r) \<and>
     uri_chars ''#'' (rq_query r) \<and> uri_chars [] (rq_fragment r) \<and>
     strmap_inv (rq_headers r) \<and> list_all (\<lambda>(k, v). plain_field k v) (rq_headers r) \<and>
     length (rq_body r) < 2147483648"

lemma uri_chars_no: "uri_chars no s \<Longrightarrow> c \<in> set no \<or> c = CHR '' '' \<or> c = CHR 0x0D \<Longrightarrow> c \<notin> set s"
  by (auto simp: uri_chars_def list_all_iff)

lemma request_chars:
  "request_ok r \<Longrightarrow> c = CHR '' '' \<or> c = CHR 0x0D \<Longrightarrow> c \<notin> set (rq_path r) \<and> c \<notin> set (rq_query r) \<and> c \<notin> set (rq_fragment r)"
  unfolding request_ok_def by (metis uri_chars_no)

lemma parseURI_hit:
  "c \<notin> set u \<Longrightarrow> parseURI (u @ c # v) c req =
    (u, if c = CHR ''#'' then req\<lparr>rq_fragment := v\<rparr> else if c = CHR ''?'' then req\<lparr>rq_query := v\<rparr>
        else if c = CHR ''/'' then req\<lparr>rq_path := c # v\<rparr> else req)"
  by (simp add: parseURI_def find_ch_append_hit)

lemma parseURI_miss: "c \<notin> set u \<Longrightarrow> parseURI u c req = (u, req)"
  using find_ch_absent [of c u] by (simp add: parseURI_def)

lemma method_string_chars: "CHR '' '' \<notin> set (HttpMethodToString m) \<and> CHR 0x0D \<notin> set (HttpMethodToString m)"
  by (cases m) (simp_all add: HttpMethodToString_def s_method_string_def method_num_def)

lemma method_of_string: "StringToHttpMethod (HttpMethodToString m) = m"
  by (cases m) (simp_all add: StringToHttpMethod_def HttpMethodToString_def s_method_string_def
      method_num_def strcmp_def c_str_def)

lemma dec_1: "dec 0 = ''0''" "dec 1 = ''1''"
  by code_simp+

lemma parse_target:
  assumes "hd p = CHR ''/''" "p \<noteq> []" "uri_chars ''?#'' p" "uri_chars ''#'' q" "rq_query req = []" "rq_fragment req = []"
  shows "(let (uri, req) = parseURI (p @ (if q = [] then [] else ''?'') @ q @ (if fr = [] then [] else ''#'') @ fr) CHR ''#'' req;
              (uri, req) = parseURI uri CHR ''?'' req;
              (uri, req) = parseURI uri CHR ''/'' req in req) =
         req\<lparr>rq_path := p, rq_query := q, rq_fragment := fr\<rparr>"
proof -
  have np: "CHR ''?'' \<notin> set p" "CHR ''#'' \<notin> set p" and nq: "CHR ''#'' \<notin> set q"
    using assms(3,4) by (auto simp: uri_chars_def list_all_iff)
  let ?pq = "p @ (if q = [] then [] else ''?'') @ q"
  have 1: "parseURI (p @ (if q = [] then [] else ''?'') @ q @ (if fr = [] then [] else ''#'') @ fr) CHR ''#'' req
      = (?pq, req\<lparr>rq_fragment := fr\<rparr>)"
    using parseURI_hit [of "CHR ''#''" ?pq fr req] parseURI_miss [of "CHR ''#''" ?pq req] np nq assms(6)
    by (cases "q = []"; cases "fr = []") simp_all
  have 2: "parseURI ?pq CHR ''?'' (req\<lparr>rq_fragment := fr\<rparr>) = (p, req\<lparr>rq_fragment := fr, rq_query := q\<rparr>)"
    using parseURI_hit [of "CHR ''?''" p q] parseURI_miss [of "CHR ''?''" p] np assms(5) by simp
  have 3: "parseURI p CHR ''/'' x = ([], x\<lparr>rq_path := p\<rparr>)" for x
    using parseURI_hit [of "CHR ''/''" "[]" "tl p" x] assms(1,2) by (cases p) auto
  show ?thesis by (simp only: 1 2 3 Let_def prod.case) simp
qed

lemma parse_first_line:
  assumes "request_ok r" "rq_query (msg s) = []" "rq_fragment (msg s) = []"
  shows "rq_parseFirstLine (rq_first_line r) s =
    Inr (s\<lparr>msg := (msg s)\<lparr>rq_method := rq_method r, rq_version := rq_version r, rq_path := rq_path r,
                         rq_query := rq_query r, rq_fragment := rq_fragment r\<rparr>, parseState := PARSE_HEADER\<rparr>)"
proof -
  define tg where "tg = rq_path r @ (if rq_query r = [] then [] else ''?'') @ rq_query r @
      (if rq_fragment r = [] then [] else ''#'') @ rq_fragment r"
  define ver where "ver = (if rq_version r = 16 then ''HTTP/1.0'' else ''HTTP/1.1'')"
  have line: "rq_first_line r = HttpMethodToString (rq_method r) @ CHR '' '' # tg @ CHR '' '' # ver"
    using assms(1) dec_1 by (auto simp: rq_first_line_def tg_def ver_def request_ok_def)
  have sp: "CHR '' '' \<notin> set tg"
    using request_chars [OF assms(1), of "CHR '' ''"] by (simp add: tg_def)
  have sl: "find_ch CHR ''/'' tg = 0" "tg \<noteq> []"
    using assms(1) by (cases "rq_path r"; simp add: tg_def request_ok_def)+
  have v: "(ver \<noteq> ''HTTP/1.0'' \<and> ver \<noteq> ''HTTP/1.1'') = False" "(if ver = ''HTTP/1.0'' then 16 else 17) = rq_version r"
    using assms(1) by (auto simp: ver_def request_ok_def)
  let ?req = "(msg s)\<lparr>rq_method := rq_method r, rq_version := rq_version r\<rparr>"
  have tgt: "(let (uri, req) = parseURI tg CHR ''#'' ?req; (uri, req) = parseURI uri CHR ''?'' req;
        (uri, req) = parseURI uri CHR ''/'' req in req) =
      ?req\<lparr>rq_path := rq_path r, rq_query := rq_query r, rq_fragment := rq_fragment r\<rparr>"
    unfolding tg_def using assms by (intro parse_target) (auto simp: request_ok_def)
  have m: "find_ch CHR '' '' (rq_first_line r) = length (HttpMethodToString (rq_method r))"
      "find_ch CHR '' '' (tg @ CHR '' '' # ver) = length tg"
    using method_string_chars [of "rq_method r"] sp by (simp_all add: line find_ch_append_hit)
  have "rq_parseFirstLine (rq_first_line r) s =
      Inr (s\<lparr>msg := (let (uri, req) = parseURI tg CHR ''#'' ?req; (uri, req) = parseURI uri CHR ''?'' req;
        (uri, req) = parseURI uri CHR ''/'' req in req), parseState := PARSE_HEADER\<rparr>)"
    unfolding rq_parseFirstLine_def Let_def m
    using v(2) sl by (simp add: line m v(1) method_of_string split: prod.split)
  then show ?thesis by (simp only: tgt)
qed

text \<open>The headers a receiver finds: what was sent last under a key, the framing headers included.\<close>

lemma strmap_distinct: "strmap_inv m \<Longrightarrow> distinct (map (\<lambda>e. fold_case (fst e)) m)"
proof (induction m)
  case (Cons e m)
  then have "\<forall>e' \<in> set m. fold_case (fst e) \<noteq> fold_case (fst e')"
    by (auto simp: strmap_inv_def ci_less_irrefl dest: ci_less_fold)
  with Cons show ?case by (force simp: strmap_inv_def)
qed simp

lemma find_sent_fields:
  assumes "strmap_inv m" "strmap_inv h"
  shows "strmap_find k (fold (\<lambda>(k, v). strmap_assign k v) (sent_fields m) h) =
    (case (if strcasecmp k ''connection'' = 0 then None else strmap_find k m) of
       None \<Rightarrow> strmap_find k h | Some v \<Rightarrow> Some v)"
proof -
  let ?f = "\<lambda>(k, v). (fold_case k, v)"
  have "distinct (map fst (map ?f m))"
    using strmap_distinct [OF assms(1)] by (simp add: case_prod_beta comp_def)
  then have "distinct (map fst (map ?f (sent_fields m)))"
    by (simp add: sent_fields_def distinct_map_filter comp_def case_prod_beta)
  then have "map_of (rev (map ?f (sent_fields m))) = map_of (map ?f (sent_fields m))"
    by (rule map_of_rev_distinct)
  moreover have "map_of (map ?f (sent_fields m)) (fold_case k) =
      (if strcasecmp k ''connection'' = 0 then None else map_of (map ?f m) (fold_case k))"
    by (induction m) (auto simp: sent_fields_def strcasecmp_def)
  ultimately show ?thesis
    using hdr.find_assign_all [OF assms(2), of k "sent_fields m"] strmap_find_abs [OF assms(1)]
    by (simp add: strmap_abs_def)
qed

lemma fold_rq_addHeader:
  "fold (\<lambda>(k, v). rq_addHeader k v) m r =
    r\<lparr>rq_headers := fold (\<lambda>(k, v). strmap_assign k v) m (rq_headers r)\<rparr>"
  by (induction m arbitrary: r) (auto simp: rq_addHeader_def)

lemma rq_tail_msg:
  "rq_method (tail_msg rq_addHeader rq_setBody ck cv lk m body x) = rq_method x" "rq_version (tail_msg rq_addHeader rq_setBody ck cv lk m body x) = rq_version x" "rq_path (tail_msg rq_addHeader rq_setBody ck cv lk m body x) = rq_path x" "rq_query (tail_msg rq_addHeader rq_setBody ck cv lk m body x) = rq_query x"
    "rq_fragment (tail_msg rq_addHeader rq_setBody ck cv lk m body x) = rq_fragment x" "rq_body (tail_msg rq_addHeader rq_setBody ck cv lk m body x) = (if body = [] then rq_body x else body)"
    "rq_headers (tail_msg rq_addHeader rq_setBody ck cv lk m body x) = (let h = fold (\<lambda>(k, v). strmap_assign k v) (sent_fields m) (strmap_assign ck cv (rq_headers x))
       in if body = [] then h else strmap_assign lk (dec (length body)) h)"
  by (simp_all add: tail_msg_def Let_def fold_rq_addHeader rq_setBody_def) (simp_all add: rq_addHeader_def)

lemma find_tail_headers:
  assumes "strmap_inv m" "fold_case ck = fold_case ''connection''" "fold_case lk = fold_case ''content-length''"
  shows "strmap_find k (let h = fold (\<lambda>(k, v). strmap_assign k v) (sent_fields m) (strmap_assign ck cv [])
       in if body = [] then h else strmap_assign lk lv h) =
    (if strcasecmp k ''connection'' = 0 then Some cv
     else if body \<noteq> [] \<and> strcasecmp k ''content-length'' = 0 then Some lv
     else strmap_find k m)"
proof -
  have "strcasecmp ''connection'' ''content-length'' \<noteq> 0" by code_simp
  then have ne: "fold_case ''connection'' \<noteq> fold_case ''content-length''" by (simp add: strcasecmp_def)
  have inv: "strmap_inv (strmap_assign ck cv [])" by (intro hdr.inv_assign hdr.inv_empty)
  note hdr.inv_assign_all [OF inv, of "sent_fields m"]
  then show ?thesis
    using find_sent_fields [OF assms(1) inv, of k] hdr.find_assign [OF hdr.inv_empty, of k ck cv] assms(2,3) ne
    by (auto simp: Let_def hdr.find_assign strcasecmp_def split: option.split)
qed

lemma connection_fields:
  "plain_field ''connection'' ''keep-alive''" "plain_field ''connection'' ''close''"
  "plain_field ''Connection'' ''Keep-Alive''" "plain_field ''Connection'' ''Close''"
  "strcasecmp ''content-length'' ''content-length'' = 0" "strcasecmp ''Content-Length'' ''content-length'' = 0"
  "fold_case ''Connection'' = fold_case ''connection''" "fold_case ''Content-Length'' = fold_case ''content-length''"
  by code_simp+

text \<open>The request a receiver builds from the dump of \<open>r\<close>.\<close>

definition received :: "HttpRequest \<Rightarrow> HttpRequest" where
  "received r = tail_msg rq_addHeader rq_setBody ''connection'' (if rq_keepAlive r then ''keep-alive'' else ''close'')
     ''content-length'' (rq_headers r) (rq_body r)
     ((new_HttpRequest 17 False)\<lparr>rq_method := rq_method r, rq_version := rq_version r, rq_path := rq_path r,
        rq_query := rq_query r, rq_fragment := rq_fragment r\<rparr>)"

lemma received_fields:
  "rq_method (received r) = rq_method r" "rq_version (received r) = rq_version r" "rq_path (received r) = rq_path r"
  "rq_query (received r) = rq_query r" "rq_fragment (received r) = rq_fragment r" "rq_body (received r) = rq_body r"
  by (simp_all add: received_def rq_tail_msg new_HttpRequest_def)

lemma received_headers:
  assumes "strmap_inv (rq_headers r)"
  shows "strmap_find k (rq_headers (received r)) =
    (if strcasecmp k ''connection'' = 0 then Some (if rq_keepAlive r then ''keep-alive'' else ''close'')
     else if rq_body r \<noteq> [] \<and> strcasecmp k ''content-length'' = 0 then Some (dec (length (rq_body r)))
     else strmap_find k (rq_headers r))"
proof -
  have "rq_headers ((new_HttpRequest 17 False)\<lparr>rq_method := a, rq_version := b, rq_path := c, rq_query := d, rq_fragment := e\<rparr>) = []"
    for a b c d e by (simp add: new_HttpRequest_def)
  then show ?thesis
    unfolding received_def rq_tail_msg(7) using find_tail_headers [OF assms refl refl] by (simp only:)
qed

lemma request_run:
  assumes "request_ok r"
  shows "rq_run (new_parse_st (new_HttpRequest 17 False)) (rq_dump r) =
    Inr ((new_parse_st (new_HttpRequest 17 False))\<lparr>parseState := PARSE_BODY, contentLen := length (rq_body r),
      p_finish := True, msg := received r\<rparr>, [])"
proof -
  let ?s = "new_parse_st (new_HttpRequest 17 False)" and ?cv = "if rq_keepAlive r then ''keep-alive'' else ''close''"
  let ?tail = "dump_tail ''connection'' ?cv ''content-length'' (rq_headers r) (rq_body r)"
  let ?s' = "?s\<lparr>msg := (new_HttpRequest 17 False)\<lparr>rq_method := rq_method r, rq_version := rq_version r, rq_path := rq_path r,
           rq_query := rq_query r, rq_fragment := rq_fragment r\<rparr>, parseState := PARSE_HEADER\<rparr>"
  have d: "rq_dump r = rq_first_line r @ kCRLF @ ?tail" by (simp add: rq_dump_def dump_tail_def)
  have "CHR 0x0D \<notin> set (rq_first_line r)"
    using request_chars [OF assms, of "CHR 0x0D"] method_string_chars [of "rq_method r"] is_digit_neq dec_digits
    by (auto simp: rq_first_line_def)
  from run_line [OF this, of ?s rq_parseFirstLine rq_addHeader rq_setBody ?tail]
  have "rq_run ?s (rq_dump r) = rq_run ?s' ?tail"
    using parse_first_line [OF assms, of ?s] unfolding d by (simp add: new_parse_st_def new_HttpRequest_def)
  also have "\<dots> = Inr (?s'\<lparr>parseState := PARSE_BODY, contentLen := length (rq_body r),
      msg := tail_msg rq_addHeader rq_setBody ''connection'' ?cv ''content-length'' (rq_headers r) (rq_body r) (msg ?s'),
      p_finish := True\<rparr>, [])"
    using assms by (intro run_dump_tail [where x = "''0''"])
      (simp_all add: new_parse_st_def connection_fields request_ok_def, simp add: field_ok_def)
  finally show ?thesis by (simp add: received_def)
qed


definition sample_request :: HttpRequest where
  "sample_request = rq_addHeader ''Host'' ''a'' ((new_HttpRequest 17 True)
     \<lparr>rq_method := POST, rq_path := ''/x'', rq_query := ''q=1'', rq_fragment := ''f'', rq_body := ''hi''\<rparr>)"

lemma sample_request_ok: "request_ok sample_request"
proof -
  have "plain_field ''Host'' ''a''" by code_simp
  then show ?thesis
    by (simp add: sample_request_def request_ok_def rq_addHeader_def new_HttpRequest_def uri_chars_def strmap_inv_def)
qed

lemma sample_request_length: "length (rq_dump sample_request) = 80"
  by code_simp


end
