(* ===== verification/Http_Parsing_More.thy ===== *)
theory Http_Parsing_More
  imports Http_Parsing
begin

text \<open>
  More properties of the parsers: responses, chunked bodies, the shapes of a header line, and the
  size limit that is compared with a counter nobody increments.
\<close>

section \<open>Responses\<close>

definition response_ok :: "HttpResponse \<Rightarrow> bool" where
  "response_ok r \<longleftrightarrow>
     (rs_version r = 16 \<or> rs_version r = 17) \<and> CHR 0x0D \<notin> set (rs_reason r) \<and>
     strmap_inv (rs_headers r) \<and> list_all (\<lambda>(k, v). plain_field k v) (rs_headers r) \<and>
     length (rs_body r) < 2147483648"

definition sent_reason :: "HttpResponse \<Rightarrow> string" where
  "sent_reason r = (if rs_reason r = [] then HttpStatusToString (rs_status r) else rs_reason r)"

lemma fold_rs_addHeader:
  "fold (\<lambda>(k, v). rs_addHeader k v) m r =
    r\<lparr>rs_headers := fold (\<lambda>(k, v). strmap_assign k v) m (rs_headers r)\<rparr>"
  by (induction m arbitrary: r) (auto simp: rs_addHeader_def)

text \<open>The response a receiver builds from the dump of \<open>r\<close>.\<close>

definition rs_received :: "HttpResponse \<Rightarrow> HttpResponse" where
  "rs_received r = tail_msg rs_addHeader rs_setBody ''Connection'' (if rs_keepAlive r then ''Keep-Alive'' else ''Close'')
     ''Content-Length'' (rs_headers r) (rs_body r)
     ((new_HttpResponse 17 False)\<lparr>rs_version := rs_version r, rs_status := rs_status r, rs_reason := CHR '' '' # sent_reason r\<rparr>)"

lemma rs_received_fields:
  "rs_status (rs_received r) = rs_status r" "rs_version (rs_received r) = rs_version r"
  "rs_reason (rs_received r) = CHR '' '' # sent_reason r" "rs_body (rs_received r) = rs_body r"
  "rs_headers (rs_received r) =
     (let h = fold (\<lambda>(k, v). strmap_assign k v) (sent_fields (rs_headers r))
              (strmap_assign ''Connection'' (if rs_keepAlive r then ''Keep-Alive'' else ''Close'') [])
      in if rs_body r = [] then h else strmap_assign ''Content-Length'' (dec (length (rs_body r))) h)"
  by (simp_all add: rs_received_def tail_msg_def Let_def fold_rs_addHeader rs_setBody_def new_HttpResponse_def)
    (simp_all add: rs_addHeader_def)

lemma status_string:
  "stoi (dec (status_code s)) = Inr (int (status_code s))" "CHR '' '' \<notin> set (dec (status_code s))"
  "CHR 0x0D \<notin> set (dec (status_code s))" "CHR 0x0D \<notin> set (HttpStatusToString s)"
proof -
  have "status_code s < 2147483648" by (cases s) (simp_all add: status_code_def)
  then show "stoi (dec (status_code s)) = Inr (int (status_code s))" by (rule stoi_dec)
  show "CHR '' '' \<notin> set (dec (status_code s))" "CHR 0x0D \<notin> set (dec (status_code s))"
    using dec_digits [of "status_code s"] is_digit_neq by blast+
  show "CHR 0x0D \<notin> set (HttpStatusToString s)" by (cases s) (simp_all add: HttpStatusToString_def)
qed

lemma rs_parse_first_line:
  assumes "response_ok r"
  shows "rs_parseFirstLine (rs_first_line r) s =
    Inr (s\<lparr>msg := (msg s)\<lparr>rs_version := rs_version r, rs_status := rs_status r, rs_reason := CHR '' '' # sent_reason r\<rparr>,
           parseState := PARSE_HEADER\<rparr>)"
proof -
  define ver where "ver = (if rs_version r = 16 then ''HTTP/1.0'' else ''HTTP/1.1'')"
  have line: "rs_first_line r = ver @ CHR '' '' # dec (status_code (rs_status r)) @ CHR '' '' # sent_reason r"
    using assms dec_1 by (auto simp: rs_first_line_def ver_def response_ok_def sent_reason_def)
  have v: "(ver \<noteq> ''HTTP/1.0'' \<and> ver \<noteq> ''HTTP/1.1'') = False" "(if ver = ''HTTP/1.0'' then 16 else 17) = rs_version r"
      "CHR '' '' \<notin> set ver"
    using assms by (auto simp: ver_def response_ok_def)
  have m: "find_ch CHR '' '' (rs_first_line r) = length ver"
      "find_ch CHR '' '' (dec (status_code (rs_status r)) @ CHR '' '' # sent_reason r) = length (dec (status_code (rs_status r)))"
    using v(3) status_string(2) by (simp_all add: line find_ch_append_hit)
  show ?thesis
    unfolding rs_parseFirstLine_def Let_def m
    using v(2) status_code_roundtrip [of "rs_status r"] by (simp add: line m v(1) status_string(1))
qed

lemma response_run:
  assumes "response_ok r"
  shows "rs_run (new_parse_st (new_HttpResponse 17 False)) (rs_dump r) =
    Inr ((new_parse_st (new_HttpResponse 17 False))\<lparr>parseState := PARSE_BODY, contentLen := length (rs_body r),
      p_finish := True, msg := rs_received r\<rparr>, [])"
proof -
  let ?s = "new_parse_st (new_HttpResponse 17 False)" and ?cv = "if rs_keepAlive r then ''Keep-Alive'' else ''Close''"
  let ?tail = "dump_tail ''Connection'' ?cv ''Content-Length'' (rs_headers r) (rs_body r)"
  let ?s' = "?s\<lparr>msg := (new_HttpResponse 17 False)\<lparr>rs_version := rs_version r, rs_status := rs_status r,
      rs_reason := CHR '' '' # sent_reason r\<rparr>, parseState := PARSE_HEADER\<rparr>"
  have d: "rs_dump r = rs_first_line r @ kCRLF @ ?tail" by (simp add: rs_dump_def dump_tail_def)
  have "CHR 0x0D \<notin> set (rs_first_line r)"
    using assms is_digit_neq dec_digits status_string(3,4) by (auto simp: rs_first_line_def response_ok_def)
  from run_line [OF this, of ?s rs_parseFirstLine rs_addHeader rs_setBody ?tail]
  have "rs_run ?s (rs_dump r) = rs_run ?s' ?tail"
    using rs_parse_first_line [OF assms, of ?s] unfolding d by (simp add: new_parse_st_def)
  also have "\<dots> = Inr (?s'\<lparr>parseState := PARSE_BODY, contentLen := length (rs_body r),
      msg := tail_msg rs_addHeader rs_setBody ''Connection'' ?cv ''Content-Length'' (rs_headers r) (rs_body r) (msg ?s'),
      p_finish := True\<rparr>, [])"
    using assms by (intro run_dump_tail [where x = "''0''"])
      (simp_all add: new_parse_st_def connection_fields response_ok_def, simp add: field_ok_def)
  finally show ?thesis by (simp add: rs_received_def)
qed


definition sample_response :: HttpResponse where
  "sample_response = (new_HttpResponse 17 True)\<lparr>rs_status := NOT_FOUND, rs_body := ''no''\<rparr>"


section \<open>Chunked bodies\<close>

definition chunk_ok :: "string \<times> byte list \<Rightarrow> bool" where
  "chunk_ok c \<longleftrightarrow> CHR 0x0D \<notin> set (fst c) \<and> HexToDec (fst c) = int (length (snd c)) \<and> snd c \<noteq> []"

definition chunk_wire :: "(string \<times> byte list) list \<Rightarrow> byte list" where
  "chunk_wire cs = concat (map (\<lambda>(hex, bytes). hex @ kCRLF @ bytes @ kCRLF) cs)"

lemma HexToDec_less: "HexToDec hex < 2147483648"
  using int_of_size_bounds(2) by (simp add: HexToDec_def split: option.split)

lemma size_of_int_len: "n < 2147483648 \<Longrightarrow> size_of_int (int n) = n \<and> size_of_int (int n) \<noteq> size_of_int (-1)"
  by (simp add: size_simps size_of_int_neg)

definition chunk_st :: "'m parse_st \<Rightarrow> bool" where
  "chunk_st s \<longleftrightarrow> \<not> p_error s \<and> \<not> p_finish s \<and> parseState s = PARSE_BODY \<and> chunked s \<and>
     chunkSize s = 0 \<and> chunkState s = PARSE_CHUNK_SIZE"

lemma run_chunk:
  assumes "chunk_st s" "chunk_ok (hex, bytes)"
  shows "run f a g s (hex @ kCRLF @ bytes @ kCRLF @ rest) = run f a g (s\<lparr>p_body := p_body s @ bytes @ kCRLF\<rparr>) rest"
proof -
  have hex: "CHR 0x0D \<notin> set hex" "HexToDec hex = int (length bytes)" "bytes \<noteq> []"
    using assms(2) by (simp_all add: chunk_ok_def)
  then have len: "length bytes < 2147483648" using HexToDec_less [of hex] by simp
  let ?s = "s\<lparr>chunkSize := length bytes, chunkState := PARSE_CHUNK_CONTENT\<rparr>"
  have "run f a g s (hex @ kCRLF @ bytes @ kCRLF @ rest) = run f a g ?s ((bytes @ kCRLF) @ rest)"
    using assms(1) hex size_of_int_len [OF len]
    by (simp add: run.simps [of f a g s] pstep_def body_step_def chunk_st_def a_line_line Let_def)
  also have "\<dots> = run f a g (s\<lparr>p_body := p_body s @ bytes @ kCRLF\<rparr>) rest"
  proof -
    have "size_add (length bytes) 2 = length (bytes @ kCRLF)" using len by (simp add: size_simps kCRLF_def)
    then have "pstep f a g ?s ((bytes @ kCRLF) @ rest) =
        Some (Inr (s\<lparr>p_body := p_body s @ bytes @ kCRLF, chunkSize := 0, chunkState := PARSE_CHUNK_SIZE\<rparr>, rest))"
      using assms(1) hex(3) by (simp add: pstep_def body_step_def chunk_st_def Let_def)
    moreover have "s\<lparr>p_body := p_body s @ bytes @ kCRLF, chunkSize := 0, chunkState := PARSE_CHUNK_SIZE\<rparr> =
        s\<lparr>p_body := p_body s @ bytes @ kCRLF\<rparr>"
      using assms(1) by (simp add: chunk_st_def)
    ultimately show ?thesis by (simp add: run.simps [of f a g ?s])
  qed
  finally show ?thesis .
qed

lemma run_chunks:
  assumes "chunk_st s" "list_all chunk_ok cs"
  shows "run f a g s (chunk_wire cs @ rest) =
    run f a g (s\<lparr>p_body := p_body s @ concat (map (\<lambda>(hex, bytes). bytes @ kCRLF) cs)\<rparr>) rest"
  using assms
proof (induction cs arbitrary: s)
  case (Cons c cs)
  obtain hex bytes where c: "c = (hex, bytes)" by (cases c)
  have "chunk_st (s\<lparr>p_body := p_body s @ bytes @ kCRLF\<rparr>)" using Cons.prems(1) by (simp add: chunk_st_def)
  with Cons c run_chunk [OF Cons.prems(1), of hex bytes f a g "chunk_wire cs @ rest"] show ?case
    by (simp add: chunk_wire_def)
qed (simp add: chunk_wire_def)

lemma run_last_chunk:
  assumes "chunk_st s" "CHR 0x0D \<notin> set hex" "HexToDec hex = 0"
  shows "run f a g s (hex @ kCRLF @ rest) = Inr (s\<lparr>msg := g (p_body s) (msg s), p_finish := True\<rparr>, rest)"
  using assms size_of_int_len [of 0]
  by (simp add: run.simps [of f a g s] pstep_def body_step_def chunk_st_def a_line_line Let_def run_stopped)

lemma request_chunked_run:
  assumes "request_ok r" "list_all chunk_ok cs" "CHR 0x0D \<notin> set hex" "HexToDec hex = 0"
  shows "\<exists>s. rq_run (new_parse_st (new_HttpRequest 17 False))
      (rq_first_line r @ kCRLF @ ''Transfer-Encoding: chunked'' @ kCRLF @ kCRLF @ chunk_wire cs @ hex @ kCRLF @ rest) =
      Inr (s, rest) \<and> p_finish s \<and> \<not> p_error s \<and>
    rq_body (msg s) = concat (map (\<lambda>(hex, bytes). bytes @ kCRLF) cs)"
proof -
  let ?s0 = "new_parse_st (new_HttpRequest 17 False)" and ?te = "''Transfer-Encoding'' @ '': '' @ ''chunked''"
  let ?body = "chunk_wire cs @ hex @ kCRLF @ rest"
  have "CHR 0x0D \<notin> set (rq_first_line r)"
    using request_chars [OF assms(1), of "CHR 0x0D"] method_string_chars [of "rq_method r"] is_digit_neq dec_digits
    by (auto simp: rq_first_line_def)
  from run_line [OF this, of ?s0 rq_parseFirstLine rq_addHeader rq_setBody] parse_first_line [OF assms(1), of ?s0]
  obtain s1 where s1: "rq_run ?s0 (rq_first_line r @ kCRLF @ x) = rq_run s1 x" "\<not> p_error s1" "\<not> p_finish s1"
      "parseState s1 = PARSE_HEADER" "chunkSize s1 = 0" "chunkState s1 = PARSE_CHUNK_SIZE" "p_body s1 = []" for x
    by (force simp: new_parse_st_def new_HttpRequest_def)
  have te: "field_ok ''Transfer-Encoding'' ''chunked''" "strcasecmp ''Transfer-Encoding'' ''transfer-encoding'' = 0"
      "strcasecmp ''chunked'' ''chunked'' = 0" "CHR 0x0D \<notin> set ?te"
    by code_simp+
  let ?m2 = "rq_addHeader ''Transfer-Encoding'' ''chunked'' (msg s1)" and ?s2 = "s1\<lparr>chunked := True\<rparr>"
  have "parseHeader rq_addHeader ?te s1 = Inr (?s2\<lparr>msg := ?m2\<rparr>)"
    unfolding parseHeader_field [OF te(1)] using te by (simp add: header_field_def)
  with run_line [OF te(4) s1(2,3), of rq_parseFirstLine rq_addHeader rq_setBody "kCRLF @ ?body"] s1(4)
  have "rq_run s1 (?te @ kCRLF @ kCRLF @ ?body) = rq_run (?s2\<lparr>msg := ?m2\<rparr>) (kCRLF @ ?body)" by simp
  also have "\<dots> = rq_run (?s2\<lparr>msg := ?m2, parseState := PARSE_BODY\<rparr>) ?body"
    using s1 run_blank [of "?s2\<lparr>msg := ?m2\<rparr>" rq_parseFirstLine rq_addHeader rq_setBody ?body] by simp
  also have "\<dots> = Inr (?s2\<lparr>parseState := PARSE_BODY, p_body := concat (map (\<lambda>(hex, bytes). bytes @ kCRLF) cs),
      msg := rq_setBody (concat (map (\<lambda>(hex, bytes). bytes @ kCRLF) cs)) ?m2, p_finish := True\<rparr>, rest)"
    using s1 assms(2-4) by (simp add: run_chunks run_last_chunk chunk_st_def)
  finally show ?thesis using s1(1,2) by (simp add: rq_setBody_def)
qed

text \<open>
  A chunked request body (any sequence of non-empty chunks announced by their hexadecimal
  lengths, then a chunk of length 0), cut into reads in any way, is complete after the line of the
  last chunk. The body handed to the servlet is not the concatenation of the chunks: the CRLF that
  ends each chunk on the wire is kept behind its bytes.
\<close>

theorem chunked_body_keeps_crlf:
  assumes "request_ok r" "list_all chunk_ok cs" "CHR 0x0D \<notin> set hex" "HexToDec hex = 0"
    and "concat segs = rq_first_line r @ kCRLF @ ''Transfer-Encoding: chunked'' @ kCRLF @ kCRLF @ chunk_wire cs @ hex @ kCRLF @ rest"
    and "pieces_ok s_maxReqBufferSize segs" "stream_end evs" "length (concat segs) < 2147470312"
  shows "\<exists>s. returned (parseRequest True (map Recv_bytes segs @ evs) (new_http_parser (new_HttpRequest 17 False))) =
      Some (Inr (True, s)) \<and>
    rq_body (msg s) = concat (map (\<lambda>(hex, bytes). bytes @ kCRLF) cs)"
proof -
  have "returned (parseRequest True (map Recv_bytes segs @ evs) (new_http_parser (new_HttpRequest 17 False))) =
      parse_outcome (evs \<noteq> []) (rq_run (new_parse_st (new_HttpRequest 17 False)) (concat segs))"
    unfolding parseRequest_def using rqp.parse_pieces [OF assms(6,7)] assms(8) by (simp add: s_maxReqBufferSize_def)
  with request_chunked_run [OF assms(1-4), of rest] assms(5) show ?thesis
    by (auto simp: parse_outcome_def)
qed

theorem chunked_body_keeps_crlf_witness:
  "chunk_ok (''3'', ''abc'') \<and> HexToDec ''0'' = 0 \<and>
   (\<exists>s. returned (parseRequest True (map Recv_bytes [rq_first_line sample_request @ kCRLF @ ''Transfer-Encoding: chunked'' @
        kCRLF @ kCRLF @ chunk_wire [(''3'', ''abc'')] @ ''0'' @ kCRLF @ []] @ []) (new_http_parser (new_HttpRequest 17 False))) =
      Some (Inr (True, s)) \<and> rq_body (msg s) = ''abc'' @ kCRLF)"
proof -
  let ?w = "rq_first_line sample_request @ kCRLF @ ''Transfer-Encoding: chunked'' @ kCRLF @ kCRLF @
      chunk_wire [(''3'', ''abc'')] @ ''0'' @ kCRLF @ []"
  have h: "HexToDec ''3'' = 3" "HexToDec ''0'' = 0"
    by (simp_all add: HexToDec_def ord_of_def size_add_def size_sub_def int_of_size_def)
  then have ok: "chunk_ok (''3'', ''abc'')" by (simp add: chunk_ok_def)
  have len: "length (rq_first_line sample_request) = 22" by code_simp
  from h ok have "list_all chunk_ok [(''3'', ''abc'')]" "CHR 0x0D \<notin> set ''0''" by simp_all
  note chunked_body_keeps_crlf [OF sample_request_ok this h(2), of "[?w]" "[]" "[]"]
  then show ?thesis
    using ok h len by (simp add: pieces_ok_def recv_fits_def stream_end_def s_maxReqBufferSize_def chunk_wire_def kCRLF_def)
qed

section \<open>Header lines and sizes\<close>

text \<open>
  The shapes of a header line after a non-empty title: no colon is an error, and so is a
  single byte behind the colon; a colon at the end of the line raises \<open>std::length_error\<close>; otherwise
  the byte behind the colon, whatever it is, is dropped and the rest is the value.
\<close>

theorem header_line_shapes:
  assumes "k \<noteq> []" "CHR '':'' \<notin> set k" "CHR 0x0D \<notin> set k"
  shows "parseHeader a k s = Inr (s\<lparr>p_error := True\<rparr>) \<and>
    parseHeader a (k @ '':'') s = Inl Length_error \<and>
    parseHeader a (k @ [CHR '':'', c]) s = Inr (s\<lparr>p_error := True\<rparr>) \<and>
    parseHeader a (k @ CHR '':'' # c # d # v) s = header_field a k (d # v) s"
proof -
  have h: "hd (k @ x) \<noteq> CHR 0x0D" for x using assms(1,3) by (cases k) auto
  have f: "find_ch CHR '':'' (k @ CHR '':'' # x) = length k" "find_ch CHR '':'' k = length k" for x
    using assms(2) by (simp_all add: find_ch_append_hit find_ch_absent)
  show ?thesis by (simp add: parseHeader_def h f Let_def)
qed

theorem header_line_shapes_witness:
  "parseHeader rq_addHeader ''a:bc'' (new_parse_st (new_HttpRequest 17 False)) =
     header_field rq_addHeader ''a'' ''c'' (new_parse_st (new_HttpRequest 17 False)) \<and>
   parseHeader rq_addHeader ''a:'' (new_parse_st (new_HttpRequest 17 False)) = Inl Length_error"
  using header_line_shapes [of "''a''" rq_addHeader "new_parse_st (new_HttpRequest 17 False)" "CHR ''b''" "CHR ''c''" "[]"]
  by simp

text \<open>
  The limit \<open>s_maxReqBufferSize\<close> on the size of a request is never reached, because
  \<open>readSize_\<close> stays 0: a client that sends a line without an end keeps the parser reading (it has not
  returned) up to the 2 GiB at which the buffer itself fails.
\<close>

theorem request_size_unlimited:
  assumes "pieces_ok s_maxReqBufferSize segs" "length (concat segs) < 2147470312" "CHR 0x0D \<notin> set (concat segs)"
  shows "returned (parseRequest True (map Recv_bytes segs) (new_http_parser req)) = None"
proof -
  have "search_crlf bs = None" if "CHR 0x0D \<notin> set bs" for bs
    using that by (induction bs rule: search_crlf.induct) (auto simp: kCRLF_def)
  then have "rq_run (new_parse_st req) (concat segs) = Inr (new_parse_st req, concat segs)"
    using assms(3) by (simp add: run.simps pstep_def a_line_def new_parse_st_def)
  moreover have "stream_end []" by (simp add: stream_end_def)
  from rqp.parse_pieces [OF assms(1) this]
  have "returned (parseRequest True (map Recv_bytes segs) (new_http_parser req)) =
      parse_outcome False (rq_run (new_parse_st req) (concat segs))"
    unfolding parseRequest_def using assms(2) by (simp add: s_maxReqBufferSize_def)
  ultimately show ?thesis by (simp add: parse_outcome_def new_parse_st_def)
qed

theorem request_size_unlimited_witness:
  "length (concat (replicate 5 (replicate 1024 CHR ''a''))) = 5120 \<and> 5120 > s_maxReqBufferSize \<and>
   returned (parseRequest True (map Recv_bytes (replicate 5 (replicate 1024 CHR ''a''))) (new_http_parser (new_HttpRequest 17 False))) = None"
proof -
  let ?segs = "replicate 5 (replicate 1024 CHR ''a'')"
  have "length (concat ?segs) = 5120" by (simp add: length_concat sum_list_replicate)
  moreover have "pieces_ok s_maxReqBufferSize ?segs"
    by (simp add: pieces_ok_def recv_fits_def s_maxReqBufferSize_def list_all_iff)
  moreover have "CHR 0x0D \<notin> set (concat ?segs)" by simp
  ultimately show ?thesis
    using request_size_unlimited [of ?segs "new_HttpRequest 17 False"] by (simp add: s_maxReqBufferSize_def)
qed

end
