(* ===== verification/Servlet.thy ===== *)
theory Servlet
  imports Http_Message
begin

text \<open>
  \<open>src/reyao/http/http_servlet.h\<close> and \<open>http_servlet.cc\<close>: the table that maps paths to handlers.
  A servlet is the function its \<open>handle\<close> computes on request and response; callbacks of the
  application are arguments of the model. A \<open>Servlet::SPtr\<close> may be null, hence the \<open>option\<close>.
  \<open>fnmatch\<close> is the C library's function, with its return value 0 for a match. The read-write lock
  makes every operation atomic, so an operation is a function on the table.
\<close>

type_synonym servlet = "HttpRequest \<Rightarrow> HttpResponse \<Rightarrow> int \<times> HttpResponse"
type_synonym servlet_ptr = "servlet option"

record servlet_dispatch =
  servlets :: "(string, servlet_ptr) map"
  globals :: "(string \<times> servlet_ptr) list"
  default_servlet :: servlet_ptr

definition FunctionServlet_handle :: "servlet \<Rightarrow> servlet" where
  "FunctionServlet_handle func req rsp = func req rsp"

definition NoFoundServlet_content :: "string \<Rightarrow> string" where
  "NoFoundServlet_content server_name =
     ''<html><head><title>404 Not Found'' @
     ''</title></head><body><center><h1>404 Not Found</h1></center>'' @
     ''<hr><center>'' @ server_name @ ''</center></body></html>''"

definition NoFoundServlet_handle :: "string \<Rightarrow> servlet" where
  "NoFoundServlet_handle content req rsp =
     (let rsp = rsp\<lparr>rs_status := NOT_FOUND\<rparr>;
          rsp = rs_addHeader ''Server'' ''Reyao'' rsp;
          rsp = rs_addHeader ''Content-Type'' ''text/html'' rsp
      in (0, rsp\<lparr>rs_body := content\<rparr>))"

definition new_ServletDispatch :: servlet_dispatch where
  "new_ServletDispatch =
     \<lparr> servlets = Map.empty, globals = [],
       default_servlet = Some (NoFoundServlet_handle (NoFoundServlet_content ''Reyao'')) \<rparr>"

definition addServlet :: "string \<Rightarrow> servlet_ptr \<Rightarrow> servlet_dispatch \<Rightarrow> servlet_dispatch" where
  "addServlet uri servlet d = d\<lparr>servlets := (servlets d)(uri \<mapsto> servlet)\<rparr>"

definition addServlet_func :: "string \<Rightarrow> servlet \<Rightarrow> servlet_dispatch \<Rightarrow> servlet_dispatch" where
  "addServlet_func uri func d = d\<lparr>servlets := (servlets d)(uri \<mapsto> Some (FunctionServlet_handle func))\<rparr>"

text \<open>
  The loop of \<open>addGlobalServlet\<close> with the iterator as an index: \<open>erase\<close> moves the later entries
  down and the loop goes on with \<open>it++\<close>, also past \<open>end()\<close> when the erased entry was the last one.
\<close>

function erase_loop :: "string \<Rightarrow> nat \<Rightarrow> (string \<times> 'v) list \<Rightarrow> (string \<times> 'v) list res" where
  "erase_loop uri it xs =
     (if it = length xs then Inr xs
      else if length xs < it then Inl Memory_fault
      else if fst (xs ! it) = uri then erase_loop uri (it + 1) (take it xs @ drop (it + 1) xs)
      else erase_loop uri (it + 1) xs)"
  by pat_completeness auto
termination
  by (relation "measure (\<lambda>(uri, it, xs). length xs - it)") auto

declare erase_loop.simps [simp del]

definition addGlobalServlet :: "string \<Rightarrow> servlet_ptr \<Rightarrow> servlet_dispatch \<Rightarrow> servlet_dispatch res" where
  "addGlobalServlet uri servlet d =
     rbind (erase_loop uri 0 (globals d)) (\<lambda>gs. Inr (d\<lparr>globals := gs @ [(uri, servlet)]\<rparr>))"

definition addGlobalServlet_func :: "string \<Rightarrow> servlet \<Rightarrow> servlet_dispatch \<Rightarrow> servlet_dispatch res" where
  "addGlobalServlet_func uri func d = addGlobalServlet uri (Some (FunctionServlet_handle func)) d"

definition delServlet :: "string \<Rightarrow> servlet_dispatch \<Rightarrow> servlet_dispatch" where
  "delServlet uri d = d\<lparr>servlets := (servlets d)(uri := None)\<rparr>"

fun erase_first :: "string \<Rightarrow> (string \<times> 'v) list \<Rightarrow> (string \<times> 'v) list" where
  "erase_first uri [] = []"
| "erase_first uri (e # xs) = (if fst e = uri then xs else e # erase_first uri xs)"

definition delGlobalServlet :: "string \<Rightarrow> servlet_dispatch \<Rightarrow> servlet_dispatch" where
  "delGlobalServlet uri d = d\<lparr>globals := erase_first uri (globals d)\<rparr>"

definition setDefault :: "servlet_ptr \<Rightarrow> servlet_dispatch \<Rightarrow> servlet_dispatch" where
  "setDefault s d = d\<lparr>default_servlet := s\<rparr>"

definition getServlet :: "string \<Rightarrow> servlet_dispatch \<Rightarrow> servlet_ptr" where
  "getServlet uri d = (case servlets d uri of None \<Rightarrow> None | Some s \<Rightarrow> s)"

fun match_global :: "(string \<Rightarrow> string \<Rightarrow> int) \<Rightarrow> string \<Rightarrow> (string \<times> 'v) list \<Rightarrow> 'v option" where
  "match_global fnmatch uri [] = None"
| "match_global fnmatch uri ((pat, s) # gs) =
     (if fnmatch (c_str pat) (c_str uri) = 0 then Some s else match_global fnmatch uri gs)"

definition getGlobalServlet :: "(string \<Rightarrow> string \<Rightarrow> int) \<Rightarrow> string \<Rightarrow> servlet_dispatch \<Rightarrow> servlet_ptr" where
  "getGlobalServlet fnmatch uri d =
     (case match_global fnmatch uri (globals d) of None \<Rightarrow> None | Some s \<Rightarrow> s)"

definition getMatchServlet :: "(string \<Rightarrow> string \<Rightarrow> int) \<Rightarrow> string \<Rightarrow> servlet_dispatch \<Rightarrow> servlet_ptr" where
  "getMatchServlet fnmatch uri d =
     (case servlets d uri of
        Some s \<Rightarrow> s
      | None \<Rightarrow>
          (case match_global fnmatch uri (globals d) of
             Some s \<Rightarrow> s
           | None \<Rightarrow> default_servlet d))"

definition ServletDispatch_handle :: "(string \<Rightarrow> string \<Rightarrow> int) \<Rightarrow> servlet_dispatch \<Rightarrow> servlet" where
  "ServletDispatch_handle fnmatch d req rsp =
     (case getMatchServlet fnmatch (rq_path req) d of
        None \<Rightarrow> (0, rsp)
      | Some servlet \<Rightarrow> (0, snd (servlet req rsp)))"

section \<open>Routing\<close>

lemma erase_loop_suffix:
  "uri \<notin> fst ` set (drop it xs) \<Longrightarrow> it \<le> length xs \<Longrightarrow> erase_loop uri it xs = Inr xs"
proof (induction uri it xs rule: erase_loop.induct)
  case (1 uri it xs)
  show ?case
  proof (cases "it = length xs")
    case False
    then have it: "it < length xs" using "1.prems"(2) by simp
    then have "fst (xs ! it) \<noteq> uri" "uri \<notin> fst ` set (drop (it + 1) xs)"
      using "1.prems"(1) by (auto simp flip: Cons_nth_drop_Suc)
    with 1 it show ?thesis by (simp add: erase_loop.simps [of uri it xs])
  qed (simp add: erase_loop.simps)
qed

lemma erase_loop_at:
  assumes "uri \<notin> fst ` set pre" "uri \<notin> fst ` set post" "it \<le> length pre"
  shows "erase_loop uri it (pre @ (uri, v) # post) =
    (if post = [] then Inl Memory_fault else Inr (pre @ post))"
  using assms(3)
proof (induction "length pre - it" arbitrary: it)
  case 0
  then have it: "it = length pre" by simp
  have "erase_loop uri it (pre @ (uri, v) # post) = erase_loop uri (length pre + 1) (pre @ post)"
    by (simp add: it erase_loop.simps [of uri "length pre" "pre @ (uri, v) # post"])
  also have "\<dots> = (if post = [] then Inl Memory_fault else Inr (pre @ post))"
  proof (cases post)
    case (Cons x xs)
    then have "uri \<notin> fst ` set (drop (length pre + 1) (pre @ post))" using assms(2) by simp
    from erase_loop_suffix [OF this] Cons show ?thesis by simp
  qed (simp add: erase_loop.simps)
  finally show ?case .
next
  case (Suc n)
  then have it: "it < length pre" by simp
  then have "fst ((pre @ (uri, v) # post) ! it) \<noteq> uri" using assms(1) nth_mem [OF it] by (force simp: nth_append)
  with it Suc(1) [of "it + 1"] Suc(2) show ?case
    by (subst erase_loop.simps) simp
qed

text \<open>
  Registering a pattern: a new one is appended; one that is already there, with other
  patterns behind it, is moved to the end with the new servlet; but one that is already there as the
  last entry makes the loop, which goes on after \<open>erase\<close>, run past the end of the vector.
\<close>

theorem addGlobalServlet_cases:
  assumes "uri \<notin> fst ` set pre" "uri \<notin> fst ` set post"
  shows "addGlobalServlet uri s (d\<lparr>globals := pre @ post\<rparr>) = Inr (d\<lparr>globals := pre @ post @ [(uri, s)]\<rparr>) \<and>
    addGlobalServlet uri s (d\<lparr>globals := pre @ (uri, old) # post\<rparr>) =
      (if post = [] then Inl Memory_fault else Inr (d\<lparr>globals := pre @ post @ [(uri, s)]\<rparr>))"
  using erase_loop_at [OF assms, of 0 old] erase_loop_suffix [of uri 0 "pre @ post"] assms
  by (simp add: addGlobalServlet_def image_Un)

theorem addGlobalServlet_cases_witness:
  "addGlobalServlet ''/a*'' None (new_ServletDispatch\<lparr>globals := [(''/a*'', None)]\<rparr>) = Inl Memory_fault"
  using addGlobalServlet_cases [of "''/a*''" "[]" "[]" None new_ServletDispatch None] by simp

text \<open>
  Routing. A servlet registered for a path handles exactly that path, before any pattern, and
  changes nothing for other paths; unregistering it gives the path back to the patterns. Without it
  the first matching pattern in order of registration decides, so that a newly added pattern never
  takes a path from an older one, and a path nothing matches gets the default servlet.
\<close>

theorem routing:
  "getMatchServlet fnmatch p (addServlet uri s d) = (if p = uri then s else getMatchServlet fnmatch p d) \<and>
   getMatchServlet fnmatch p (delServlet uri (addServlet uri s d)) = getMatchServlet fnmatch p (delServlet uri d) \<and>
   getMatchServlet fnmatch uri (delServlet uri d) =
     (case find (\<lambda>g. fnmatch (c_str (fst g)) (c_str uri) = 0) (globals d) of
        Some g \<Rightarrow> snd g | None \<Rightarrow> default_servlet d) \<and>
   getMatchServlet fnmatch p (d\<lparr>globals := globals d @ [(pat, s)]\<rparr>) =
     (if servlets d p = None \<and> find (\<lambda>g. fnmatch (c_str (fst g)) (c_str p) = 0) (globals d) = None \<and>
         fnmatch (c_str pat) (c_str p) = 0
      then s else getMatchServlet fnmatch p d)"
proof -
  have f: "match_global fnmatch x gs = map_option snd (find (\<lambda>g. fnmatch (c_str (fst g)) (c_str x) = 0) gs)" for x and gs :: "(string \<times> servlet_ptr) list"
    by (induction fnmatch x gs rule: match_global.induct) auto
  have "find P (xs @ ys) = (case find P xs of None \<Rightarrow> find P ys | Some x \<Rightarrow> Some x)" for P and xs ys :: "(string \<times> servlet_ptr) list"
    by (induction xs) auto
  then show ?thesis
    by (auto simp: getMatchServlet_def addServlet_def delServlet_def f fun_upd_def split: option.split)
qed

end
