(* ===== verification/Http_Server.thy ===== *)
theory Http_Server
  imports Http_Parsing_More Servlet
begin

text \<open>
  \<open>src/reyao/http/http_session.cc\<close> and \<open>http_server.cc\<close>: receiving requests from and sending
  responses to one client. The outcomes of the client's \<open>recv\<close> calls are a list of events; the model
  of \<open>handleClient\<close> returns the byte strings it hands to \<open>send\<close>, in order. The return value of
  \<open>send\<close> does not influence it.
\<close>

definition recvRequest ::
    "bool \<Rightarrow> recv_event list \<Rightarrow> HttpRequest \<Rightarrow> (bool \<times> HttpRequest http_parser \<times> recv_event list) res option" where
  "recvRequest connected evs req = parseRequest connected evs (new_http_parser req)"

text \<open>The \<open>int\<close> that \<open>write\<close> returns is converted to \<open>bool\<close>.\<close>

definition sendResponse :: "bool \<Rightarrow> int \<Rightarrow> HttpResponse \<Rightarrow> bool \<times> byte list" where
  "sendResponse connected sent rsp =
     (let (rt, bytes) = ss_write connected sent (rs_dump rsp) in (rt \<noteq> 0, bytes))"

text \<open>One pass of the loop: the request with its keep-alive flag, and the response to it.\<close>

definition noteKeepAlive :: "HttpRequest \<Rightarrow> HttpRequest" where
  "noteKeepAlive req =
     (if strcasecmp (rq_getHeader ''Connection'' req) ''Keep-Alive'' = 0 then req\<lparr>rq_keepAlive := True\<rparr> else req)"

definition answer :: "(string \<Rightarrow> string \<Rightarrow> int) \<Rightarrow> servlet_dispatch \<Rightarrow> bool \<Rightarrow> HttpRequest \<Rightarrow> HttpResponse" where
  "answer fnmatch dispatch keepAlive req =
     snd (ServletDispatch_handle fnmatch dispatch req
            (new_HttpResponse (rq_version req) (rq_keepAlive req \<and> keepAlive)))"

partial_function (option) serve_loop ::
    "(string \<Rightarrow> string \<Rightarrow> int) \<Rightarrow> servlet_dispatch \<Rightarrow> bool \<Rightarrow> byte list list \<Rightarrow> recv_event list \<Rightarrow>
     (byte list list \<times> recv_event list) res option" where
  "serve_loop fnmatch dispatch keepAlive sent evs =
     (case recvRequest True evs (new_HttpRequest 17 False) of
        None \<Rightarrow> None
      | Some (Inl e) \<Rightarrow> Some (Inl e)
      | Some (Inr (ok, p, evs)) \<Rightarrow>
          if \<not> ok then Some (Inr (sent, evs))
          else
            let req = noteKeepAlive (msg (st p));
                out = snd (sendResponse True 0 (answer fnmatch dispatch keepAlive req))
            in if \<not> keepAlive \<or> \<not> rq_keepAlive req then Some (Inr (sent @ [out], evs))
               else serve_loop fnmatch dispatch keepAlive (sent @ [out]) evs)"

definition handleClient ::
    "(string \<Rightarrow> string \<Rightarrow> int) \<Rightarrow> servlet_dispatch \<Rightarrow> bool \<Rightarrow> recv_event list \<Rightarrow> (byte list list \<times> recv_event list) res option" where
  "handleClient fnmatch dispatch keepAlive evs = serve_loop fnmatch dispatch keepAlive [] evs"

section \<open>Conversations\<close>

text \<open>The request as the servlets see it after it was dumped by a client.\<close>

definition seen :: "HttpRequest \<Rightarrow> HttpRequest" where
  "seen r = noteKeepAlive (received r)"

lemma seen_keepAlive:
  assumes "request_ok r"
  shows "rq_keepAlive (seen r) = rq_keepAlive r"
proof -
  have c: "strcasecmp ''Connection'' ''connection'' = 0" "strcasecmp ''keep-alive'' ''Keep-Alive'' = 0"
      "strcasecmp ''close'' ''Keep-Alive'' \<noteq> 0"
    by code_simp+
  have "rq_getHeader ''Connection'' (received r) = (if rq_keepAlive r then ''keep-alive'' else ''close'')"
    using assms by (simp add: rq_getHeader_def received_headers request_ok_def c(1))
  moreover have "rq_keepAlive (received r) = False"
    by (simp add: received_def tail_msg_def Let_def fold_rq_addHeader rq_setBody_def rq_addHeader_def new_HttpRequest_def)
  ultimately show ?thesis using c by (simp add: seen_def noteKeepAlive_def)
qed

lemma rq_dump_nonempty: "rq_dump r \<noteq> []"
  by (simp add: rq_dump_def kCRLF_def)

definition reply where
  "reply fnmatch dispatch keepAlive r = rs_dump (answer fnmatch dispatch keepAlive (seen r))"

lemma serve_request:
  assumes "recvRequest True evs (new_HttpRequest 17 False) = Some (Inr (True, p, evs'))" "msg (st p) = received r" "request_ok r"
  shows "serve_loop fnmatch dispatch keepAlive sent evs =
    (if keepAlive \<and> rq_keepAlive r then serve_loop fnmatch dispatch keepAlive (sent @ [reply fnmatch dispatch keepAlive r]) evs'
     else Some (Inr (sent @ [reply fnmatch dispatch keepAlive r], evs')))"
  using assms(1,2) seen_keepAlive [OF assms(3)]
  by (auto simp: serve_loop.simps [of _ _ _ _ evs] sendResponse_def ss_write_def reply_def seen_def Let_def)

lemma serve_pieces:
  assumes "request_ok r" "concat segs = rq_dump r" "pieces_ok s_maxReqBufferSize segs" "length (rq_dump r) < 2147470312"
  shows "serve_loop fnmatch dispatch keepAlive sent (map Recv_bytes segs @ evs) =
    (if keepAlive \<and> rq_keepAlive r then serve_loop fnmatch dispatch keepAlive (sent @ [reply fnmatch dispatch keepAlive r]) evs
     else Some (Inr (sent @ [reply fnmatch dispatch keepAlive r], evs)))"
proof -
  have "\<exists>b'. parseRequest True (map Recv_bytes segs @ evs) (new_http_parser (new_HttpRequest 17 False)) =
    Some (Inr (True, \<lparr>ba = b', st = (new_parse_st (new_HttpRequest 17 False))\<lparr>parseState := PARSE_BODY,
      contentLen := length (rq_body r), p_finish := True, msg := received r\<rparr>\<rparr>, evs))"
    unfolding parseRequest_def
    using rqp.parse_exact [OF assms(3) _ _ request_run [OF assms(1), folded assms(2)], of evs] assms(2,4)
    by (simp add: s_maxReqBufferSize_def new_parse_st_def)
  then show ?thesis using serve_request [of _ _ _ r] assms(1) by (force simp: recvRequest_def)
qed

lemma serve_closed:
  "map_option (map_res fst) (serve_loop fnmatch dispatch keepAlive sent [Recv_bytes []]) = Some (Inr sent)"
proof -
  have "pieces_ok s_maxReqBufferSize []" "stream_end [Recv_bytes []]" by (simp_all add: pieces_ok_def stream_end_def)
  from rqp.parse_pieces [OF this, of "new_HttpRequest 17 False"]
  have "returned (recvRequest True [Recv_bytes []] (new_HttpRequest 17 False)) =
      Some (Inr (False, new_parse_st (new_HttpRequest 17 False)))"
    using rqp.fresh_parser(5) [of "new_HttpRequest 17 False"]
    by (simp add: recvRequest_def parseRequest_def s_maxReqBufferSize_def parse_outcome_def run.simps [of _ _ _ _ "[]"])
      (simp add: new_parse_st_def)
  then obtain p evs where "recvRequest True [Recv_bytes []] (new_HttpRequest 17 False) = Some (Inr (False, p, evs))"
    by (auto simp: returned_def elim!: map_res.elims)
  then show ?thesis by (simp add: serve_loop.simps)
qed

lemma serve_conversation:
  assumes "list_all2 (\<lambda>r segs. request_ok r \<and> rq_keepAlive r \<and> concat segs = rq_dump r \<and>
      pieces_ok s_maxReqBufferSize segs \<and> length (rq_dump r) < 2147470312) reqs pieces"
  shows "map_option (map_res fst) (serve_loop fnmatch dispatch True sent (map Recv_bytes (concat pieces) @ [Recv_bytes []])) =
      Some (Inr (sent @ map (reply fnmatch dispatch True) reqs))"
  using assms
proof (induction arbitrary: sent rule: list_all2_induct)
  case Nil
  then show ?case using serve_closed by simp
next
  case (Cons r reqs segs pieces)
  from Cons(1) Cons(3) [of "sent @ [reply fnmatch dispatch True r]"] show ?case
    using serve_pieces [of r segs fnmatch dispatch True sent "map Recv_bytes (concat pieces) @ [Recv_bytes []]"] by simp
qed



text \<open>
  Pipelining loses data: the parser and its buffer live for one request, so bytes that arrive
  in the same read behind the end of a request are discarded. A client that sends a second request
  in one go with the first gets one response only.
\<close>

theorem pipelined_bytes_lost:
  assumes "request_ok r" "rq_keepAlive r" "length (rq_dump r @ extra) \<le> s_maxReqBufferSize"
  shows "map_option (map_res fst) (handleClient fnmatch dispatch True [Recv_bytes (rq_dump r @ extra), Recv_bytes []]) =
    Some (Inr [reply fnmatch dispatch True r])"
proof -
  let ?s = "(new_parse_st (new_HttpRequest 17 False))\<lparr>parseState := PARSE_BODY,
      contentLen := length (rq_body r), p_finish := True, msg := received r\<rparr>"
  have "rq_run (new_parse_st (new_HttpRequest 17 False)) (rq_dump r @ extra) = Inr (?s, extra)"
    by (simp add: run_append [of _ _ _ _ "rq_dump r" extra] request_run [OF assms(1)] run_stopped)
  from rqp.parse_surplus [OF _ assms(3) _ this, of "[Recv_bytes []]"] assms(3)
  obtain b' where "recvRequest True [Recv_bytes (rq_dump r @ extra), Recv_bytes []] (new_HttpRequest 17 False) =
      Some (Inr (True, \<lparr>ba = b', st = ?s\<rparr>, [Recv_bytes []]))"
    by (auto simp: recvRequest_def parseRequest_def rq_dump_nonempty s_maxReqBufferSize_def new_parse_st_def)
  from serve_request [OF this _ assms(1), of fnmatch dispatch True "[]"] assms(2) show ?thesis
    using serve_closed [of fnmatch dispatch True] by (simp add: handleClient_def)
qed

theorem pipelined_bytes_lost_witness:
  "map_option (map_res fst)
     (handleClient (\<lambda>_ _. 1) new_ServletDispatch True [Recv_bytes (rq_dump sample_request @ rq_dump sample_request), Recv_bytes []]) =
   Some (Inr [reply (\<lambda>_ _. 1) new_ServletDispatch True sample_request])"
proof -
  have "rq_keepAlive sample_request" by (simp add: sample_request_def rq_addHeader_def new_HttpRequest_def)
  then show ?thesis
    using pipelined_bytes_lost [OF sample_request_ok, of "rq_dump sample_request"]
    by (simp add: sample_request_length s_maxReqBufferSize_def)
qed

end
