(* ===== verification/Ordered_Set.thy ===== *)
theory Ordered_Set
  imports Reyao_Prelude
begin

text \<open>
  \<open>std::set\<close> with a comparator, as the list of its elements in iteration order. The operations
  look at elements through the comparator only. What \<open>std::set\<close> requires of a comparator, here a
  strict total order, is the locale \<open>set_order\<close>, in which the laws are proved.
\<close>

fun oset_insert :: "('a \<Rightarrow> 'a \<Rightarrow> bool) \<Rightarrow> 'a \<Rightarrow> 'a list \<Rightarrow> 'a list" where
  "oset_insert lt x [] = [x]"
| "oset_insert lt x (y # ys) =
     (if lt y x then y # oset_insert lt x ys
      else if lt x y then x # y # ys
      else y # ys)"

fun oset_find :: "('a \<Rightarrow> 'a \<Rightarrow> bool) \<Rightarrow> 'a \<Rightarrow> 'a list \<Rightarrow> 'a option" where
  "oset_find lt x [] = None"
| "oset_find lt x (y # ys) =
     (if lt y x then oset_find lt x ys
      else if lt x y then None else Some y)"

fun oset_erase :: "('a \<Rightarrow> 'a \<Rightarrow> bool) \<Rightarrow> 'a \<Rightarrow> 'a list \<Rightarrow> 'a list" where
  "oset_erase lt x [] = []"
| "oset_erase lt x (y # ys) =
     (if lt y x then y # oset_erase lt x ys
      else if lt x y then y # ys else ys)"

text \<open>The elements in front of \<open>lower_bound(x)\<close>.\<close>

definition oset_below :: "('a \<Rightarrow> 'a \<Rightarrow> bool) \<Rightarrow> 'a \<Rightarrow> 'a list \<Rightarrow> 'a list" where
  "oset_below lt x xs = takeWhile (\<lambda>y. lt y x) xs"

lemma takeWhile_filter_sorted:
  assumes "sorted_wrt R xs" and "\<And>x y. R x y \<Longrightarrow> P y \<Longrightarrow> P x"
  shows "takeWhile P xs = filter P xs" and "dropWhile P xs = filter (\<lambda>x. \<not> P x) xs"
proof -
  have "takeWhile P xs = filter P xs \<and> dropWhile P xs = filter (\<lambda>x. \<not> P x) xs"
    using assms(1)
  proof (induction xs)
    case (Cons x xs)
    then show ?case
    proof (cases "P x")
      case False
      then have "\<forall>y \<in> set xs. \<not> P y" using Cons.prems assms(2) by auto
      then have "filter P xs = []" "filter (\<lambda>x. \<not> P x) xs = xs" by (simp_all add: filter_empty_conv filter_id_conv)
      with False show ?thesis by simp
    qed auto
  qed simp
  then show "takeWhile P xs = filter P xs" "dropWhile P xs = filter (\<lambda>x. \<not> P x) xs" by auto
qed

locale set_order =
  fixes lt :: "'a \<Rightarrow> 'a \<Rightarrow> bool"
  assumes irrefl: "\<not> lt x x"
    and trans: "lt x y \<Longrightarrow> lt y z \<Longrightarrow> lt x z"
    and total: "x \<noteq> y \<Longrightarrow> lt x y \<or> lt y x"
begin

lemma asym: "lt x y \<Longrightarrow> \<not> lt y x"
  using trans [of x y x] irrefl by auto

lemma sorted_distinct: "sorted_wrt lt xs \<Longrightarrow> distinct xs"
  by (induction xs) (auto simp: irrefl)

lemma set_insert: "set (oset_insert lt x xs) = insert x (set xs)"
proof (induction xs)
  case (Cons y ys)
  then show ?case using total [of x y] by auto
qed simp

lemma sorted_insert: "sorted_wrt lt xs \<Longrightarrow> sorted_wrt lt (oset_insert lt x xs)"
proof (induction xs)
  case (Cons y ys)
  then show ?case using trans [of x y] by (auto simp: set_insert)
qed simp

lemma find_iff: "sorted_wrt lt xs \<Longrightarrow> oset_find lt x xs = (if x \<in> set xs then Some x else None)"
proof (induction xs)
  case (Cons y ys)
  then have gt: "\<forall>z \<in> set ys. lt y z" by simp
  have "x \<notin> set ys" if "lt x y" using gt trans [OF that, of x] irrefl by blast
  then show ?case using Cons total [of x y] irrefl asym [of x y] by auto
qed simp

lemma set_erase: "sorted_wrt lt xs \<Longrightarrow> set (oset_erase lt x xs) = set xs - {x}"
proof (induction xs)
  case (Cons y ys)
  then have y: "\<forall>z \<in> set ys. lt y z" "set (oset_erase lt x ys) = set ys - {x}" by auto
  consider "x = y" | "lt x y" | "lt y x" using total by blast
  then show ?case
  proof cases
    case 2
    then have "x \<notin> set ys" "x \<noteq> y" using y(1) trans irrefl by blast+
    with 2 show ?thesis using asym by auto
  qed (use y irrefl in auto)
qed simp

lemma sorted_erase: "sorted_wrt lt xs \<Longrightarrow> sorted_wrt lt (oset_erase lt x xs)"
proof (induction xs)
  case (Cons y ys)
  then show ?case using set_erase [of ys x] by auto
qed simp

lemma below_filter: "sorted_wrt lt xs \<Longrightarrow> oset_below lt x xs = filter (\<lambda>y. lt y x) xs"
  unfolding oset_below_def by (rule takeWhile_filter_sorted(1) [where R = lt]) (auto intro: trans)

text \<open>The order of the elements is all the comparator contributes: on a part of the set another one may agree.\<close>

lemma hd_insert_front: "sorted_wrt lt xs \<Longrightarrow> hd (oset_insert lt x xs) = x \<longleftrightarrow> (\<forall>y \<in> set xs. y = x \<or> lt x y)"
proof (induction xs)
  case (Cons y ys)
  then show ?case using total [of x y] asym [of x y] irrefl trans [of x y] by auto
qed simp

end

end
