(* ===== verification/Timer.thy ===== *)
theory Timer
  imports Ordered_Set
begin

text \<open>
  \<open>src/reyao/timer.h\<close> and \<open>timer.cc\<close>. Timers are heap objects identified by their address;
  \<open>TimeManager::timers_\<close> is a \<open>std::set\<close> of such pointers ordered by expiry time and then address, so
  its order depends on the objects pointed to. Callbacks are values of a type \<open>'f\<close>, \<open>None\<close> being an
  empty \<open>std::function\<close>. The clock is the argument \<open>now\<close> (milliseconds); times are unbounded
  integers. Each operation holds the manager's mutex, so it is one function on the state; the calls
  of the virtual \<open>timerInsertAtFront\<close> are counted in \<open>notified\<close>.
\<close>

record 'f timer =
  recursive :: bool
  interval :: int
  expire :: int
  t_func :: "'f option"

record 'f time_manager =
  objs :: "nat \<Rightarrow> 'f timer option"
  timers :: "nat list"
  needNotify :: bool
  notified :: nat

definition new_TimeManager :: "'f time_manager" where
  "new_TimeManager = \<lparr> objs = Map.empty, timers = [], needNotify = False, notified = 0 \<rparr>"

definition expire_of :: "(nat \<Rightarrow> 'f timer option) \<Rightarrow> nat \<Rightarrow> int" where
  "expire_of h a = (case h a of None \<Rightarrow> 0 | Some t \<Rightarrow> expire t)"

definition Comparator :: "(nat \<Rightarrow> 'f timer option) \<Rightarrow> nat option \<Rightarrow> nat option \<Rightarrow> bool" where
  "Comparator h lhs rhs =
     (case (lhs, rhs) of
        (None, None) \<Rightarrow> False
      | (None, Some _) \<Rightarrow> True
      | (Some _, None) \<Rightarrow> False
      | (Some a, Some b) \<Rightarrow>
          if expire_of h a < expire_of h b then True
          else if expire_of h a > expire_of h b then False
          else a < b)"

definition timer_less :: "(nat \<Rightarrow> 'f timer option) \<Rightarrow> nat \<Rightarrow> nat \<Rightarrow> bool" where
  "timer_less h a b = Comparator h (Some a) (Some b)"

section \<open>Operations\<close>

text \<open>The address \<open>a\<close> of the new object is chosen by the allocator.\<close>

text \<open>The two constructors: a timer of the application, and the key that searches use.\<close>

definition new_Timer :: "int \<Rightarrow> int \<Rightarrow> 'f option \<Rightarrow> bool \<Rightarrow> 'f timer" where
  [simp]: "new_Timer now itv func rec = \<lparr> recursive = rec, interval = itv, expire = now + itv, t_func = func \<rparr>"

definition new_Timer_at :: "int \<Rightarrow> 'f timer" where
  [simp]: "new_Timer_at time = \<lparr> recursive = False, interval = 0, expire = time, t_func = None \<rparr>"

definition addTimer ::
    "int \<Rightarrow> nat \<Rightarrow> int \<Rightarrow> 'f option \<Rightarrow> bool \<Rightarrow> 'f time_manager \<Rightarrow> 'f time_manager" where
  "addTimer now a itv func rec M =
     (let t = new_Timer now itv func rec;
          h = (objs M)(a \<mapsto> t);
          ts = oset_insert (timer_less h) a (timers M);
          atFront = (hd ts = a)
      in M\<lparr>objs := h, timers := ts, notified := (if atFront then notified M + 1 else notified M)\<rparr>)"

text \<open>
  A callback with a condition: \<open>weakCond.lock()\<close> succeeds when the object it watches is alive in
  the state the callback runs in.
\<close>

definition OnTimer :: "('s \<Rightarrow> bool) \<Rightarrow> ('s \<Rightarrow> 's) \<Rightarrow> 's \<Rightarrow> 's" where
  "OnTimer alive func s = (if alive s then func s else s)"

definition addConditonTimer ::
    "int \<Rightarrow> nat \<Rightarrow> int \<Rightarrow> ('s \<Rightarrow> 's) \<Rightarrow> ('s \<Rightarrow> bool) \<Rightarrow> bool \<Rightarrow> ('s \<Rightarrow> 's) time_manager \<Rightarrow> ('s \<Rightarrow> 's) time_manager" where
  "addConditonTimer now a itv func alive rec M = addTimer now a itv (Some (OnTimer alive func)) rec M"

definition cancel :: "nat \<Rightarrow> 'f time_manager \<Rightarrow> bool \<times> 'f time_manager" where
  "cancel a M =
     (case objs M a of
        None \<Rightarrow> (False, M)
      | Some t \<Rightarrow>
          if t_func t \<noteq> None
          then let h = (objs M)(a \<mapsto> t\<lparr>t_func := None\<rparr>) in
               (case oset_find (timer_less h) a (timers M) of
                  None \<Rightarrow> (False, M\<lparr>objs := h\<rparr>)
                | Some _ \<Rightarrow> (True, M\<lparr>objs := h, timers := oset_erase (timer_less h) a (timers M)\<rparr>))
          else (False, M))"

definition refresh :: "int \<Rightarrow> nat \<Rightarrow> 'f time_manager \<Rightarrow> bool \<times> 'f time_manager" where
  "refresh now a M =
     (case objs M a of
        None \<Rightarrow> (False, M)
      | Some t \<Rightarrow>
          if t_func t = None then (False, M)
          else (case oset_find (timer_less (objs M)) a (timers M) of
                  None \<Rightarrow> (False, M)
                | Some _ \<Rightarrow>
                    let ts = oset_erase (timer_less (objs M)) a (timers M);
                        h = (objs M)(a \<mapsto> t\<lparr>expire := now + interval t\<rparr>)
                    in (True, M\<lparr>objs := h, timers := oset_insert (timer_less h) a ts\<rparr>)))"

definition timer_reset :: "int \<Rightarrow> int \<Rightarrow> bool \<Rightarrow> nat \<Rightarrow> 'f time_manager \<Rightarrow> bool \<times> 'f time_manager" where
  "timer_reset now itv fromNow a M =
     (case objs M a of
        None \<Rightarrow> (False, M)
      | Some t \<Rightarrow>
          if interval t = itv \<and> \<not> fromNow then (True, M)
          else if t_func t = None then (False, M)
          else (case oset_find (timer_less (objs M)) a (timers M) of
                  None \<Rightarrow> (False, M)
                | Some _ \<Rightarrow>
                    let ts = oset_erase (timer_less (objs M)) a (timers M);
                        start = (if fromNow then now else expire t - interval t);
                        h = (objs M)(a \<mapsto> t\<lparr>interval := itv, expire := start + itv\<rparr>);
                        ts = oset_insert (timer_less h) a ts;
                        M' = M\<lparr>objs := h, timers := ts\<rparr>
                    in (True, if hd ts = a then M'\<lparr>needNotify := True, notified := notified M + 1\<rparr> else M')))"

definition getExpire :: "int \<Rightarrow> 'f time_manager \<Rightarrow> int \<times> 'f time_manager" where
  "getExpire now M =
     (let M' = M\<lparr>needNotify := False\<rparr> in
      case timers M of
        [] \<Rightarrow> (-1, M')
      | a # _ \<Rightarrow> (if now > expire_of (objs M) a then 0 else expire_of (objs M) a - now, M'))"

definition hasTimer :: "'f time_manager \<Rightarrow> bool" where
  "hasTimer M \<longleftrightarrow> timers M \<noteq> []"

text \<open>The loop over the expired timers.\<close>

fun fire :: "int \<Rightarrow> nat list \<Rightarrow> 'f time_manager \<Rightarrow> 'f option list \<times> 'f time_manager" where
  "fire now [] M = ([], M)"
| "fire now (a # as) M =
     (case objs M a of
        None \<Rightarrow> fire now as M
      | Some t \<Rightarrow>
          let M' = (if recursive t
                    then let h = (objs M)(a \<mapsto> t\<lparr>expire := now + interval t\<rparr>)
                         in M\<lparr>objs := h, timers := oset_insert (timer_less h) a (timers M)\<rparr>
                    else M\<lparr>objs := (objs M)(a \<mapsto> t\<lparr>t_func := None\<rparr>)\<rparr>);
              (fs, M'') = fire now as M'
          in (t_func t # fs, M''))"

text \<open>\<open>p\<close> is the address of the temporary object \<open>now_timer\<close>.\<close>

definition expiredFunctions :: "int \<Rightarrow> nat \<Rightarrow> 'f time_manager \<Rightarrow> 'f option list \<times> 'f time_manager" where
  "expiredFunctions now p M =
     (if timers M = [] then ([], M)
      else
        let now_timer = new_Timer_at now;
            below = oset_below (timer_less ((objs M)(p \<mapsto> now_timer))) p (timers M);
            rest = drop (length below) (timers M);
            same = takeWhile (\<lambda>a. expire_of (objs M) a = now) rest
        in fire now (below @ same) (M\<lparr>timers := drop (length same) rest\<rparr>))"

section \<open>The order of the set\<close>

lemma timer_less_iff:
  "timer_less h a b \<longleftrightarrow> expire_of h a < expire_of h b \<or> expire_of h a = expire_of h b \<and> a < b"
  by (auto simp: timer_less_def Comparator_def)

interpretation tset: set_order "timer_less h" for h :: "nat \<Rightarrow> 'f timer option"
  by unfold_locales (auto simp: timer_less_iff)

lemma timer_less_same: "(\<And>x. x \<in> set xs \<Longrightarrow> expire_of h x = expire_of h' x) \<Longrightarrow>
    sorted_wrt (timer_less h) xs = sorted_wrt (timer_less h') xs"
  by (induction xs) (auto simp: timer_less_iff)

lemma sorted_other: "a \<notin> set xs \<Longrightarrow> sorted_wrt (timer_less (h(a \<mapsto> t))) xs = sorted_wrt (timer_less h) xs"
  by (rule timer_less_same) (auto simp: expire_of_def)

lemma timer_less_func: "h a = Some t \<Longrightarrow> timer_less (h(a \<mapsto> t\<lparr>t_func := f\<rparr>)) = timer_less h"
  by (auto simp: fun_eq_iff timer_less_iff expire_of_def)

text \<open>
  The invariant: the set is ordered, its members are objects, and a timer has a callback exactly as
  long as it is in the set.
\<close>

definition tm_inv :: "'f time_manager \<Rightarrow> bool" where
  "tm_inv M \<longleftrightarrow> sorted_wrt (timer_less (objs M)) (timers M) \<and>
     (\<forall>a. a \<in> set (timers M) \<longleftrightarrow> (\<exists>t. objs M a = Some t \<and> t_func t \<noteq> None))"

lemma tm_inv_find: "tm_inv M \<Longrightarrow> objs M a = Some t \<Longrightarrow> t_func t \<noteq> None \<Longrightarrow> oset_find (timer_less (objs M)) a (timers M) = Some a"
  by (auto simp: tm_inv_def tset.find_iff)

text \<open>Taking a timer out of the set and putting it back with other times.\<close>

lemma tm_inv_reinsert:
  assumes "tm_inv M" "objs M a = Some t" "t_func t \<noteq> None" "t_func t' = t_func t"
  shows "tm_inv (M\<lparr>objs := (objs M)(a \<mapsto> t'),
      timers := oset_insert (timer_less ((objs M)(a \<mapsto> t'))) a (oset_erase (timer_less (objs M)) a (timers M))\<rparr>)"
proof -
  have s: "sorted_wrt (timer_less (objs M)) (timers M)" using assms(1) by (simp add: tm_inv_def)
  have "a \<notin> set (oset_erase (timer_less (objs M)) a (timers M))" using tset.set_erase [OF s] by simp
  with assms s show ?thesis
    by (auto simp: tm_inv_def tset.sorted_insert tset.set_insert tset.set_erase tset.sorted_erase sorted_other)
qed

lemma tm_inv_fields [simp]: "tm_inv (M\<lparr>needNotify := x\<rparr>) = tm_inv M" "tm_inv (M\<lparr>notified := n\<rparr>) = tm_inv M"
  by (simp_all add: tm_inv_def)

lemma addTimer_inv:
  assumes "tm_inv M" "a \<notin> dom (objs M)"
  shows "tm_inv (addTimer now a itv (Some f) rec M)"
proof -
  have "a \<notin> set (timers M)" using assms by (auto simp: tm_inv_def)
  with assms show ?thesis
    by (auto simp: addTimer_def Let_def tm_inv_def tset.sorted_insert tset.set_insert sorted_other)
qed

lemma refresh_inv: "tm_inv M \<Longrightarrow> tm_inv (snd (refresh now a M))"
  by (auto simp: refresh_def Let_def tm_inv_find tm_inv_reinsert split: option.split)

lemma timer_reset_inv: "tm_inv M \<Longrightarrow> tm_inv (snd (timer_reset now itv fromNow a M))"
  by (auto simp: timer_reset_def Let_def tm_inv_find tm_inv_reinsert split: option.split)

lemma getExpire_inv: "tm_inv M \<Longrightarrow> tm_inv (snd (getExpire now M))"
  by (simp add: getExpire_def Let_def split: list.split)

text \<open>Cancelling a live timer takes it out of the set for good.\<close>

lemma cancel_live:
  assumes "tm_inv M" "objs M a = Some t" "t_func t \<noteq> None"
  shows "cancel a M = (True, M\<lparr>objs := (objs M)(a \<mapsto> t\<lparr>t_func := None\<rparr>),
      timers := oset_erase (timer_less (objs M)) a (timers M)\<rparr>)"
  using assms by (simp add: cancel_def Let_def timer_less_func tm_inv_find)

lemma cancel_inv: "tm_inv M \<Longrightarrow> tm_inv (snd (cancel a M))"
proof (cases "\<exists>t. objs M a = Some t \<and> t_func t \<noteq> None")
  case True
  assume inv: "tm_inv M"
  from True obtain t where t: "objs M a = Some t" "t_func t \<noteq> None" by blast
  from inv cancel_live [OF inv t] t show ?thesis
    by (auto simp: tm_inv_def tset.set_erase tset.sorted_erase timer_less_func split: if_split_asm)
qed (auto simp: cancel_def split: option.split)

section \<open>Expiry\<close>

lemma expired_prefix:
  assumes "sorted_wrt (timer_less h) ts" "p \<notin> set ts" "expire t = now"
  shows "oset_below (timer_less (h(p \<mapsto> t))) p ts @
      takeWhile (\<lambda>a. expire_of h a = now) (drop (length (oset_below (timer_less (h(p \<mapsto> t))) p ts)) ts) =
    filter (\<lambda>a. expire_of h a \<le> now) ts"
proof -
  let ?lt = "timer_less (h(p \<mapsto> t))" and ?le = "\<lambda>a. expire_of h a \<le> now"
  have e: "expire_of (h(p \<mapsto> t)) a = expire_of h a" if "a \<in> set ts" for a
    using that assms(2) by (auto simp: expire_of_def)
  have p: "expire_of (h(p \<mapsto> t)) p = now" using assms(3) by (simp add: expire_of_def)
  have s: "sorted_wrt ?lt ts" using assms(1) sorted_other [OF assms(2), of h t] by simp
  define below where "below = oset_below ?lt p ts"
  have split: "drop (length below) ts = dropWhile (\<lambda>y. ?lt y p) ts"
    by (simp add: below_def oset_below_def dropWhile_eq_drop)
  have ts: "ts = below @ drop (length below) ts"
    unfolding split by (simp add: below_def oset_below_def)
  have b: "\<forall>a \<in> set below. ?le a"
    using e p by (auto simp: below_def oset_below_def timer_less_iff dest!: set_takeWhileD)
  have "dropWhile (\<lambda>y. ?lt y p) ts = filter (\<lambda>y. \<not> ?lt y p) ts"
    by (rule takeWhile_filter_sorted(2) [OF s]) (auto intro: tset.trans)
  then have r: "\<forall>a \<in> set (drop (length below) ts). now \<le> expire_of h a"
    using e p split by (auto simp: timer_less_iff)
  have "?le x" if "timer_less h x y" "?le y" for x y using that by (auto simp: timer_less_iff)
  from takeWhile_filter_sorted(1) [where P = ?le, OF assms(1) this]
  have "filter ?le ts = takeWhile ?le (below @ drop (length below) ts)" using ts by simp
  also have "\<dots> = below @ takeWhile ?le (drop (length below) ts)" using b by (simp add: takeWhile_append)
  also have "takeWhile ?le (drop (length below) ts) = takeWhile (\<lambda>a. expire_of h a = now) (drop (length below) ts)"
    using r by (intro takeWhile_cong) auto
  finally show ?thesis by (simp add: below_def)
qed

text \<open>What a pass at time \<open>now\<close> makes of a timer object.\<close>

definition fired :: "int \<Rightarrow> 'f timer \<Rightarrow> 'f timer" where
  "fired now t = (if recursive t then t\<lparr>expire := now + interval t\<rparr> else t\<lparr>t_func := None\<rparr>)"

lemma fire_spec:
  assumes "distinct as" "set as \<inter> set (timers M) = {}" "\<forall>a \<in> set as. \<exists>t. objs M a = Some t \<and> t_func t \<noteq> None"
    and "sorted_wrt (timer_less (objs M)) (timers M)"
  shows "fst (fire now as M) = map (\<lambda>a. t_func (the (objs M a))) as \<and>
    objs (snd (fire now as M)) = (\<lambda>a. if a \<in> set as then map_option (fired now) (objs M a) else objs M a) \<and>
    set (timers (snd (fire now as M))) = set (timers M) \<union> {a \<in> set as. recursive (the (objs M a))} \<and>
    sorted_wrt (timer_less (objs (snd (fire now as M)))) (timers (snd (fire now as M)))"
  using assms
proof (induction as arbitrary: M)
  case (Cons a as)
  from Cons.prems(3) obtain t where t: "objs M a = Some t" by auto
  have a: "a \<notin> set (timers M)" "a \<notin> set as" and d: "distinct as" using Cons.prems(1,2) by auto
  define M' where "M' = (if recursive t
      then M\<lparr>objs := (objs M)(a \<mapsto> fired now t), timers := oset_insert (timer_less ((objs M)(a \<mapsto> fired now t))) a (timers M)\<rparr>
      else M\<lparr>objs := (objs M)(a \<mapsto> fired now t)\<rparr>)"
  have f: "fire now (a # as) M = (t_func t # fst (fire now as M'), snd (fire now as M'))"
    by (simp add: t M'_def fired_def Let_def case_prod_beta)
  have o: "objs M' = (objs M)(a \<mapsto> fired now t)" by (simp add: M'_def)
  have ts: "set (timers M') = (if recursive t then insert a (set (timers M)) else set (timers M))"
    by (simp add: M'_def tset.set_insert)
  have "sorted_wrt (timer_less (objs M')) (timers M')"
    using Cons.prems(4) a(1) by (simp add: M'_def tset.sorted_insert sorted_other)
  moreover have "set as \<inter> set (timers M') = {}" using ts Cons.prems(2) a(2) by auto
  moreover have "\<forall>b \<in> set as. \<exists>t. objs M' b = Some t \<and> t_func t \<noteq> None" using Cons.prems(3) a(2) o by auto
  ultimately have IH: "fst (fire now as M') = map (\<lambda>a. t_func (the (objs M' a))) as"
    "objs (snd (fire now as M')) = (\<lambda>a. if a \<in> set as then map_option (fired now) (objs M' a) else objs M' a)"
    "set (timers (snd (fire now as M'))) = set (timers M') \<union> {a \<in> set as. recursive (the (objs M' a))}"
    "sorted_wrt (timer_less (objs (snd (fire now as M')))) (timers (snd (fire now as M')))"
    using Cons.IH [of M'] d by blast+
  have same: "objs M' b = objs M b" if "b \<in> set as" for b using that a(2) o by auto
  have 1: "t_func t # fst (fire now as M') = map (\<lambda>a. t_func (the (objs M a))) (a # as)" using same IH(1) t by simp
  have 2: "objs (snd (fire now as M')) = (\<lambda>b. if b \<in> set (a # as) then map_option (fired now) (objs M b) else objs M b)"
    unfolding IH(2) o using t a(2) by (auto simp: fun_eq_iff)
  have "{b \<in> set as. recursive (the (objs M' b))} = {b \<in> set as. recursive (the (objs M b))}" using same by auto
  then have 3: "set (timers (snd (fire now as M'))) = set (timers M) \<union> {b \<in> set (a # as). recursive (the (objs M b))}"
    using IH(3) ts t by auto
  show ?case unfolding f fst_conv snd_conv using 1 2 3 IH(4) by blast
qed auto

lemma expiredFunctions_fire:
  assumes "tm_inv M" "p \<notin> dom (objs M)"
  shows "expiredFunctions now p M = fire now (filter (\<lambda>a. expire_of (objs M) a \<le> now) (timers M))
    (M\<lparr>timers := filter (\<lambda>a. \<not> expire_of (objs M) a \<le> now) (timers M)\<rparr>)"
proof -
  let ?le = "\<lambda>a. expire_of (objs M) a \<le> now"
  have s: "sorted_wrt (timer_less (objs M)) (timers M)" and p: "p \<notin> set (timers M)"
    using assms by (auto simp: tm_inv_def)
  define t where "t = (\<lparr> recursive = False, interval = 0, expire = now, t_func = None \<rparr> :: 'a timer)"
  define below where "below = oset_below (timer_less ((objs M)(p \<mapsto> t))) p (timers M)"
  define same where "same = takeWhile (\<lambda>a. expire_of (objs M) a = now) (drop (length below) (timers M))"
  have pre: "below @ same = filter ?le (timers M)"
    using expired_prefix [OF s p, of t now] by (simp add: below_def same_def t_def)
  have "?le x" if "timer_less (objs M) x y" "?le y" for x y using that by (auto simp: timer_less_iff)
  note tw = takeWhile_filter_sorted [where P = ?le, OF s this]
  have "drop (length same) (drop (length below) (timers M)) = drop (length (below @ same)) (timers M)"
    by (simp add: add.commute)
  also have "\<dots> = dropWhile ?le (timers M)" by (simp only: dropWhile_eq_drop pre tw(1))
  also note tw(2)
  finally have "drop (length same) (drop (length below) (timers M)) = filter (\<lambda>a. \<not> ?le a) (timers M)" .
  with pre show ?thesis
    by (cases "timers M = []") (simp_all add: expiredFunctions_def Let_def flip: t_def below_def same_def)
qed

lemma expired_pass:
  assumes "tm_inv M" "p \<notin> dom (objs M)"
  shows "fst (expiredFunctions now p M) =
      map (\<lambda>a. t_func (the (objs M a))) (filter (\<lambda>a. expire_of (objs M) a \<le> now) (timers M)) \<and>
    objs (snd (expiredFunctions now p M)) =
      (\<lambda>a. if a \<in> set (timers M) \<and> expire_of (objs M) a \<le> now
           then map_option (\<lambda>t. if recursive t then t\<lparr>expire := now + interval t\<rparr> else t\<lparr>t_func := None\<rparr>) (objs M a)
           else objs M a) \<and>
    tm_inv (snd (expiredFunctions now p M))"
proof -
  let ?le = "\<lambda>a. expire_of (objs M) a \<le> now"
  define N where "N = M\<lparr>timers := filter (\<lambda>a. \<not> ?le a) (timers M)\<rparr>"
  let ?as = "filter ?le (timers M)"
  have N: "objs N = objs M" "timers N = filter (\<lambda>a. \<not> ?le a) (timers M)" by (simp_all add: N_def)
  have s: "sorted_wrt (timer_less (objs M)) (timers M)"
      and m: "\<And>a. a \<in> set (timers M) \<longleftrightarrow> (\<exists>t. objs M a = Some t \<and> t_func t \<noteq> None)"
    using assms by (auto simp: tm_inv_def)
  have "distinct ?as" using tset.sorted_distinct [OF s] by simp
  moreover have "set ?as \<inter> set (timers N) = {}" using N by auto
  moreover have "\<forall>a \<in> set ?as. \<exists>t. objs N a = Some t \<and> t_func t \<noteq> None" using m N by simp
  moreover have "sorted_wrt (timer_less (objs N)) (timers N)" using s N by (simp add: sorted_wrt_filter)
  ultimately have *: "fst (fire now ?as N) = map (\<lambda>a. t_func (the (objs N a))) ?as"
    "objs (snd (fire now ?as N)) = (\<lambda>a. if a \<in> set ?as then map_option (fired now) (objs N a) else objs N a)"
    "set (timers (snd (fire now ?as N))) = set (timers N) \<union> {a \<in> set ?as. recursive (the (objs N a))}"
    "sorted_wrt (timer_less (objs (snd (fire now ?as N)))) (timers (snd (fire now ?as N)))"
    using fire_spec [of ?as N now] by blast+
  have "tm_inv (snd (fire now ?as N))"
    unfolding tm_inv_def
  proof (intro conjI allI)
    show "a \<in> set (timers (snd (fire now ?as N))) \<longleftrightarrow>
        (\<exists>t. objs (snd (fire now ?as N)) a = Some t \<and> t_func t \<noteq> None)" for a
      using m [of a] by (cases "objs M a") (auto simp: *(2,3) N fired_def)
  qed (rule *(4))
  moreover have fd: "(\<lambda>t. if recursive t then t\<lparr>expire := now + interval t\<rparr> else t\<lparr>t_func := None\<rparr>) = fired now"
    by (simp add: fired_def fun_eq_iff)
  ultimately show ?thesis
    using *(1,2) unfolding expiredFunctions_fire [OF assms] N_def [symmetric] N fd by simp
qed

text \<open>
  The states a program can bring the manager into: timers are created at fresh addresses with a
  callback, and any operation may follow at any time.
\<close>

inductive tm_reachable :: "'f time_manager \<Rightarrow> bool" where
  init: "tm_reachable new_TimeManager"
| add: "tm_reachable M \<Longrightarrow> a \<notin> dom (objs M) \<Longrightarrow> tm_reachable (addTimer now a itv (Some f) rec M)"
| cancel: "tm_reachable M \<Longrightarrow> tm_reachable (snd (cancel a M))"
| refresh: "tm_reachable M \<Longrightarrow> tm_reachable (snd (refresh now a M))"
| reset: "tm_reachable M \<Longrightarrow> tm_reachable (snd (timer_reset now itv fromNow a M))"
| get: "tm_reachable M \<Longrightarrow> tm_reachable (snd (getExpire now M))"
| expired: "tm_reachable M \<Longrightarrow> p \<notin> dom (objs M) \<Longrightarrow> tm_reachable (snd (expiredFunctions now p M))"

text \<open>
  C20. In every reachable state of the manager the set is strictly ordered by expiry time and
  address although the operations change the keys of its members, its members are exactly the timers
  that still have a callback, and so the operations never miss a timer they look up.
\<close>

theorem tm_reachable_inv:
  assumes "tm_reachable M"
  shows "tm_inv M"
  using assms
proof induction
  case init
  then show ?case by (simp add: tm_inv_def new_TimeManager_def)
qed (simp_all add: addTimer_inv cancel_inv refresh_inv timer_reset_inv getExpire_inv expired_pass)

theorem tm_reachable_inv_witness:
  "tm_reachable (snd (timer_reset 5 20 True 1 (addTimer 0 1 10 (Some True) False new_TimeManager))) \<and>
   tm_inv (snd (timer_reset 5 20 True 1 (addTimer 0 1 10 (Some True) False new_TimeManager)))"
proof -
  have "tm_reachable (snd (timer_reset 5 20 True 1 (addTimer 0 1 10 (Some True) False new_TimeManager)))"
    by (intro tm_reachable.intros) (simp add: new_TimeManager_def)
  then show ?thesis using tm_reachable_inv by blast
qed

text \<open>
  C21. A pass of \<open>expiredFunctions\<close> at time \<open>now\<close> returns the callbacks of exactly the timers that
  are due, ordered by expiry time and address. Every due recursive timer is armed again for
  \<open>now + interval\<close>, every due one-shot timer loses its callback, all others are untouched, and the
  set stays ordered. The address of the temporary key object does not matter.
\<close>

theorem expiredFunctions_spec:
  assumes "tm_inv M" "p \<notin> dom (objs M)"
  shows "fst (expiredFunctions now p M) =
      map (\<lambda>a. t_func (the (objs M a))) (filter (\<lambda>a. expire_of (objs M) a \<le> now) (timers M)) \<and>
    objs (snd (expiredFunctions now p M)) =
      (\<lambda>a. if a \<in> set (timers M) \<and> expire_of (objs M) a \<le> now
           then map_option (\<lambda>t. if recursive t then t\<lparr>expire := now + interval t\<rparr> else t\<lparr>t_func := None\<rparr>) (objs M a)
           else objs M a) \<and>
    tm_inv (snd (expiredFunctions now p M))"
  by (rule expired_pass [OF assms])

definition sample_timers :: "nat time_manager" where
  "sample_timers = addTimer 0 7 10 (Some 1) True (addTimer 0 5 10 (Some 2) False (addTimer 0 9 30 (Some 3) False new_TimeManager))"

lemma sample_timers_inv: "tm_inv sample_timers \<and> dom (objs sample_timers) = {5, 7, 9} \<and> timers sample_timers = [5, 7, 9]"
proof -
  have "tm_inv new_TimeManager" by (simp add: tm_inv_def new_TimeManager_def)
  then have "tm_inv sample_timers"
    unfolding sample_timers_def by (intro addTimer_inv) (auto simp: addTimer_def new_TimeManager_def Let_def)
  moreover have "dom (objs sample_timers) = {5, 7, 9}" by (auto simp: sample_timers_def addTimer_def new_TimeManager_def Let_def)
  moreover have "timers sample_timers = [5, 7, 9]"
    by (simp add: sample_timers_def addTimer_def new_TimeManager_def Let_def timer_less_iff expire_of_def)
  ultimately show ?thesis by blast
qed

lemma sample_timers_objs:
  "map (\<lambda>a. (expire_of (objs sample_timers) a, t_func (the (objs sample_timers a)))) [5, 7, 9] =
     [(10, Some 2), (10, Some 1), (30, Some 3)]"
  by (simp add: sample_timers_def addTimer_def Let_def expire_of_def)

theorem expiredFunctions_spec_witness:
  "tm_inv sample_timers \<and> fst (expiredFunctions 15 4 sample_timers) = [Some 2, Some 1]"
  using expiredFunctions_spec [of sample_timers 4 15] sample_timers_inv sample_timers_objs by simp



text \<open>
  The timeout for \<open>epoll_wait\<close>: -1 without timers, otherwise the time until the earliest
  expiry, 0 if that has passed. Waiting that long is enough: if nothing intervenes, a pass at the end
  of the wait has a callback to run.
\<close>

theorem getExpire_spec:
  assumes "tm_inv M" "p \<notin> dom (objs M)"
  shows "(fst (getExpire now M) = -1 \<longleftrightarrow> timers M = []) \<and>
    (timers M \<noteq> [] \<longrightarrow> fst (getExpire now M) = max 0 (Min (expire_of (objs M) ` set (timers M)) - now)) \<and>
    (timers M \<noteq> [] \<longrightarrow> fst (expiredFunctions (now + fst (getExpire now M)) p M) \<noteq> [])"
proof (cases "timers M")
  case Nil
  then show ?thesis by (simp add: getExpire_def)
next
  case (Cons a ts)
  have s: "sorted_wrt (timer_less (objs M)) (a # ts)" using assms(1) Cons by (simp add: tm_inv_def)
  have m: "Min (expire_of (objs M) ` set (timers M)) = expire_of (objs M) a"
    using s Cons by (intro Min_eqI) (auto simp: timer_less_iff)
  have g: "fst (getExpire now M) = max 0 (expire_of (objs M) a - now)"
    using Cons by (simp add: getExpire_def Let_def max_def)
  have "expire_of (objs M) a \<le> now + fst (getExpire now M)" using g by simp
  then have "filter (\<lambda>a. expire_of (objs M) a \<le> now + fst (getExpire now M)) (timers M) \<noteq> []" using Cons by simp
  moreover obtain t where "objs M a = Some t" using assms(1) Cons by (auto simp: tm_inv_def)
  moreover have "fst (fire n (b # bs) N) \<noteq> []" if "objs N b = Some t" for n b bs and N :: "'a time_manager" and t
    using that by (simp add: Let_def case_prod_beta)
  ultimately have "fst (expiredFunctions (now + fst (getExpire now M)) p M) \<noteq> []"
    using Cons \<open>expire_of (objs M) a \<le> now + fst (getExpire now M)\<close>
    by (simp add: expiredFunctions_fire [OF assms] del: fire.simps)
  then show ?thesis using g m Cons by simp
qed

theorem getExpire_spec_witness:
  "fst (getExpire 3 sample_timers) = 7 \<and> fst (expiredFunctions 10 4 sample_timers) \<noteq> []"
  using getExpire_spec [of sample_timers 4 3] sample_timers_inv sample_timers_objs by (auto simp: getExpire_def Let_def)

end
