(* ===== verification/Epoller.thy ===== *)
theory Epoller
  imports Timer "HOL-Library.Multiset"
begin

unbundle bit_operations_syntax

text \<open>
  \<open>src/reyao/epoller.h\<close> and \<open>epoller.cc\<close>: the table from descriptors to the tasks that wait for
  them, on top of the kernel's epoll. Event masks are 32 bit words. Tasks, workers and coroutines are
  numbers; \<open>'f\<close> is the type of callbacks. The kernel's part of the state is \<open>interest\<close>, the mask each
  descriptor is registered with, and \<open>pollable\<close>, the descriptors it accepts: \<open>epoll_ctl\<close> fails for an
  \<open>ADD\<close> of a registered or not pollable and a \<open>MOD\<close> or \<open>DEL\<close> of an unregistered descriptor. Tasks handed
  to workers are appended to \<open>scheduled\<close>.
\<close>

section \<open>State\<close>

definition EPOLLIN :: "32 word" where "EPOLLIN = 0x001"
definition EPOLLOUT :: "32 word" where "EPOLLOUT = 0x004"
definition EPOLLERR :: "32 word" where "EPOLLERR = 0x008"
definition EPOLLHUP :: "32 word" where "EPOLLHUP = 0x010"
definition EPOLLET :: "32 word" where "EPOLLET = 0x80000000"

lemmas epoll_bits = EPOLLIN_def EPOLLOUT_def EPOLLERR_def EPOLLHUP_def EPOLLET_def

datatype 'f task = Task_co nat | Task_func 'f

record 'f event_ctx =
  ctx_worker :: "nat option"
  ctx_co :: "nat option"
  ctx_func :: "'f option"

record 'f io_event =
  readEvent :: "'f event_ctx"
  writeEvent :: "'f event_ctx"
  types :: "32 word"
  ev_fd :: nat

record 'f epoller =
  ioEvents :: "'f io_event list"
  pendingEvents :: nat
  polling :: bool
  interest :: "(nat, 32 word) map"
  pollable :: "nat \<Rightarrow> bool"
  scheduled :: "(nat \<times> 'f task) list"
  wakeups :: nat

datatype ctl_op = EPOLL_CTL_ADD | EPOLL_CTL_MOD | EPOLL_CTL_DEL

fun epoll_ctl :: "(nat \<Rightarrow> bool) \<Rightarrow> ctl_op \<Rightarrow> nat \<Rightarrow> 32 word \<Rightarrow> (nat, 32 word) map \<Rightarrow> (nat, 32 word) map option" where
  "epoll_ctl p EPOLL_CTL_ADD fd m k = (if k fd = None \<and> p fd then Some (k(fd \<mapsto> m)) else None)"
| "epoll_ctl p EPOLL_CTL_MOD fd m k = (if k fd = None then None else Some (k(fd \<mapsto> m)))"
| "epoll_ctl p EPOLL_CTL_DEL fd m k = (if k fd = None then None else Some (k(fd := None)))"

definition empty_ctx :: "'f event_ctx" where
  "empty_ctx = \<lparr> ctx_worker = None, ctx_co = None, ctx_func = None \<rparr>"

definition new_IOEvent :: "nat \<Rightarrow> 'f io_event" where
  "new_IOEvent f = \<lparr> readEvent = empty_ctx, writeEvent = empty_ctx, types = 0, ev_fd = f \<rparr>"

definition new_Epoller :: "(nat \<Rightarrow> bool) \<Rightarrow> 'f epoller" where
  "new_Epoller p = \<lparr> ioEvents = [], pendingEvents = 0, polling = False, interest = Map.empty, pollable = p, scheduled = [], wakeups = 0 \<rparr>"

section \<open>Operations\<close>

definition getEventCtx :: "32 word \<Rightarrow> 'f io_event \<Rightarrow> 'f event_ctx res" where
  "getEventCtx type e =
     (if type = EPOLLIN then Inr (readEvent e)
      else if type = EPOLLOUT then Inr (writeEvent e)
      else Inl Assert_fail)"

definition setEventCtx :: "32 word \<Rightarrow> 'f event_ctx \<Rightarrow> 'f io_event \<Rightarrow> 'f io_event" where
  "setEventCtx type c e = (if type = EPOLLIN then e\<lparr>readEvent := c\<rparr> else e\<lparr>writeEvent := c\<rparr>)"

definition resetEventCtx :: "32 word \<Rightarrow> 'f io_event \<Rightarrow> 'f io_event res" where
  "resetEventCtx type e = rbind (getEventCtx type e) (\<lambda>_. Inr (setEventCtx type empty_ctx e))"

text \<open>
  \<open>triggleEvent\<close> moves the coroutine or callback out of the context into a task; an empty one adds
  no task. The context's worker is dereferenced.
\<close>

definition triggleEvent :: "32 word \<Rightarrow> 'f io_event \<Rightarrow> ('f io_event \<times> (nat \<times> 'f task) list) res" where
  "triggleEvent type e =
     (if types e AND type = 0 then Inl Assert_fail
      else let e = e\<lparr>types := types e AND NOT type\<rparr> in
        rbind (getEventCtx type e) (\<lambda>c.
          case ctx_worker c of
            None \<Rightarrow> Inl Memory_fault
          | Some w \<Rightarrow>
              (case ctx_co c of
                 Some co \<Rightarrow> Inr (setEventCtx type (c\<lparr>ctx_co := None, ctx_worker := None\<rparr>) e, [(w, Task_co co)])
               | None \<Rightarrow>
                   Inr (setEventCtx type (c\<lparr>ctx_func := None, ctx_worker := None\<rparr>) e,
                        case ctx_func c of None \<Rightarrow> [] | Some f \<Rightarrow> [(w, Task_func f)]))))"

text \<open>\<open>fd * 1.5\<close>, converted to \<open>size_t\<close>.\<close>

definition ep_resize :: "nat \<Rightarrow> 'f io_event list \<Rightarrow> 'f io_event list" where
  "ep_resize sz evs = take sz evs @ map new_IOEvent [length evs..<sz]"

definition addEvent :: "nat \<Rightarrow> 32 word \<Rightarrow> 'f option \<Rightarrow> nat \<Rightarrow> nat \<Rightarrow> 'f epoller \<Rightarrow> (bool \<times> 'f epoller) res" where
  "addEvent fd type func cur_worker cur_co E =
     (let E = (if length (ioEvents E) \<le> fd then E\<lparr>ioEvents := ep_resize (fd * 3 div 2) (ioEvents E)\<rparr> else E) in
      if length (ioEvents E) \<le> fd then Inl Memory_fault
      else
        let event = ioEvents E ! fd in
        if types event AND type \<noteq> 0 then Inr (False, E)
        else
          let op = (if types event \<noteq> 0 then EPOLL_CTL_MOD else EPOLL_CTL_ADD) in
          case epoll_ctl (pollable E) op fd (EPOLLET OR types event OR type) (interest E) of
            None \<Rightarrow> Inr (False, E)
          | Some k \<Rightarrow>
              let E = E\<lparr>interest := k, pendingEvents := size_add (pendingEvents E) 1\<rparr>;
                  event = event\<lparr>types := types event OR type\<rparr> in
              rbind (getEventCtx type event) (\<lambda>c.
                if ctx_co c \<noteq> None \<or> ctx_worker c \<noteq> None then Inl Assert_fail
                else
                  let c = c\<lparr>ctx_worker := Some cur_worker\<rparr>;
                      c = (case func of Some f \<Rightarrow> c\<lparr>ctx_func := Some f\<rparr> | None \<Rightarrow> c\<lparr>ctx_co := Some cur_co\<rparr>)
                  in Inr (True, E\<lparr>ioEvents := (ioEvents E)[fd := setEventCtx type c event]\<rparr>)))"

definition delEvent :: "nat \<Rightarrow> 32 word \<Rightarrow> 'f epoller \<Rightarrow> (bool \<times> 'f epoller) res" where
  "delEvent fd type E =
     (if length (ioEvents E) \<le> fd then Inr (False, E)
      else
        let event = ioEvents E ! fd in
        if types event AND type = 0 then Inr (False, E)
        else
          let newTypes = types event AND NOT type;
              op = (if newTypes \<noteq> 0 then EPOLL_CTL_MOD else EPOLL_CTL_DEL) in
          case epoll_ctl (pollable E) op fd (EPOLLET OR newTypes) (interest E) of
            None \<Rightarrow> Inr (False, E)
          | Some k \<Rightarrow>
              rbind (resetEventCtx type (event\<lparr>types := newTypes\<rparr>)) (\<lambda>event.
                Inr (True, E\<lparr>interest := k, pendingEvents := size_sub (pendingEvents E) 1,
                             ioEvents := (ioEvents E)[fd := event]\<rparr>)))"

text \<open>Triggering an event of the table: the task is scheduled and the pending count goes down.\<close>

definition trigger_at :: "nat \<Rightarrow> 32 word \<Rightarrow> 'f epoller \<Rightarrow> 'f epoller res" where
  "trigger_at fd type E =
     rbind (triggleEvent type (ioEvents E ! fd)) (\<lambda>(event, ts).
       Inr (E\<lparr>ioEvents := (ioEvents E)[fd := event], scheduled := scheduled E @ ts,
              pendingEvents := size_sub (pendingEvents E) 1\<rparr>))"

definition handleEvent :: "nat \<Rightarrow> 32 word \<Rightarrow> 'f epoller \<Rightarrow> (bool \<times> 'f epoller) res" where
  "handleEvent fd type E =
     (if length (ioEvents E) \<le> fd then Inr (False, E)
      else
        let event = ioEvents E ! fd in
        if types event AND type = 0 then Inr (False, E)
        else
          let newTypes = types event AND NOT type;
              op = (if newTypes \<noteq> 0 then EPOLL_CTL_MOD else EPOLL_CTL_DEL) in
          case epoll_ctl (pollable E) op fd (EPOLLET OR newTypes) (interest E) of
            None \<Rightarrow> Inr (False, E)
          | Some k \<Rightarrow> rbind (trigger_at fd type (E\<lparr>interest := k\<rparr>)) (\<lambda>E. Inr (True, E)))"

text \<open>The two conditional calls of \<open>triggleEvent\<close> at the end of \<open>handleAllEvent\<close> and of \<open>wait\<close>.\<close>

definition trigger_both :: "nat \<Rightarrow> bool \<Rightarrow> bool \<Rightarrow> 'f epoller \<Rightarrow> 'f epoller res" where
  "trigger_both fd rd wr E =
     rbind (if rd then trigger_at fd EPOLLIN E else Inr E) (\<lambda>E.
       if wr then trigger_at fd EPOLLOUT E else Inr E)"

definition handleAllEvent :: "nat \<Rightarrow> 'f epoller \<Rightarrow> (bool \<times> 'f epoller) res" where
  "handleAllEvent fd E =
     (if length (ioEvents E) \<le> fd then Inr (False, E)
      else
        let event = ioEvents E ! fd in
        if types event = 0 then Inr (False, E)
        else
          case epoll_ctl (pollable E) EPOLL_CTL_DEL fd 0 (interest E) of
            None \<Rightarrow> Inr (False, E)
          | Some k \<Rightarrow>
              rbind (trigger_both fd (types event AND EPOLLIN \<noteq> 0) (types event AND EPOLLOUT \<noteq> 0) (E\<lparr>interest := k\<rparr>))
                (\<lambda>E. Inr (True, E)))"

text \<open>
  \<open>wait\<close>: the clipped timeout, the expired timers, and the loop over what \<open>epoll_wait\<close> reported,
  the eventfd (\<open>Wake\<close>) or a descriptor with a mask. A failing \<open>epoll_ctl\<close> is only logged here.
\<close>

datatype ready = Wake | Ready nat "32 word"

definition clipTimeout :: "int \<Rightarrow> int" where
  "clipTimeout timeout = (if timeout \<noteq> -1 then if timeout > 5000 then 5000 else timeout else 5000)"

definition wait_one :: "ready \<Rightarrow> 'f epoller \<Rightarrow> 'f epoller res" where
  "wait_one r E =
     (case r of
        Wake \<Rightarrow> Inr E
      | Ready fd events \<Rightarrow>
          if length (ioEvents E) \<le> fd then Inl Memory_fault
          else
            let tys = types (ioEvents E ! fd);
                events = (if events AND (EPOLLERR OR EPOLLHUP) \<noteq> 0
                          then events OR ((EPOLLIN OR EPOLLOUT) AND tys) else events);
                realEvents = (if events AND EPOLLIN \<noteq> 0 then EPOLLIN else 0) OR
                             (if events AND EPOLLOUT \<noteq> 0 then EPOLLOUT else 0)
            in
            if tys AND realEvents = 0 then Inr E
            else
              let left_events = tys AND NOT realEvents;
                  op = (if left_events \<noteq> 0 then EPOLL_CTL_MOD else EPOLL_CTL_DEL);
                  k = (case epoll_ctl (pollable E) op fd (EPOLLET AND left_events) (interest E) of
                         None \<Rightarrow> interest E | Some k \<Rightarrow> k)
              in trigger_both fd (realEvents AND EPOLLIN \<noteq> 0) (realEvents AND EPOLLOUT \<noteq> 0) (E\<lparr>interest := k\<rparr>))"

fun wait_loop :: "ready list \<Rightarrow> 'f epoller \<Rightarrow> 'f epoller res" where
  "wait_loop [] E = Inr E"
| "wait_loop (r # rs) E = rbind (wait_one r E) (wait_loop rs)"

definition ep_wait ::
    "int \<Rightarrow> nat \<Rightarrow> nat \<Rightarrow> ready list \<Rightarrow> 'f time_manager \<Rightarrow> 'f epoller \<Rightarrow> ('f time_manager \<times> 'f epoller) res" where
  "ep_wait now p worker rs M E =
     (let (funcs, M) = expiredFunctions now p M;
          ts = concat (map (\<lambda>f. case f of None \<Rightarrow> [] | Some f \<Rightarrow> [(worker, Task_func f)]) funcs);
          E = E\<lparr>polling := False, scheduled := scheduled E @ ts\<rparr>
      in rbind (wait_loop rs E) (\<lambda>E. Inr (M, E)))"

definition ep_notify :: "'f epoller \<Rightarrow> 'f epoller" where
  "ep_notify E = (if \<not> polling E then E else E\<lparr>wakeups := wakeups E + 1\<rparr>)"

section \<open>Invariant\<close>

text \<open>The mask of a descriptor from what is registered for it, and the contexts that go with it.\<close>

definition ev_types :: "bool \<Rightarrow> bool \<Rightarrow> 32 word" where
  "ev_types r w = (if r then EPOLLIN else 0) OR (if w then EPOLLOUT else 0)"

definition ctx_ok :: "bool \<Rightarrow> 'f event_ctx \<Rightarrow> bool" where
  "ctx_ok on c \<longleftrightarrow> (if on then ctx_worker c \<noteq> None \<and> (ctx_co c = None \<longleftrightarrow> ctx_func c \<noteq> None) else c = empty_ctx)"

definition reads :: "'f io_event \<Rightarrow> bool" where "reads e \<longleftrightarrow> types e AND EPOLLIN \<noteq> 0"
definition writes :: "'f io_event \<Rightarrow> bool" where "writes e \<longleftrightarrow> types e AND EPOLLOUT \<noteq> 0"

definition event_ok :: "'f io_event \<Rightarrow> bool" where
  "event_ok e \<longleftrightarrow> types e = ev_types (reads e) (writes e) \<and> ctx_ok (reads e) (readEvent e) \<and> ctx_ok (writes e) (writeEvent e)"

definition ev_count :: "'f io_event \<Rightarrow> nat" where
  "ev_count e = of_bool (reads e) + of_bool (writes e)"

definition ev_mask :: "'f io_event \<Rightarrow> 32 word option" where
  "ev_mask e = (if types e = 0 then None else Some (EPOLLET OR types e))"

text \<open>
  The kernel's mask of an entry: what is registered, or nothing at all (not even edge triggered) for
  an entry that is still registered.
\<close>

definition mask_ok :: "32 word option \<Rightarrow> 'f io_event \<Rightarrow> bool" where
  "mask_ok m e \<longleftrightarrow> m = ev_mask e \<or> types e \<noteq> 0 \<and> m = Some 0"

definition ep_inv :: "'f epoller \<Rightarrow> bool" where
  "ep_inv E \<longleftrightarrow> list_all event_ok (ioEvents E) \<and> length (ioEvents E) \<le> 4294967296 \<and>
     pendingEvents E = sum_list (map ev_count (ioEvents E)) \<and>
     (\<forall>fd. if fd < length (ioEvents E) then mask_ok (interest E fd) (ioEvents E ! fd) else interest E fd = None)"

text \<open>The kernel watches each descriptor for exactly the registered types, edge triggered.\<close>

definition armed :: "'f epoller \<Rightarrow> bool" where
  "armed E \<longleftrightarrow> interest E = (\<lambda>fd. if fd < length (ioEvents E) then ev_mask (ioEvents E ! fd) else None)"

lemma ev_types_bits [simp]:
  "ev_types r w AND EPOLLIN \<noteq> 0 \<longleftrightarrow> r" "ev_types r w AND EPOLLOUT \<noteq> 0 \<longleftrightarrow> w"
  "ev_types r w AND EPOLLIN = 0 \<longleftrightarrow> \<not> r" "ev_types r w AND EPOLLOUT = 0 \<longleftrightarrow> \<not> w"
  "ev_types r w AND NOT EPOLLIN = ev_types False w" "ev_types r w AND NOT EPOLLOUT = ev_types r False"
  "ev_types r w OR EPOLLIN = ev_types True w" "ev_types r w OR EPOLLOUT = ev_types r True"
  "ev_types r w = 0 \<longleftrightarrow> \<not> r \<and> \<not> w"
  by (cases r; cases w; simp add: ev_types_def epoll_bits)+

lemma ep_sum_update:
  "i < length xs \<Longrightarrow> sum_list (map f (xs[i := y])) + f (xs ! i) = sum_list (map f xs) + (f y :: 'a :: comm_monoid_add)"
  by (induction xs arbitrary: i) (auto split: nat.split simp: ac_simps)

lemma ep_count_le: "sum_list (map ev_count xs) \<le> 2 * length xs"
  by (induction xs) (auto simp: ev_count_def of_bool_def)

lemma ep_inv_pending: "ep_inv E \<Longrightarrow> pendingEvents E \<le> 8589934592"
  using ep_count_le [of "ioEvents E"] by (simp add: ep_inv_def)

text \<open>Replacing one entry together with its kernel mask and its share of the pending count keeps the invariant.\<close>

lemma ep_inv_update:
  assumes "ep_inv E" "fd < length (ioEvents E)" "event_ok e"
    and "pendingEvents E + ev_count e = n + ev_count (ioEvents E ! fd)"
    and "mask_ok m e"
  shows "ep_inv (E\<lparr>ioEvents := (ioEvents E)[fd := e], interest := (interest E)(fd := m), pendingEvents := n, scheduled := ts\<rparr>)"
proof -
  have "n = sum_list (map ev_count ((ioEvents E)[fd := e]))"
    using ep_sum_update [OF assms(2), of ev_count e] assms(1,4) by (simp add: ep_inv_def)
  moreover have "list_all event_ok ((ioEvents E)[fd := e])"
    using assms(1,3) by (auto simp: ep_inv_def list_all_iff dest!: set_update_subset_insert [THEN subsetD])
  ultimately show ?thesis using assms(1,2,5) by (auto simp: ep_inv_def nth_list_update)
qed

lemma armed_update:
  "armed E \<Longrightarrow> fd < length (ioEvents E) \<Longrightarrow>
   armed (E\<lparr>ioEvents := (ioEvents E)[fd := e], interest := (interest E)(fd := ev_mask e), pendingEvents := n, scheduled := ts\<rparr>)"
  by (auto simp: armed_def fun_eq_iff nth_list_update)

text \<open>The context and the flag of a type, so that both types share their lemmas.\<close>

definition ctx_of :: "32 word \<Rightarrow> 'f io_event \<Rightarrow> 'f event_ctx" where
  "ctx_of type e = (if type = EPOLLIN then readEvent e else writeEvent e)"

definition io_type :: "32 word \<Rightarrow> bool" where
  "io_type type \<longleftrightarrow> type = EPOLLIN \<or> type = EPOLLOUT"

definition registered :: "nat \<Rightarrow> 32 word \<Rightarrow> 'f epoller \<Rightarrow> bool" where
  "registered fd type E \<longleftrightarrow> fd < length (ioEvents E) \<and> types (ioEvents E ! fd) AND type \<noteq> 0"

lemma type_distinct [simp]: "EPOLLOUT \<noteq> EPOLLIN" "EPOLLIN \<noteq> EPOLLOUT" "EPOLLIN \<noteq> 0" "EPOLLOUT \<noteq> 0"
  by (simp_all add: epoll_bits)

definition ctx_task :: "'f event_ctx \<Rightarrow> 'f task" where
  "ctx_task c = (case ctx_co c of Some co \<Rightarrow> Task_co co | None \<Rightarrow> Task_func (the (ctx_func c)))"

definition without :: "32 word \<Rightarrow> 'f io_event \<Rightarrow> 'f io_event" where
  "without type e = setEventCtx type empty_ctx (e\<lparr>types := types e AND NOT type\<rparr>)"

lemma event_okE:
  assumes "event_ok e"
  obtains r w where "types e = ev_types r w" "ctx_ok r (readEvent e)" "ctx_ok w (writeEvent e)" "reads e = r" "writes e = w"
  using assms by (auto simp: event_ok_def)

lemma reads_writes: "types e = ev_types r w \<Longrightarrow> reads e = r \<and> writes e = w"
  by (simp add: reads_def writes_def)

lemma event_okI: "types e = ev_types r w \<Longrightarrow> ctx_ok r (readEvent e) \<Longrightarrow> ctx_ok w (writeEvent e) \<Longrightarrow> event_ok e"
  using reads_writes [of e r w] by (simp add: event_ok_def)

lemma without_ok:
  assumes "event_ok e" "io_type type" "types e AND type \<noteq> 0"
  shows "event_ok (without type e)" and "ev_count e = ev_count (without type e) + 1"
    and "types (without type e) = types e AND NOT type"
proof -
  from assms(1) obtain r w where e: "types e = ev_types r w" "ctx_ok r (readEvent e)" "ctx_ok w (writeEvent e)"
      "reads e = r" "writes e = w"
    by (rule event_okE)
  show t: "types (without type e) = types e AND NOT type" by (simp add: without_def setEventCtx_def)
  have z: "ctx_ok False (empty_ctx :: 'a event_ctx)" by (simp add: ctx_ok_def)
  consider (rd) "type = EPOLLIN" "r" | (wr) "type = EPOLLOUT" "w"
    using assms(2,3) e(1) by (auto simp: io_type_def)
  then have "event_ok (without type e) \<and> ev_count e = ev_count (without type e) + 1"
  proof cases
    case rd
    have t': "types (without type e) = ev_types False w" using t e(1) rd by simp
    have "event_ok (without type e)"
      by (rule event_okI [OF t']) (use rd e(3) z in \<open>simp_all add: without_def setEventCtx_def\<close>)
    with reads_writes [OF t'] e(4,5) rd show ?thesis by (simp add: ev_count_def)
  next
    case wr
    have t': "types (without type e) = ev_types r False" using t e(1) wr by simp
    have "event_ok (without type e)"
      by (rule event_okI [OF t']) (use wr e(2) z in \<open>simp_all add: without_def setEventCtx_def\<close>)
    with reads_writes [OF t'] e(4,5) wr show ?thesis by (simp add: ev_count_def)
  qed
  then show "event_ok (without type e)" "ev_count e = ev_count (without type e) + 1" by blast+
qed

lemma ctx_clear: "ctx_ok True c \<Longrightarrow> c\<lparr>ctx_co := None, ctx_worker := None\<rparr> = empty_ctx \<or> ctx_co c = None"
    "ctx_ok True c \<Longrightarrow> ctx_co c = None \<Longrightarrow> c\<lparr>ctx_func := None, ctx_worker := None\<rparr> = empty_ctx"
  by (cases c; auto simp: ctx_ok_def empty_ctx_def)+

lemma trigger_spec:
  assumes "event_ok e" "io_type type" "types e AND type \<noteq> 0"
  shows "triggleEvent type e = Inr (without type e, [(the (ctx_worker (ctx_of type e)), ctx_task (ctx_of type e))])"
proof -
  from assms have c: "ctx_ok True (ctx_of type e)"
    by (auto simp: io_type_def ctx_of_def elim!: event_okE)
  then obtain w where w: "ctx_worker (ctx_of type e) = Some w" by (auto simp: ctx_ok_def)
  have g: "getEventCtx type (e\<lparr>types := x\<rparr>) = Inr (ctx_of type e)" for x
    using assms(2) by (auto simp: getEventCtx_def ctx_of_def io_type_def)
  show ?thesis
  proof (cases "ctx_co (ctx_of type e)")
    case None
    then obtain f where "ctx_func (ctx_of type e) = Some f" using c by (auto simp: ctx_ok_def)
    with None assms(3) g w ctx_clear(2) [OF c] show ?thesis
      by (simp add: triggleEvent_def Let_def without_def ctx_task_def)
  next
    case (Some co)
    with assms(3) g w ctx_clear(1) [OF c] show ?thesis
      by (simp add: triggleEvent_def Let_def without_def ctx_task_def)
  qed
qed

section \<open>The operations\<close>

lemma ep_inv_event: "ep_inv E \<Longrightarrow> fd < length (ioEvents E) \<Longrightarrow> event_ok (ioEvents E ! fd)"
  by (simp add: ep_inv_def list_all_length)

lemma ep_inv_mask: "ep_inv E \<Longrightarrow> fd < length (ioEvents E) \<Longrightarrow> mask_ok (interest E fd) (ioEvents E ! fd)"
  unfolding ep_inv_def by meson

lemma ep_inv_interest: "ep_inv E \<Longrightarrow> fd < length (ioEvents E) \<Longrightarrow> interest E fd \<noteq> None \<longleftrightarrow> types (ioEvents E ! fd) \<noteq> 0"
  using ep_inv_mask [of E fd] by (auto simp: mask_ok_def ev_mask_def split: if_splits)

lemma size_sub_1: "0 < n \<Longrightarrow> n \<le> 8589934592 \<Longrightarrow> size_sub n (Suc 0) = n - Suc 0"
  by (simp add: size_simps)

text \<open>Taking one type off an entry: what \<open>delEvent\<close> and \<open>handleEvent\<close> have in common.\<close>

lemma ctl_without:
  assumes "ep_inv E" "registered fd type E" "io_type type"
  shows "epoll_ctl p (if types (ioEvents E ! fd) AND NOT type \<noteq> 0 then EPOLL_CTL_MOD else EPOLL_CTL_DEL) fd
      (EPOLLET OR (types (ioEvents E ! fd) AND NOT type)) (interest E) =
    Some ((interest E)(fd := ev_mask (without type (ioEvents E ! fd))))"
proof -
  have r: "fd < length (ioEvents E)" "types (ioEvents E ! fd) AND type \<noteq> 0" using assms(2) by (auto simp: registered_def)
  then have "types (ioEvents E ! fd) \<noteq> 0" by auto
  then obtain x where "interest E fd = Some x" using ep_inv_interest [OF assms(1) r(1)] by auto
  with without_ok(3) [OF ep_inv_event [OF assms(1) r(1)] assms(3) r(2)] show ?thesis by (simp add: ev_mask_def)
qed

lemma without_inv:
  assumes "ep_inv E" "registered fd type E" "io_type type"
  shows "ep_inv (E\<lparr>ioEvents := (ioEvents E)[fd := without type (ioEvents E ! fd)],
      interest := (interest E)(fd := ev_mask (without type (ioEvents E ! fd))),
      pendingEvents := size_sub (pendingEvents E) 1, scheduled := ts\<rparr>)"
proof -
  have r: "fd < length (ioEvents E)" "types (ioEvents E ! fd) AND type \<noteq> 0" using assms(2) by (auto simp: registered_def)
  note w = without_ok [OF ep_inv_event [OF assms(1) r(1)] assms(3) r(2)]
  have "ev_count (ioEvents E ! fd) \<le> pendingEvents E"
    using assms(1) r(1) member_le_sum_list [of "ev_count (ioEvents E ! fd)" "map ev_count (ioEvents E)"]
    by (simp add: ep_inv_def)
  then have "size_sub (pendingEvents E) 1 = pendingEvents E - 1" "0 < pendingEvents E"
    using w(2) ep_inv_pending [OF assms(1)] by (simp_all add: size_sub_1)
  with w show ?thesis by (intro ep_inv_update [OF assms(1) r(1)]) (simp_all add: mask_ok_def)
qed

lemma delEvent_spec:
  assumes "ep_inv E" "io_type type"
  shows "if registered fd type E
    then delEvent fd type E = Inr (True, E\<lparr>ioEvents := (ioEvents E)[fd := without type (ioEvents E ! fd)],
      interest := (interest E)(fd := ev_mask (without type (ioEvents E ! fd))), pendingEvents := size_sub (pendingEvents E) 1\<rparr>)
    else delEvent fd type E = Inr (False, E)"
proof (cases "registered fd type E")
  case True
  have "resetEventCtx type (e\<lparr>types := types e AND NOT type\<rparr>) = Inr (without type e)" for e :: "'a io_event"
    using assms(2) by (auto simp: resetEventCtx_def getEventCtx_def io_type_def without_def)
  with True ctl_without [OF assms(1) True assms(2)] show ?thesis
    by (simp add: delEvent_def Let_def registered_def not_le)
qed (auto simp: delEvent_def Let_def registered_def not_le)

lemma trigger_at_spec:
  assumes "ep_inv E" "registered fd type E" "io_type type"
  shows "trigger_at fd type (E\<lparr>interest := k\<rparr>) = Inr (E\<lparr>interest := k,
      ioEvents := (ioEvents E)[fd := without type (ioEvents E ! fd)],
      scheduled := scheduled E @ [(the (ctx_worker (ctx_of type (ioEvents E ! fd))), ctx_task (ctx_of type (ioEvents E ! fd)))],
      pendingEvents := size_sub (pendingEvents E) 1\<rparr>)"
  using assms trigger_spec [OF ep_inv_event [OF assms(1)], of fd type]
  by (simp add: trigger_at_def registered_def)

lemma handleEvent_spec:
  assumes "ep_inv E" "io_type type"
  shows "if registered fd type E
    then handleEvent fd type E = Inr (True, E\<lparr>ioEvents := (ioEvents E)[fd := without type (ioEvents E ! fd)],
      interest := (interest E)(fd := ev_mask (without type (ioEvents E ! fd))), pendingEvents := size_sub (pendingEvents E) 1,
      scheduled := scheduled E @ [(the (ctx_worker (ctx_of type (ioEvents E ! fd))), ctx_task (ctx_of type (ioEvents E ! fd)))]\<rparr>)
    else handleEvent fd type E = Inr (False, E)"
proof (cases "registered fd type E")
  case True
  with ctl_without [OF assms(1) True assms(2)] trigger_at_spec [OF assms(1) True assms(2)] show ?thesis
    by (simp add: handleEvent_def Let_def registered_def not_le)
qed (auto simp: handleEvent_def Let_def registered_def not_le)

text \<open>Growing the table.\<close>

lemma new_IOEvent_ok: "event_ok (new_IOEvent i)" "ev_count (new_IOEvent i) = 0" "ev_mask (new_IOEvent i) = None"
  by (simp_all add: event_ok_def ev_count_def ev_mask_def reads_def writes_def new_IOEvent_def ctx_ok_def ev_types_def)

lemma ep_resize_inv:
  fixes E :: "'f epoller"
  assumes "ep_inv E" "length (ioEvents E) \<le> sz" "sz \<le> 4294967296"
  shows "ep_inv (E\<lparr>ioEvents := ep_resize sz (ioEvents E)\<rparr>)" and "length (ep_resize sz (ioEvents E)) = sz"
    and "armed E \<Longrightarrow> armed (E\<lparr>ioEvents := ep_resize sz (ioEvents E)\<rparr>)"
proof -
  show l: "length (ep_resize sz (ioEvents E)) = sz" using assms(2) by (simp add: ep_resize_def)
  let ?new = "map new_IOEvent [length (ioEvents E)..<sz] :: 'f io_event list"
  have r: "ep_resize sz (ioEvents E) = ioEvents E @ ?new" using assms(2) by (simp add: ep_resize_def)
  have "sum_list (map ev_count ?new) = 0" by (simp add: new_IOEvent_ok comp_def)
  moreover have "if fd < sz then mask_ok (interest E fd) ((ioEvents E @ ?new) ! fd) else interest E fd = None" for fd
    using ep_inv_mask [OF assms(1), of fd] assms(1,2)
    by (cases "fd < length (ioEvents E)") (auto simp: ep_inv_def nth_append mask_ok_def new_IOEvent_ok)
  moreover have "list_all event_ok (ioEvents E @ ?new)"
    using assms(1) by (auto simp: ep_inv_def list_all_iff new_IOEvent_ok)
  ultimately show "ep_inv (E\<lparr>ioEvents := ep_resize sz (ioEvents E)\<rparr>)"
    using assms l unfolding ep_inv_def r by (simp del: map_map)
  show "armed (E\<lparr>ioEvents := ep_resize sz (ioEvents E)\<rparr>)" if "armed E"
    using that assms(2) by (auto simp: r armed_def fun_eq_iff nth_append new_IOEvent_ok)
qed

text \<open>Adding one type to an entry.\<close>

definition new_ctx :: "'f option \<Rightarrow> nat \<Rightarrow> nat \<Rightarrow> 'f event_ctx" where
  "new_ctx func w co = \<lparr> ctx_worker = Some w, ctx_co = (if func = None then Some co else None), ctx_func = func \<rparr>"

definition joined :: "32 word \<Rightarrow> 'f event_ctx \<Rightarrow> 'f io_event \<Rightarrow> 'f io_event" where
  "joined type c e = setEventCtx type c (e\<lparr>types := types e OR type\<rparr>)"

definition grown :: "nat \<Rightarrow> 'f epoller \<Rightarrow> 'f epoller" where
  "grown fd E = (if length (ioEvents E) \<le> fd then E\<lparr>ioEvents := ep_resize (fd * 3 div 2) (ioEvents E)\<rparr> else E)"

lemma grown_inv:
  assumes "ep_inv E" "fd < length (ioEvents E) \<or> 2 \<le> fd" "fd < 2147483648"
  shows "ep_inv (grown fd E)" and "fd < length (ioEvents (grown fd E))" and "armed E \<Longrightarrow> armed (grown fd E)"
  using assms ep_resize_inv [OF assms(1), of "fd * 3 div 2"] by (auto simp: grown_def)

lemma joined_ok:
  assumes "event_ok e" "io_type type" "types e AND type = 0"
  shows "event_ok (joined type (new_ctx func w co) e)" and "ev_count (joined type (new_ctx func w co) e) = ev_count e + 1"
    and "ctx_of type e = empty_ctx" and "types (joined type c e) \<noteq> 0"
proof -
  from assms(1) obtain r v where e: "types e = ev_types r v" "ctx_ok r (readEvent e)" "ctx_ok v (writeEvent e)"
      "reads e = r" "writes e = v"
    by (rule event_okE)
  let ?e = "joined type (new_ctx func w co) e"
  have c: "ctx_ok True (new_ctx func w co)" by (simp add: ctx_ok_def new_ctx_def)
  consider (rd) "type = EPOLLIN" "\<not> r" | (wr) "type = EPOLLOUT" "\<not> v"
    using assms(2,3) e(1) by (auto simp: io_type_def)
  then have "event_ok ?e \<and> ev_count ?e = ev_count e + 1 \<and> ctx_of type e = empty_ctx \<and> types (joined type c e) \<noteq> 0"
  proof cases
    case rd
    have t: "types ?e = ev_types True v" "types (joined type c e) = ev_types True v"
      using e(1) rd by (simp_all add: joined_def setEventCtx_def)
    have "event_ok ?e"
      by (rule event_okI [OF t(1)]) (use rd e(3) c in \<open>simp_all add: joined_def setEventCtx_def\<close>)
    with reads_writes [OF t(1)] e rd t show ?thesis by (simp add: ev_count_def ctx_of_def ctx_ok_def)
  next
    case wr
    have t: "types ?e = ev_types r True" "types (joined type c e) = ev_types r True"
      using e(1) wr by (simp_all add: joined_def setEventCtx_def)
    have "event_ok ?e"
      by (rule event_okI [OF t(1)]) (use wr e(2) c in \<open>simp_all add: joined_def setEventCtx_def\<close>)
    with reads_writes [OF t(1)] e wr t show ?thesis by (simp add: ev_count_def ctx_of_def ctx_ok_def)
  qed
  then show "event_ok ?e" "ev_count ?e = ev_count e + 1" "ctx_of type e = empty_ctx" "types (joined type c e) \<noteq> 0"
    by blast+
qed

lemma addEvent_in:
  fixes func :: "'f option" and w co :: nat and E :: "'f epoller"
  assumes "ep_inv E" "io_type type" "fd < length (ioEvents E)"
  defines "e \<equiv> ioEvents E ! fd"
  defines "e' \<equiv> joined type (new_ctx func w co) e"
  shows "addEvent fd type func w co E =
    (if registered fd type E \<or> types e = 0 \<and> \<not> pollable E fd then Inr (False, E)
     else Inr (True, E\<lparr>ioEvents := (ioEvents E)[fd := e'], interest := (interest E)(fd := ev_mask e'),
       pendingEvents := pendingEvents E + 1\<rparr>))"
proof (cases "types e AND type = 0")
  case True
  note i = joined_ok [OF ep_inv_event [OF assms(1,3)] assms(2) True [unfolded e_def], folded e_def]
  have l: "length (ioEvents E) \<le> fd \<longleftrightarrow> False" using assms(3) by simp
  have s: "size_add (pendingEvents E) 1 = pendingEvents E + 1"
    using ep_inv_pending [OF assms(1)] by (simp add: size_simps)
  have c: "getEventCtx type (e\<lparr>types := x\<rparr>) = Inr empty_ctx" for x
    using assms(2) i(3) by (auto simp: getEventCtx_def ctx_of_def io_type_def split: if_splits)
  have x: "(case func of Some f \<Rightarrow> empty_ctx\<lparr>ctx_worker := Some w, ctx_func := Some f\<rparr>
        | None \<Rightarrow> empty_ctx\<lparr>ctx_worker := Some w, ctx_co := Some co\<rparr>) = new_ctx func w co"
    by (simp add: new_ctx_def empty_ctx_def split: option.split)
  have em: "ctx_co empty_ctx = None" "ctx_worker empty_ctx = None" by (simp_all add: empty_ctx_def)
  have m: "ev_mask e' = Some (EPOLLET OR types e OR type)"
    using i(4) by (simp add: ev_mask_def e'_def) (simp add: joined_def setEventCtx_def or.assoc)
  have k: "epoll_ctl (pollable E) (if types e \<noteq> 0 then EPOLL_CTL_MOD else EPOLL_CTL_ADD) fd
      (EPOLLET OR types e OR type) (interest E) =
    (if types e = 0 \<and> \<not> pollable E fd then None else Some ((interest E)(fd := ev_mask e')))"
    using ep_inv_interest [OF assms(1,3)] by (auto simp: m e_def)
  have f: "e' = setEventCtx type (new_ctx func w co) (e\<lparr>types := types e OR type\<rparr>)"
    by (simp add: e'_def joined_def)
  have r: "\<not> registered fd type E" using True by (simp add: registered_def e_def)
  show ?thesis
    unfolding addEvent_def Let_def l if_False e_def [symmetric] k using True r
    by (simp add: s [simplified] c em x f)
next
  case False
  with assms(3) show ?thesis by (simp add: addEvent_def Let_def registered_def e_def)
qed

lemma addEvent_grown:
  "fd < length (ioEvents (grown fd E)) \<Longrightarrow> addEvent fd type func w co E = addEvent fd type func w co (grown fd E)"
  by (simp add: grown_def addEvent_def Let_def)

lemma addEvent_spec:
  fixes func :: "'f option" and w co :: nat and E :: "'f epoller"
  assumes "ep_inv E" "io_type type" "fd < length (ioEvents E) \<or> 2 \<le> fd" "fd < 2147483648"
  defines "E' \<equiv> grown fd E"
  defines "e' \<equiv> joined type (new_ctx func w co) (ioEvents E' ! fd)"
  shows "addEvent fd type func w co E =
    (if registered fd type E' \<or> types (ioEvents E' ! fd) = 0 \<and> \<not> pollable E fd then Inr (False, E')
     else Inr (True, E'\<lparr>ioEvents := (ioEvents E')[fd := e'], interest := (interest E')(fd := ev_mask e'),
       pendingEvents := pendingEvents E' + 1\<rparr>))"
proof -
  note g = grown_inv [OF assms(1,3,4), folded E'_def]
  have p: "pollable E' = pollable E" by (simp add: E'_def grown_def)
  show ?thesis
    unfolding addEvent_grown [OF g(2) [unfolded E'_def], of type func w co, folded E'_def]
      addEvent_in [OF g(1) assms(2) g(2), of func w co] p e'_def
    by (rule refl)
qed

section \<open>Triggering both types\<close>

definition due :: "bool \<Rightarrow> bool \<Rightarrow> 'f io_event \<Rightarrow> (nat \<times> 'f task) list" where
  "due rd wr e =
     (if rd then [(the (ctx_worker (readEvent e)), ctx_task (readEvent e))] else []) @
     (if wr then [(the (ctx_worker (writeEvent e)), ctx_task (writeEvent e))] else [])"

definition strip :: "bool \<Rightarrow> bool \<Rightarrow> 'f io_event \<Rightarrow> 'f io_event" where
  "strip rd wr e = (if wr then without EPOLLOUT else id) ((if rd then without EPOLLIN else id) e)"

lemma without_types:
  "types (without EPOLLIN e) = types e AND NOT EPOLLIN" "types (without EPOLLOUT e) = types e AND NOT EPOLLOUT"
  "writeEvent (without EPOLLIN e) = writeEvent e" "readEvent (without EPOLLOUT e) = readEvent e"
  by (simp_all add: without_def setEventCtx_def)

lemma strip_types: "event_ok e \<Longrightarrow> types (strip rd wr e) = ev_types (reads e \<and> \<not> rd) (writes e \<and> \<not> wr)"
  by (elim event_okE) (simp add: strip_def without_types)

lemma ep_inv_remask:
  assumes "ep_inv E" "fd < length (ioEvents E)" "mask_ok m (ioEvents E ! fd)"
  shows "ep_inv (E\<lparr>interest := (interest E)(fd := m)\<rparr>)"
  using ep_inv_update [OF assms(1,2) ep_inv_event [OF assms(1,2)], of "pendingEvents E" m "scheduled E"] assms(3) by simp

definition trigger_one :: "nat \<Rightarrow> 32 word \<Rightarrow> 'f epoller \<Rightarrow> 'f epoller" where
  "trigger_one fd type E = E\<lparr>ioEvents := (ioEvents E)[fd := without type (ioEvents E ! fd)],
     interest := (interest E)(fd := ev_mask (without type (ioEvents E ! fd))), pendingEvents := size_sub (pendingEvents E) 1,
     scheduled := scheduled E @ [(the (ctx_worker (ctx_of type (ioEvents E ! fd))), ctx_task (ctx_of type (ioEvents E ! fd)))]\<rparr>"

lemma trigger_one_ok:
  assumes "ep_inv E" "registered fd type E" "io_type type"
  shows "ep_inv (trigger_one fd type E)" and "trigger_at fd type (E\<lparr>interest := k\<rparr>) = Inr (trigger_one fd type E\<lparr>interest := k\<rparr>)"
  using without_inv [OF assms] trigger_at_spec [OF assms] by (simp_all add: trigger_one_def)

lemma trigger_both_spec:
  fixes E :: "'f epoller"
  assumes "ep_inv E" "fd < length (ioEvents E)" and "rd \<Longrightarrow> reads (ioEvents E ! fd)" "wr \<Longrightarrow> writes (ioEvents E ! fd)"
  obtains n where
    "\<And>k. trigger_both fd rd wr (E\<lparr>interest := k\<rparr>) = Inr (E\<lparr>ioEvents := (ioEvents E)[fd := strip rd wr (ioEvents E ! fd)],
       interest := k, pendingEvents := n, scheduled := scheduled E @ due rd wr (ioEvents E ! fd)\<rparr>)"
    "\<And>m. mask_ok m (strip rd wr (ioEvents E ! fd)) \<Longrightarrow> ep_inv (E\<lparr>ioEvents := (ioEvents E)[fd := strip rd wr (ioEvents E ! fd)],
       interest := (interest E)(fd := m), pendingEvents := n, scheduled := scheduled E @ due rd wr (ioEvents E ! fd)\<rparr>)"
proof -
  define E1 where "E1 = (if rd then trigger_one fd EPOLLIN E else E)"
  define E2 where "E2 = (if wr then trigger_one fd EPOLLOUT E1 else E1)"
  let ?e = "ioEvents E ! fd"
  obtain r w where e: "types ?e = ev_types r w" "reads ?e = r" "writes ?e = w"
    using ep_inv_event [OF assms(1,2)] by (elim event_okE)
  have 1: "ep_inv E1 \<and> (if rd then trigger_at fd EPOLLIN (E\<lparr>interest := k\<rparr>) else Inr (E\<lparr>interest := k\<rparr>)) = Inr (E1\<lparr>interest := k\<rparr>)" for k
    using assms trigger_one_ok [OF assms(1), of fd EPOLLIN] by (auto simp: E1_def registered_def io_type_def reads_def)
  have n1: "ioEvents E1 ! fd = strip rd False ?e" "length (ioEvents E1) = length (ioEvents E)"
    using assms(2) by (auto simp: E1_def trigger_one_def strip_def)
  have "wr \<Longrightarrow> registered fd EPOLLOUT E1"
    using assms(2,4) n1 e strip_types [OF ep_inv_event [OF assms(1,2)], of rd False] by (simp add: registered_def)
  then have 2: "ep_inv E2 \<and> trigger_both fd rd wr (E\<lparr>interest := k\<rparr>) = Inr (E2\<lparr>interest := k\<rparr>)" for k
    using 1 [of k] trigger_one_ok [of E1 fd EPOLLOUT] by (auto simp: E2_def trigger_both_def io_type_def)
  have x: "E2\<lparr>interest := k\<rparr> = E\<lparr>ioEvents := (ioEvents E)[fd := strip rd wr ?e], interest := k, pendingEvents := pendingEvents E2,
      scheduled := scheduled E @ due rd wr ?e\<rparr>" for k
    using assms(2) by (cases rd; cases wr) (simp_all add: E2_def E1_def trigger_one_def strip_def due_def ctx_of_def without_types)
  have i: "(interest E2)(fd := m) = (interest E)(fd := m)" for m
    by (auto simp: E2_def E1_def trigger_one_def)
  have y: "fd < length (ioEvents E2)" "ioEvents E2 ! fd = strip rd wr ?e"
    using assms(2) by (cases rd; cases wr; simp add: E2_def E1_def trigger_one_def strip_def)+
  show ?thesis
  proof (rule that)
    fix m assume "mask_ok m (strip rd wr ?e)"
    with ep_inv_remask [of E2 fd m] 2 y i [of m] show "ep_inv (E\<lparr>ioEvents := (ioEvents E)[fd := strip rd wr ?e],
       interest := (interest E)(fd := m), pendingEvents := pendingEvents E2, scheduled := scheduled E @ due rd wr ?e\<rparr>)"
      by (simp add: x)
  qed (simp add: 2 x)
qed

section \<open>What a report does\<close>

text \<open>
  \<open>epoll_wait\<close> reports descriptors it watches, each once, with the requested bits, \<open>EPOLLERR\<close> and
  \<open>EPOLLHUP\<close>.
\<close>

fun ready_ok :: "'f epoller \<Rightarrow> ready \<Rightarrow> bool" where
  "ready_ok E Wake \<longleftrightarrow> True"
| "ready_ok E (Ready fd ev) \<longleftrightarrow>
     (case interest E fd of
        None \<Rightarrow> False
      | Some m \<Rightarrow> (ev AND EPOLLIN \<noteq> 0 \<longrightarrow> m AND EPOLLIN \<noteq> 0) \<and> (ev AND EPOLLOUT \<noteq> 0 \<longrightarrow> m AND EPOLLOUT \<noteq> 0))"

fun ready_fds :: "ready list \<Rightarrow> nat list" where
  "ready_fds [] = []"
| "ready_fds (Wake # rs) = ready_fds rs"
| "ready_fds (Ready fd ev # rs) = fd # ready_fds rs"

definition reports_ok :: "'f epoller \<Rightarrow> ready list \<Rightarrow> bool" where
  "reports_ok E rs \<longleftrightarrow> distinct (ready_fds rs) \<and> list_all (ready_ok E) rs"

definition hup :: "32 word \<Rightarrow> bool" where "hup ev \<longleftrightarrow> ev AND (EPOLLERR OR EPOLLHUP) \<noteq> 0"

definition fires_read :: "32 word \<Rightarrow> 'f io_event \<Rightarrow> bool" where
  "fires_read ev e \<longleftrightarrow> reads e \<and> (hup ev \<or> ev AND EPOLLIN \<noteq> 0)"

definition fires_write :: "32 word \<Rightarrow> 'f io_event \<Rightarrow> bool" where
  "fires_write ev e \<longleftrightarrow> writes e \<and> (hup ev \<or> ev AND EPOLLOUT \<noteq> 0)"

lemma io_bits: "x AND EPOLLIN = 0 \<longleftrightarrow> \<not> bit x 0" "x AND EPOLLOUT = 0 \<longleftrightarrow> \<not> bit x 2"
  using and_exp_eq_0_iff_not_bit [of x 0] and_exp_eq_0_iff_not_bit [of x 2] by (simp_all add: epoll_bits)

lemma epoll_const_bits [simp]:
  "bit EPOLLIN 0" "\<not> bit EPOLLIN 2" "\<not> bit EPOLLOUT 0" "bit EPOLLOUT 2" "\<not> bit EPOLLET 0" "\<not> bit EPOLLET 2"
  by (simp_all add: epoll_bits bit_simps numeral_eq_Suc)

lemma ready_ok_registered:
  assumes "ep_inv E" "ready_ok E (Ready fd ev)"
  shows "fd < length (ioEvents E)" and "ev AND EPOLLIN \<noteq> 0 \<Longrightarrow> reads (ioEvents E ! fd)"
    and "ev AND EPOLLOUT \<noteq> 0 \<Longrightarrow> writes (ioEvents E ! fd)" and "interest E fd \<noteq> None"
proof -
  obtain m where m: "interest E fd = Some m" using assms(2) by (auto split: option.splits)
  then show l: "fd < length (ioEvents E)" using assms(1) by (auto simp: ep_inv_def split: if_splits)
  from m show "interest E fd \<noteq> None" by simp
  have "m = EPOLLET OR types (ioEvents E ! fd) \<or> m = 0"
    using ep_inv_mask [OF assms(1) l] m by (auto simp: mask_ok_def ev_mask_def split: if_splits)
  then show "ev AND EPOLLIN \<noteq> 0 \<Longrightarrow> reads (ioEvents E ! fd)" "ev AND EPOLLOUT \<noteq> 0 \<Longrightarrow> writes (ioEvents E ! fd)"
    using assms(2) m by (auto simp: reads_def writes_def io_bits bit_or_iff)
qed

lemma wait_one_spec:
  assumes "ep_inv E" "ready_ok E (Ready fd ev)"
  defines "e \<equiv> ioEvents E ! fd"
  defines "rd \<equiv> fires_read ev e" and "wr \<equiv> fires_write ev e"
  shows "wait_one (Ready fd ev) E =
    (if \<not> rd \<and> \<not> wr then Inr E
     else trigger_both fd rd wr (E\<lparr>interest := (interest E)(fd := if types (strip rd wr e) = 0 then None else Some 0)\<rparr>))"
proof -
  note k = ready_ok_registered [OF assms(1,2), folded e_def]
  note ok = ep_inv_event [OF assms(1) k(1), folded e_def]
  obtain r w where e: "types e = ev_types r w" "reads e = r" "writes e = w" using ok by (elim event_okE)
  define ev' where "ev' = (if ev AND (EPOLLERR OR EPOLLHUP) \<noteq> 0 then ev OR ((EPOLLIN OR EPOLLOUT) AND types e) else ev)"
  have "ev' AND EPOLLIN \<noteq> 0 \<longleftrightarrow> ev AND EPOLLIN \<noteq> 0 \<or> hup ev \<and> types e AND EPOLLIN \<noteq> 0"
      "ev' AND EPOLLOUT \<noteq> 0 \<longleftrightarrow> ev AND EPOLLOUT \<noteq> 0 \<or> hup ev \<and> types e AND EPOLLOUT \<noteq> 0"
    by (auto simp: ev'_def hup_def [symmetric] io_bits bit_simps)
  then have f: "ev' AND EPOLLIN \<noteq> 0 \<longleftrightarrow> rd" "ev' AND EPOLLOUT \<noteq> 0 \<longleftrightarrow> wr"
    using k(2,3) e by (auto simp: rd_def wr_def fires_read_def fires_write_def)
  have rw: "rd \<longrightarrow> r" "wr \<longrightarrow> w" using e by (simp_all add: rd_def wr_def fires_read_def fires_write_def)
  have t: "types e AND ev_types rd wr = 0 \<longleftrightarrow> \<not> rd \<and> \<not> wr" "types e AND NOT (ev_types rd wr) = types (strip rd wr e)"
      "EPOLLET AND types (strip rd wr e) = 0"
    unfolding strip_types [OF ok] e using rw by (cases r; cases w; cases rd; cases wr; simp add: ev_types_def epoll_bits)+
  have c: "(case epoll_ctl (pollable E) (if types (strip rd wr e) \<noteq> 0 then EPOLL_CTL_MOD else EPOLL_CTL_DEL) fd
      (EPOLLET AND types (strip rd wr e)) (interest E) of None \<Rightarrow> interest E | Some k \<Rightarrow> k) =
    (interest E)(fd := if types (strip rd wr e) = 0 then None else Some 0)"
    using k(4) t(3) by auto
  have l: "length (ioEvents E) \<le> fd \<longleftrightarrow> False" using k(1) by simp
  show ?thesis
    unfolding wait_one_def ready.case l if_False Let_def e_def [symmetric] ev'_def [symmetric] f
      ev_types_def [symmetric] t(1,2) c by simp
qed

section \<open>The tasks an epoller holds\<close>

definition waiting_ev :: "'f io_event \<Rightarrow> (nat \<times> 'f task) multiset" where
  "waiting_ev e = mset (due (reads e) (writes e) e)"

definition waiting :: "'f epoller \<Rightarrow> (nat \<times> 'f task) multiset" where
  "waiting E = sum_list (map waiting_ev (ioEvents E))"

definition new_task :: "'f option \<Rightarrow> nat \<Rightarrow> 'f task" where
  "new_task func co = (case func of Some f \<Rightarrow> Task_func f | None \<Rightarrow> Task_co co)"

lemma waiting_update:
  "fd < length (ioEvents E) \<Longrightarrow>
   waiting (E\<lparr>ioEvents := (ioEvents E)[fd := e], interest := k, pendingEvents := n, scheduled := ts\<rparr>) + waiting_ev (ioEvents E ! fd) =
   waiting E + waiting_ev e"
  using ep_sum_update [of fd "ioEvents E" waiting_ev e] by (simp add: waiting_def)

lemma reads_writes_without:
  "reads (without EPOLLIN e) = False" "writes (without EPOLLIN e) = writes e"
  "reads (without EPOLLOUT e) = reads e" "writes (without EPOLLOUT e) = False"
  by (auto simp: reads_def writes_def without_types io_bits bit_simps)

lemma waiting_strip:
  assumes "rd \<Longrightarrow> reads e" "wr \<Longrightarrow> writes e"
  shows "waiting_ev e = waiting_ev (strip rd wr e) + mset (due rd wr e)"
  using assms by (cases rd; cases wr) (auto simp: waiting_ev_def due_def strip_def reads_writes_without without_types)

lemma due_type: "due (type = EPOLLIN) (type = EPOLLOUT) e = (if io_type type then [(the (ctx_worker (ctx_of type e)), ctx_task (ctx_of type e))] else [])"
  by (auto simp: due_def io_type_def ctx_of_def)

lemma without_strip: "io_type type \<Longrightarrow> without type e = strip (type = EPOLLIN) (type = EPOLLOUT) e"
  by (auto simp: io_type_def strip_def)

lemma waiting_without:
  assumes "io_type type" "types e AND type \<noteq> 0"
  shows "waiting_ev e = add_mset (the (ctx_worker (ctx_of type e)), ctx_task (ctx_of type e)) (waiting_ev (without type e))"
proof -
  have "type = EPOLLIN \<Longrightarrow> reads e" "type = EPOLLOUT \<Longrightarrow> writes e" using assms(2) by (auto simp: reads_def writes_def)
  with assms(1) waiting_strip [of "type = EPOLLIN" e "type = EPOLLOUT"] show ?thesis
    by (simp add: without_strip due_type)
qed

lemma waiting_joined:
  assumes "io_type type" "types e AND type = 0"
  shows "waiting_ev (joined type (new_ctx func w co) e) = add_mset (w, new_task func co) (waiting_ev e)"
proof -
  have "reads (joined EPOLLIN c e)" "writes (joined EPOLLIN c e) = writes e" "writes (joined EPOLLOUT c e)"
      "reads (joined EPOLLOUT c e) = reads e" for c
    by (auto simp: reads_def writes_def joined_def setEventCtx_def io_bits bit_simps)
  with assms show ?thesis
    by (auto simp: io_type_def waiting_ev_def due_def joined_def setEventCtx_def reads_def writes_def ctx_task_def new_ctx_def
        new_task_def split: option.split)
qed

lemma waiting_grown:
  fixes E :: "'a epoller"
  shows "fd < length (ioEvents E) \<or> 2 \<le> fd \<Longrightarrow> waiting (grown fd E) = waiting E"
proof -
  have "waiting_ev (new_IOEvent i :: 'a io_event) = {#}" for i :: nat
    by (simp add: waiting_ev_def new_IOEvent_def due_def reads_def writes_def)
  then show ?thesis if "fd < length (ioEvents E) \<or> 2 \<le> fd"
    using that by (auto simp: waiting_def grown_def ep_resize_def comp_def)
qed

lemma trigger_both_waiting:
  assumes "ep_inv E" "fd < length (ioEvents E)" and "rd \<Longrightarrow> reads (ioEvents E ! fd)" "wr \<Longrightarrow> writes (ioEvents E ! fd)"
    and "mask_ok m (strip rd wr (ioEvents E ! fd))"
  obtains E' where "trigger_both fd rd wr (E\<lparr>interest := (interest E)(fd := m)\<rparr>) = Inr E'" "ep_inv E'"
    "mset (scheduled E') + waiting E' = mset (scheduled E) + waiting E"
    "interest E' = (interest E)(fd := m)" "pollable E' = pollable E"
    "ioEvents E' = (ioEvents E)[fd := strip rd wr (ioEvents E ! fd)]" "scheduled E' = scheduled E @ due rd wr (ioEvents E ! fd)"
proof -
  from trigger_both_spec [OF assms(1-4)] obtain n where
    n: "\<And>k. trigger_both fd rd wr (E\<lparr>interest := k\<rparr>) = Inr (E\<lparr>ioEvents := (ioEvents E)[fd := strip rd wr (ioEvents E ! fd)],
       interest := k, pendingEvents := n, scheduled := scheduled E @ due rd wr (ioEvents E ! fd)\<rparr>)"
    "\<And>m. mask_ok m (strip rd wr (ioEvents E ! fd)) \<Longrightarrow> ep_inv (E\<lparr>ioEvents := (ioEvents E)[fd := strip rd wr (ioEvents E ! fd)],
       interest := (interest E)(fd := m), pendingEvents := n, scheduled := scheduled E @ due rd wr (ioEvents E ! fd)\<rparr>)"
    by blast
  note w = waiting_update [OF assms(2), where e = "strip rd wr (ioEvents E ! fd)" and k = "(interest E)(fd := m)" and n = n
      and ts = "scheduled E @ due rd wr (ioEvents E ! fd)"]
  show ?thesis
    by (rule that [OF n(1) n(2) [OF assms(5)]]) (use w waiting_strip [OF assms(3,4)] in \<open>simp_all add: ac_simps\<close>)
qed

lemma handleAllEvent_spec:
  assumes "ep_inv E"
  obtains b E' where "handleAllEvent fd E = Inr (b, E')" "ep_inv E'"
    "mset (scheduled E') + waiting E' = mset (scheduled E) + waiting E"
    "b \<longleftrightarrow> registered fd EPOLLIN E \<or> registered fd EPOLLOUT E"
    "b \<Longrightarrow> \<not> registered fd EPOLLIN E' \<and> \<not> registered fd EPOLLOUT E' \<and> interest E' fd = None"
    "\<not> b \<Longrightarrow> E' = E"
    "armed E \<Longrightarrow> armed E'"
proof (cases "fd < length (ioEvents E) \<and> types (ioEvents E ! fd) \<noteq> 0")
  case True
  let ?e = "ioEvents E ! fd"
  have l: "fd < length (ioEvents E)" and t: "types ?e \<noteq> 0" using True by auto
  note ok = ep_inv_event [OF assms l]
  have z: "types (strip (reads ?e) (writes ?e) ?e) = 0" by (simp add: strip_types [OF ok])
  have m: "mask_ok None (strip (reads ?e) (writes ?e) ?e)" using z by (simp add: mask_ok_def ev_mask_def)
  obtain E' where E': "trigger_both fd (reads ?e) (writes ?e) (E\<lparr>interest := (interest E)(fd := None)\<rparr>) = Inr E'" "ep_inv E'"
    "mset (scheduled E') + waiting E' = mset (scheduled E) + waiting E" "interest E' = (interest E)(fd := None)"
    "ioEvents E' = (ioEvents E)[fd := strip (reads ?e) (writes ?e) ?e]"
    using trigger_both_waiting [OF assms l _ _ m] by blast
  have k: "epoll_ctl (pollable E) EPOLL_CTL_DEL fd 0 (interest E) = Some ((interest E)(fd := None))"
    using ep_inv_interest [OF assms l] t by auto
  have "handleAllEvent fd E = Inr (True, E')"
    using l t E'(1) unfolding handleAllEvent_def Let_def k reads_def writes_def by simp
  moreover have "registered fd EPOLLIN E \<or> registered fd EPOLLOUT E"
    using l t ok by (auto simp: registered_def elim!: event_okE)
  moreover have "\<not> registered fd EPOLLIN E'" "\<not> registered fd EPOLLOUT E'" using E'(5) z l by (auto simp: registered_def)
  moreover have "armed E'" if "armed E"
    using that E'(4,5) z by (auto simp: armed_def fun_eq_iff nth_list_update ev_mask_def)
  ultimately show ?thesis using that [of True E'] E' by simp
next
  case False
  then have "handleAllEvent fd E = Inr (False, E)" "\<not> registered fd EPOLLIN E" "\<not> registered fd EPOLLOUT E"
    by (auto simp: handleAllEvent_def Let_def registered_def not_le)
  with that [of False E] assms show ?thesis by simp
qed

lemma wait_one_ok:
  assumes "ep_inv E" "ready_ok E r"
  obtains E' where "wait_one r E = Inr E'" "ep_inv E'" "mset (scheduled E') + waiting E' = mset (scheduled E) + waiting E"
    "\<And>fd. fd \<notin> set (ready_fds [r]) \<Longrightarrow> interest E' fd = interest E fd" "\<exists>ts. scheduled E' = scheduled E @ ts"
proof (cases r)
  case Wake
  with that [of E] assms show ?thesis by (simp add: wait_one_def)
next
  case (Ready fd ev)
  let ?e = "ioEvents E ! fd"
  let ?rd = "fires_read ev ?e" and ?wr = "fires_write ev ?e"
  let ?m = "if types (strip ?rd ?wr ?e) = 0 then None else Some 0"
  have l: "fd < length (ioEvents E)" using ready_ok_registered(1) assms Ready by blast
  have m: "mask_ok ?m (strip ?rd ?wr ?e)" by (simp add: mask_ok_def ev_mask_def)
  have "?rd \<Longrightarrow> reads ?e" "?wr \<Longrightarrow> writes ?e" by (simp_all add: fires_read_def fires_write_def)
  from trigger_both_waiting [OF assms(1) l this m] obtain E' where
    E': "trigger_both fd ?rd ?wr (E\<lparr>interest := (interest E)(fd := ?m)\<rparr>) = Inr E'" "ep_inv E'"
    "mset (scheduled E') + waiting E' = mset (scheduled E) + waiting E" "interest E' = (interest E)(fd := ?m)"
    "scheduled E' = scheduled E @ due ?rd ?wr ?e"
    by blast
  have "wait_one r E = (if \<not> ?rd \<and> \<not> ?wr then Inr E else Inr E')"
    unfolding Ready wait_one_spec [OF assms(1) assms(2) [unfolded Ready]] E'(1) by (rule refl)
  with that [of E] that [of E'] E' assms Ready show ?thesis by (auto split: if_splits)
qed

lemma wait_loop_ok:
  assumes "ep_inv E" "reports_ok E rs"
  obtains E' where "wait_loop rs E = Inr E'" "ep_inv E'" "mset (scheduled E') + waiting E' = mset (scheduled E) + waiting E"
    "\<exists>ts. scheduled E' = scheduled E @ ts"
  using assms
proof (induction rs arbitrary: E thesis)
  case (Cons r rs)
  then have r: "ready_ok E r" by (simp add: reports_ok_def)
  obtain E1 where E1: "wait_one r E = Inr E1" "ep_inv E1" "mset (scheduled E1) + waiting E1 = mset (scheduled E) + waiting E"
    "\<And>fd. fd \<notin> set (ready_fds [r]) \<Longrightarrow> interest E1 fd = interest E fd" "\<exists>ts. scheduled E1 = scheduled E @ ts"
    using wait_one_ok [OF Cons.prems(2) r] by blast
  have "ready_ok E1 x" if "x \<in> set rs" for x
  proof (cases x)
    case (Ready fd ev)
    then have "fd \<in> set (ready_fds rs)" using that by (induction rs rule: ready_fds.induct) auto
    then have "fd \<notin> set (ready_fds [r])" using Cons.prems(3) by (cases r) (auto simp: reports_ok_def)
    moreover have "ready_ok E x" using Cons.prems(3) that by (simp add: reports_ok_def list_all_iff)
    ultimately show ?thesis using E1(4) Ready by simp
  qed simp
  then have "reports_ok E1 rs" using Cons.prems(3) by (cases r) (simp_all add: reports_ok_def list_all_iff)
  from Cons.IH [OF _ E1(2) this] obtain E' where "wait_loop rs E1 = Inr E'" "ep_inv E'"
    "mset (scheduled E') + waiting E' = mset (scheduled E1) + waiting E1" "\<exists>ts. scheduled E' = scheduled E1 @ ts" by blast
  with Cons.prems(1) [of E'] E1(1,3,5) show ?case by auto
qed simp

lemma addEvent_ok:
  assumes "ep_inv E" "io_type type" "fd < length (ioEvents E) \<or> 2 \<le> fd" "fd < 2147483648"
  obtains b E' where "addEvent fd type func w co E = Inr (b, E')" "ep_inv E'"
    "scheduled E' = scheduled E" "waiting E' = (if b then add_mset (w, new_task func co) (waiting E) else waiting E)"
    "registered fd type E \<Longrightarrow> \<not> b" "b \<Longrightarrow> registered fd type E'" "armed E \<Longrightarrow> armed E'"
proof -
  let ?E = "grown fd E"
  let ?e = "ioEvents ?E ! fd"
  let ?e' = "joined type (new_ctx func w co) ?e"
  note g = grown_inv [OF assms(1,3,4)]
  have s: "scheduled ?E = scheduled E" "waiting ?E = waiting E" using waiting_grown [OF assms(3)] by (simp_all add: grown_def)
  show ?thesis
  proof (cases "registered fd type ?E \<or> types ?e = 0 \<and> \<not> pollable E fd")
    case True
    with addEvent_spec [OF assms, of func w co] that [of False ?E] g s show ?thesis by simp
  next
    case False
    then have t: "types ?e AND type = 0" using g(2) by (simp add: registered_def)
    note j = joined_ok [OF ep_inv_event [OF g(1,2)] assms(2) t]
    let ?E' = "?E\<lparr>ioEvents := (ioEvents ?E)[fd := ?e'], interest := (interest ?E)(fd := ev_mask ?e'), pendingEvents := pendingEvents ?E + 1\<rparr>"
    have a: "addEvent fd type func w co E = Inr (True, ?E')" using addEvent_spec [OF assms, of func w co] False by simp
    have "mask_ok (ev_mask ?e') ?e'" by (simp add: mask_ok_def)
    then have "ep_inv ?E'" 
      using ep_inv_update [OF g(1,2) j(1), where n = "pendingEvents ?E + 1" and ts = "scheduled ?E"] j(2) by simp
    moreover have "waiting ?E' = add_mset (w, new_task func co) (waiting E)"
      using ep_sum_update [OF g(2), of waiting_ev ?e'] waiting_joined [OF assms(2) t, of func w co] s by (simp add: waiting_def)
    moreover have "\<not> registered fd type E" using False by (auto simp: registered_def grown_def split: if_splits)
    moreover have "types ?e' AND type \<noteq> 0"
      using assms(2) by (auto simp: joined_def setEventCtx_def io_type_def io_bits bit_simps)
    then have "registered fd type ?E'" using g(2) by (simp add: registered_def)
    moreover have "armed E \<Longrightarrow> armed ?E'" using armed_update [OF g(3) g(2), where e = ?e' and ts = "scheduled ?E"] by simp
    ultimately show ?thesis using that [of True ?E'] a s by simp
  qed
qed

lemma removal_ok:
  assumes "ep_inv E" "registered fd type E" "io_type type"
  shows "ep_inv (trigger_one fd type E)" "armed E \<Longrightarrow> armed (trigger_one fd type E)"
    "waiting E = add_mset (the (ctx_worker (ctx_of type (ioEvents E ! fd))), ctx_task (ctx_of type (ioEvents E ! fd)))
       (waiting (trigger_one fd type E))"
proof -
  have r: "fd < length (ioEvents E)" "types (ioEvents E ! fd) AND type \<noteq> 0" using assms(2) by (auto simp: registered_def)
  show "ep_inv (trigger_one fd type E)" using trigger_one_ok [OF assms] by simp
  show "armed E \<Longrightarrow> armed (trigger_one fd type E)" using armed_update [OF _ r(1)] by (simp add: trigger_one_def)
  show "waiting E = add_mset (the (ctx_worker (ctx_of type (ioEvents E ! fd))), ctx_task (ctx_of type (ioEvents E ! fd)))
       (waiting (trigger_one fd type E))"
    using waiting_update [OF r(1), where e = "without type (ioEvents E ! fd)"] waiting_without [OF assms(3) r(2)]
    by (simp add: trigger_one_def)
qed

lemma ep_inv_scheduled: "ep_inv (E\<lparr>scheduled := ts\<rparr>) = ep_inv E" "armed (E\<lparr>scheduled := ts\<rparr>) = armed E"
    "waiting (E\<lparr>scheduled := ts\<rparr>) = waiting E"
  by (simp_all add: ep_inv_def armed_def waiting_def cong: if_cong)

text \<open>\<open>delEvent\<close> is \<open>handleEvent\<close> without the task.\<close>

lemma delEvent_ok:
  assumes "ep_inv E" "io_type type"
  shows "delEvent fd type E = Inr (if registered fd type E then (True, (trigger_one fd type E)\<lparr>scheduled := scheduled E\<rparr>) else (False, E))"
  using delEvent_spec [OF assms, of fd] by (auto simp: trigger_one_def split: if_splits)

lemma handleEvent_ok:
  assumes "ep_inv E" "io_type type"
  shows "handleEvent fd type E = Inr (if registered fd type E then (True, trigger_one fd type E) else (False, E))"
  using handleEvent_spec [OF assms, of fd] by (auto simp: trigger_one_def split: if_splits)

section \<open>Runs\<close>

text \<open>
  The states an epoller reaches, with the tasks whose \<open>addEvent\<close> succeeded and those whose
  \<open>delEvent\<close> did. Between two operations the environment may open and close descriptors that are not
  registered and the worker may run tasks and start to poll.
\<close>

inductive ep_reach :: "(nat \<times> 'f task) multiset \<Rightarrow> (nat \<times> 'f task) multiset \<Rightarrow> 'f epoller \<Rightarrow> bool" where
  ep_init: "ep_reach {#} {#} (new_Epoller p)"
| ep_add: "ep_reach A D E \<Longrightarrow> io_type type \<Longrightarrow> fd < 2147483648 \<Longrightarrow> addEvent fd type func w co E = Inr (b, E') \<Longrightarrow>
    ep_reach (if b then add_mset (w, new_task func co) A else A) D E'"
| ep_del: "ep_reach A D E \<Longrightarrow> io_type type \<Longrightarrow> delEvent fd type E = Inr (b, E') \<Longrightarrow>
    ep_reach A (if b then mset (due (type = EPOLLIN) (type = EPOLLOUT) (ioEvents E ! fd)) + D else D) E'"
| ep_handle: "ep_reach A D E \<Longrightarrow> io_type type \<Longrightarrow> handleEvent fd type E = Inr (b, E') \<Longrightarrow> ep_reach A D E'"
| ep_handleAll: "ep_reach A D E \<Longrightarrow> handleAllEvent fd E = Inr (b, E') \<Longrightarrow> ep_reach A D E'"
| ep_poll: "ep_reach A D E \<Longrightarrow> reports_ok E rs \<Longrightarrow> wait_loop rs E = Inr E' \<Longrightarrow> ep_reach A D E'"
| ep_env: "ep_reach A D E \<Longrightarrow> ep_reach A D (E\<lparr>pollable := p, polling := q, wakeups := n\<rparr>)"

lemma ep_inv_env: "ep_inv (E\<lparr>pollable := p, polling := q, wakeups := n\<rparr>) = ep_inv E"
    "waiting (E\<lparr>pollable := p, polling := q, wakeups := n\<rparr>) = waiting E"
  by (simp_all add: ep_inv_def waiting_def)

lemma addEvent_fault:
  "length (ioEvents E) \<le> fd \<Longrightarrow> fd < 2 \<Longrightarrow> addEvent fd type func w co E = Inl Memory_fault"
  by (auto simp: addEvent_def Let_def ep_resize_def less_2_cases_iff)

lemma ep_reach_conserve: "ep_reach A D E \<Longrightarrow> ep_inv E \<and> mset (scheduled E) + waiting E + D = A"
proof (induction rule: ep_reach.induct)
  case (ep_init p)
  show ?case by (simp add: new_Epoller_def ep_inv_def waiting_def)
next
  case (ep_add A D E type fd func w co b E')
  then have "fd < length (ioEvents E) \<or> 2 \<le> fd" using addEvent_fault [of E fd type func w co] by fastforce
  from addEvent_ok [OF _ ep_add(2) this ep_add(3), of func w co] ep_add(4,5) show ?case by fastforce
next
  case (ep_del A D E type fd b E')
  with delEvent_ok [of E type fd] removal_ok [of E fd type] show ?case
    by (auto simp: due_type ep_inv_scheduled trigger_one_def split: if_splits)
next
  case (ep_handle A D E type fd b E')
  with handleEvent_ok [of E type fd] removal_ok [of E fd type] show ?case
    by (auto simp: trigger_one_def split: if_splits)
next
  case (ep_handleAll A D E fd b E')
  with handleAllEvent_spec [of E fd] show ?case by fastforce
next
  case (ep_poll A D E rs E')
  with wait_loop_ok [of E rs] show ?case by fastforce
next
  case (ep_env A D E p q n)
  then show ?case by (simp only: ep_inv_env) simp
qed

lemma ep_pending_waiting: "ep_inv E \<Longrightarrow> pendingEvents E = size (waiting E)"
proof -
  have "sum_list (map ev_count es) = size (sum_list (map waiting_ev es))" for es :: "'a io_event list"
    by (induction es) (auto simp: ev_count_def waiting_ev_def due_def)
  then show ?thesis if "ep_inv E" using that by (simp add: ep_inv_def waiting_def)
qed

text \<open>
  C2: tasks are neither lost nor run twice. However an epoller was used (registrations, cancellations,
  \<open>handleEvent\<close>, \<open>handleAllEvent\<close>, reports of \<open>epoll_wait\<close>), the tasks whose registration succeeded are
  exactly those handed to workers, those still waiting and those cancelled by \<open>delEvent\<close>, counted with
  multiplicity, and \<open>getEventCount\<close> is the number of those waiting.
\<close>

theorem epoller_tasks_conserved:
  "ep_reach A D E \<Longrightarrow> A = mset (scheduled E) + waiting E + D \<and> pendingEvents E = size (waiting E)"
  using ep_reach_conserve ep_pending_waiting by metis

lemma example_reach:
  "ep_reach {#(7, Task_co 3)#} {#} (snd (projr (addEvent 5 EPOLLIN None 7 3 (new_Epoller (\<lambda>_. True) :: nat epoller))))"
proof -
  have "ep_reach {#} {#} (new_Epoller (\<lambda>_. True) :: nat epoller)" by (rule ep_init)
  moreover have "io_type EPOLLIN" by (simp add: io_type_def)
  ultimately show ?thesis
    using ep_reach.ep_add [of "{#}" "{#}" "new_Epoller (\<lambda>_. True) :: nat epoller" EPOLLIN 5 None 7 3 True
        "snd (projr (addEvent 5 EPOLLIN None 7 3 (new_Epoller (\<lambda>_. True) :: nat epoller)))"]
    by (simp add: new_task_def) (simp add: addEvent_def new_Epoller_def ep_resize_def new_IOEvent_def getEventCtx_def empty_ctx_def)
qed

theorem epoller_tasks_conserved_witness:
  "pendingEvents (snd (projr (addEvent 5 EPOLLIN None 7 3 (new_Epoller (\<lambda>_. True) :: nat epoller)))) = 1"
  using epoller_tasks_conserved [OF example_reach]
  by (simp add: addEvent_def new_Epoller_def ep_resize_def new_IOEvent_def getEventCtx_def empty_ctx_def size_simps)



text \<open>
  \<open>addEvent\<close>, \<open>delEvent\<close>, \<open>handleEvent\<close> and \<open>handleAllEvent\<close> keep the kernel in step with the table:
  when every descriptor is watched edge triggered for exactly its registered types, that is so after
  each of them, whether it succeeds or not.
\<close>

theorem registration_in_step:
  assumes "ep_reach A D E" "armed E" "io_type type" "fd < 2147483648"
  shows "(\<forall>b E'. addEvent fd type func w co E = Inr (b, E') \<longrightarrow> armed E') \<and>
    (\<forall>b E'. delEvent fd type E = Inr (b, E') \<longrightarrow> armed E') \<and>
    (\<forall>b E'. handleEvent fd type E = Inr (b, E') \<longrightarrow> armed E') \<and>
    (\<forall>b E'. handleAllEvent fd E = Inr (b, E') \<longrightarrow> armed E')"
proof -
  have i: "ep_inv E" using ep_reach_conserve [OF assms(1)] by blast
  have "armed E'" if "addEvent fd type func w co E = Inr (b, E')" for b E'
  proof -
    have "fd < length (ioEvents E) \<or> 2 \<le> fd" using addEvent_fault [of E fd type func w co] that by fastforce
    from addEvent_ok [OF i assms(3) this assms(4), of func w co] that assms(2) show ?thesis by fastforce
  qed
  moreover have "armed E'" if "handleAllEvent fd E = Inr (b, E')" for b E'
    using handleAllEvent_spec [OF i, of fd] that assms(2) by fastforce
  ultimately show ?thesis
    using delEvent_ok [OF i assms(3), of fd] handleEvent_ok [OF i assms(3), of fd] removal_ok [OF i _ assms(3), of fd] assms(2)
    by (auto simp: ep_inv_scheduled split: if_splits)
qed

theorem registration_in_step_witness:
  "armed (snd (projr (addEvent 5 EPOLLIN None 7 3 (new_Epoller (\<lambda>_. True) :: nat epoller))))"
proof -
  have t: "io_type EPOLLIN" by (simp add: io_type_def)
  have a: "armed (new_Epoller (\<lambda>_. True) :: nat epoller)" by (simp add: armed_def new_Epoller_def)
  obtain E' where E': "addEvent 5 EPOLLIN None 7 3 (new_Epoller (\<lambda>_. True) :: nat epoller) = Inr (True, E')"
    by (simp add: addEvent_def new_Epoller_def ep_resize_def new_IOEvent_def getEventCtx_def empty_ctx_def)
  have "armed E'" using registration_in_step [OF ep_init a t, of 5 None 7 3] E' by auto
  with E' show ?thesis by simp
qed


lemma example_reach_both:
  "ep_reach {#(7, Task_func 9), (7, Task_co 3)#} {#} (snd (projr (addEvent 5 EPOLLOUT (Some 9) 7 3
     (snd (projr (addEvent 5 EPOLLIN None 7 3 (new_Epoller (\<lambda>_. True) :: nat epoller)))))))"
proof -
  let ?E = "snd (projr (addEvent 5 EPOLLIN None 7 3 (new_Epoller (\<lambda>_. True) :: nat epoller)))"
  have t: "io_type EPOLLOUT" by (simp add: io_type_def)
  have E: "5 < length (ioEvents ?E)" "types (ioEvents ?E ! 5) = EPOLLIN"
    by (simp_all add: addEvent_def new_Epoller_def ep_resize_def new_IOEvent_def getEventCtx_def setEventCtx_def empty_ctx_def)
  then have "\<not> registered 5 EPOLLOUT ?E" by (simp add: registered_def io_bits)
  then obtain E' where "addEvent 5 EPOLLOUT (Some 9) 7 3 ?E = Inr (True, E')"
    using addEvent_in [OF _ t E(1), of "Some 9" 7 3] ep_reach_conserve [OF example_reach] E(2) by auto
  with ep_reach.ep_add [OF example_reach t _ this] show ?thesis by (simp add: new_task_def)
qed


definition timer_tasks :: "nat \<Rightarrow> 'f option list \<Rightarrow> (nat \<times> 'f task) list" where
  "timer_tasks worker fs = map (\<lambda>f. (worker, Task_func f)) (concat (map (case_option [] (\<lambda>f. [f])) fs))"

lemma ep_wait_ok:
  assumes "ep_inv E" "reports_ok E rs"
  obtains E' where "ep_wait now p worker rs M E = Inr (snd (expiredFunctions now p M), E')" "ep_inv E'"
    "mset (scheduled E') + waiting E' = mset (scheduled E) + waiting E + mset (timer_tasks worker (fst (expiredFunctions now p M)))"
    "\<exists>ts. scheduled E' = scheduled E @ timer_tasks worker (fst (expiredFunctions now p M)) @ ts"
proof -
  obtain fs M' where f: "expiredFunctions now p M = (fs, M')" by force
  let ?ts = "concat (map (\<lambda>f. case f of None \<Rightarrow> [] | Some f \<Rightarrow> [(worker, Task_func f)]) fs)"
  let ?E = "E\<lparr>polling := False, scheduled := scheduled E @ ?ts\<rparr>"
  have i: "ep_inv ?E" "waiting ?E = waiting E" using assms(1) by (simp_all add: ep_inv_def waiting_def)
  have "ready_ok ?E r = ready_ok E r" for r by (cases r) simp_all
  then have "reports_ok ?E rs" using assms(2) by (simp add: reports_ok_def list_all_iff)
  then obtain E' where E': "wait_loop rs ?E = Inr E'" "ep_inv E'" "mset (scheduled E') + waiting E' = mset (scheduled ?E) + waiting ?E"
    "\<exists>ts. scheduled E' = scheduled ?E @ ts"
    using wait_loop_ok [OF i(1)] by metis
  have "?ts = timer_tasks worker fs" by (induction fs) (auto simp: timer_tasks_def split: option.split)
  with that [of E'] E' f i(2) show ?thesis by (simp add: ep_wait_def)
qed

text \<open>
  One turn of \<open>Epoller::wait\<close>. The callbacks of the timers that expired are queued on the worker
  in order, then the reported descriptors are handled; every waiting task stays waiting or is
  scheduled, and the timer queue is the one \<open>expiredFunctions\<close> leaves.
\<close>

theorem wait_turn:
  assumes "ep_reach A D E" "reports_ok E rs"
  shows "\<exists>E'. ep_wait now p worker rs M E = Inr (snd (expiredFunctions now p M), E') \<and>
    (\<exists>ts. scheduled E' = scheduled E @ timer_tasks worker (fst (expiredFunctions now p M)) @ ts) \<and>
    mset (scheduled E') + waiting E' = mset (scheduled E) + waiting E + mset (timer_tasks worker (fst (expiredFunctions now p M)))"
proof -
  have "ep_inv E" using ep_reach_conserve [OF assms(1)] by blast
  from ep_wait_ok [OF this assms(2)] show ?thesis by metis
qed

theorem wait_turn_witness:
  "\<exists>E'. ep_wait 0 0 7 [Wake, Ready 5 EPOLLHUP] new_TimeManager
     (snd (projr (addEvent 5 EPOLLIN None 7 3 (new_Epoller (\<lambda>_. True) :: nat epoller)))) =
     Inr (snd (expiredFunctions 0 0 new_TimeManager), E')"
proof -
  let ?E = "snd (projr (addEvent 5 EPOLLIN None 7 3 (new_Epoller (\<lambda>_. True) :: nat epoller)))"
  have "reports_ok ?E [Wake, Ready 5 EPOLLHUP]"
    by (simp add: reports_ok_def addEvent_def new_Epoller_def ep_resize_def new_IOEvent_def getEventCtx_def
        empty_ctx_def epoll_bits)
  from wait_turn [OF example_reach this] show ?thesis by blast
qed

end
