(* ===== verification/Hook.thy ===== *)
theory Hook
  imports Epoller
begin

unbundle bit_operations_syntax

text \<open>
  \<open>src/reyao/fdmanager.h\<close>, \<open>fdmanager.cc\<close> and \<open>hook.cc\<close>: the table of descriptor contexts and the system
  calls that are replaced so that a blocking call suspends a coroutine. The kernel's part of the state is
  the file status flags of each descriptor and whether it is a socket; \<open>F_SETFL\<close> changes the bits
  \<open>O_APPEND\<close>, \<open>O_NONBLOCK\<close>, \<open>O_ASYNC\<close>, \<open>O_DIRECT\<close> and \<open>O_NOATIME\<close> only. What the original calls return is an
  argument: a list of outcomes, one for each call.
\<close>

section \<open>Descriptor contexts\<close>

definition O_NONBLOCK :: "32 word" where "O_NONBLOCK = 0x800"
definition settable :: "32 word" where "settable = 0x46C00"

record fd_ctx =
  isSock :: bool
  isSysNonblock :: bool
  isUserNonblock :: bool
  fd_close :: bool
  recvTimeout :: int
  sendTimeout :: int

datatype sock_timeo = SO_RCVTIMEO | SO_SNDTIMEO

record hook_state =
  t_hookEnable :: bool
  fdcontexts :: "fd_ctx option list"
  k_flags :: "nat \<Rightarrow> 32 word"
  k_sock :: "nat \<Rightarrow> bool"

definition IsHookEnable :: "hook_state \<Rightarrow> bool" where
  "IsHookEnable H = t_hookEnable H"

definition SetHookEnable :: "bool \<Rightarrow> hook_state \<Rightarrow> hook_state" where
  "SetHookEnable flag H = H\<lparr>t_hookEnable := flag\<rparr>"

definition setfl_origin :: "nat \<Rightarrow> 32 word \<Rightarrow> hook_state \<Rightarrow> hook_state" where
  "setfl_origin fd arg H =
     H\<lparr>k_flags := (k_flags H)(fd := (k_flags H fd AND NOT settable) OR (arg AND settable))\<rparr>"

definition new_FdContext :: "nat \<Rightarrow> hook_state \<Rightarrow> fd_ctx \<times> hook_state" where
  "new_FdContext fd H =
     (let c = \<lparr> isSock = k_sock H fd, isSysNonblock = False, isUserNonblock = False, fd_close = False,
                recvTimeout = -1, sendTimeout = -1 \<rparr> in
      if isSock c
      then (c\<lparr>isSysNonblock := True\<rparr>,
            if k_flags H fd AND O_NONBLOCK = 0 then setfl_origin fd (k_flags H fd OR O_NONBLOCK) H else H)
      else (c, H))"

definition setTimeout :: "sock_timeo \<Rightarrow> int \<Rightarrow> fd_ctx \<Rightarrow> fd_ctx" where
  "setTimeout type timeout c =
     (case type of SO_RCVTIMEO \<Rightarrow> c\<lparr>recvTimeout := timeout\<rparr> | SO_SNDTIMEO \<Rightarrow> c\<lparr>sendTimeout := timeout\<rparr>)"

definition getTimeout :: "sock_timeo \<Rightarrow> fd_ctx \<Rightarrow> int" where
  "getTimeout type c = (case type of SO_RCVTIMEO \<Rightarrow> recvTimeout c | SO_SNDTIMEO \<Rightarrow> sendTimeout c)"

definition getFdContext :: "int \<Rightarrow> hook_state \<Rightarrow> fd_ctx option res" where
  "getFdContext fd H =
     (if fd < 0 then Inl Assert_fail
      else if int (length (fdcontexts H)) \<le> fd then Inr None
      else Inr (fdcontexts H ! nat fd))"

definition addFd :: "nat \<Rightarrow> hook_state \<Rightarrow> hook_state res" where
  "addFd fd H =
     (let tab = (if length (fdcontexts H) \<le> fd
                 then take (fd * 3 div 2) (fdcontexts H) @ replicate (fd * 3 div 2 - length (fdcontexts H)) None
                 else fdcontexts H) in
      if length tab \<le> fd then Inl Memory_fault
      else let (c, H) = new_FdContext fd H in Inr (H\<lparr>fdcontexts := tab[fd := Some c]\<rparr>))"

definition delFd :: "nat \<Rightarrow> hook_state \<Rightarrow> hook_state" where
  "delFd fd H = (if fd < length (fdcontexts H) then H\<lparr>fdcontexts := (fdcontexts H)[fd := None]\<rparr> else H)"

text \<open>Changing a context through its pointer.\<close>

definition set_ctx :: "nat \<Rightarrow> fd_ctx \<Rightarrow> hook_state \<Rightarrow> hook_state" where
  "set_ctx fd c H = H\<lparr>fdcontexts := (fdcontexts H)[fd := Some c]\<rparr>"

section \<open>Calls on descriptors\<close>

text \<open>\<open>fcntl\<close> with \<open>F_SETFL\<close> and with \<open>F_GETFL\<close>.\<close>

definition fcntl_setfl :: "int \<Rightarrow> 32 word \<Rightarrow> hook_state \<Rightarrow> hook_state res" where
  "fcntl_setfl fd arg H =
     rbind (getFdContext fd H) (\<lambda>fdctx.
       case fdctx of
         None \<Rightarrow> Inr (setfl_origin (nat fd) arg H)
       | Some c \<Rightarrow>
           if fd_close c \<or> \<not> isSock c then Inr (setfl_origin (nat fd) arg H)
           else
             let H = set_ctx (nat fd) (c\<lparr>isUserNonblock := (arg AND O_NONBLOCK \<noteq> 0)\<rparr>) H;
                 arg = (if isSysNonblock c then arg OR O_NONBLOCK else arg AND NOT O_NONBLOCK)
             in Inr (setfl_origin (nat fd) arg H))"

definition fcntl_getfl :: "int \<Rightarrow> hook_state \<Rightarrow> 32 word res" where
  "fcntl_getfl fd H =
     rbind (getFdContext fd H) (\<lambda>fdctx.
       let arg = k_flags H (nat fd) in
       case fdctx of
         None \<Rightarrow> Inr arg
       | Some c \<Rightarrow>
           if fd_close c \<or> \<not> isSock c then Inr arg
           else Inr (if isUserNonblock c then arg OR O_NONBLOCK else arg AND NOT O_NONBLOCK))"

text \<open>
  \<open>fcntl\<close> by command. \<open>origin\<close> is the native call on the other commands, with the argument the wrapper
  passes on, if it passes one. The commands the wrapper does not list take its default branch;
  \<open>F_GETOWNER_UIDS\<close> is one of them that has an argument.
\<close>

datatype fcntl_cmd =
  F_SETFL | F_GETFL
| F_DUPFD | F_DUPFD_CLOEXEC | F_SETFD | F_SETOWN | F_SETSIG | F_SETLEASE | F_NOTIFY | F_SETPIPE_SZ | F_ADD_SEALS
| F_SETLK | F_SETLKW | F_GETLK | F_OFD_SETLK | F_OFD_SETLKW | F_OFD_GETLK
| F_GETOWN_EX | F_SETOWN_EX
| F_GET_RW_HINT | F_SET_RW_HINT | F_GET_FILE_RW_HINT | F_SET_FILE_RW_HINT
| F_GETFD | F_GETOWN | F_GETSIG | F_GETLEASE | F_GETPIPE_SZ | F_GET_SEALS | F_GETOWNER_UIDS

definition hook_fcntl ::
    "(int \<Rightarrow> fcntl_cmd \<Rightarrow> int option \<Rightarrow> hook_state \<Rightarrow> int \<times> hook_state) \<Rightarrow>
     int \<Rightarrow> fcntl_cmd \<Rightarrow> int \<Rightarrow> hook_state \<Rightarrow> (int \<times> hook_state) res" where
  "hook_fcntl origin fd cmd arg H =
     (if cmd = F_SETFL then map_res (\<lambda>H. (0, H)) (fcntl_setfl fd (word_of_int arg) H)
      else if cmd = F_GETFL then map_res (\<lambda>fl. (sint fl, H)) (fcntl_getfl fd H)
      else if cmd \<in> {F_DUPFD, F_DUPFD_CLOEXEC, F_SETFD, F_SETOWN, F_SETSIG, F_SETLEASE, F_NOTIFY, F_SETPIPE_SZ, F_ADD_SEALS}
      then Inr (origin fd cmd (Some arg) H)
      else if cmd \<in> {F_SETLK, F_SETLKW, F_GETLK, F_OFD_SETLK, F_OFD_SETLKW, F_OFD_GETLK}
      then Inr (origin fd cmd (Some arg) H)
      else if cmd \<in> {F_GETOWN_EX, F_SETOWN_EX} then Inr (origin fd cmd (Some arg) H)
      else if cmd \<in> {F_GET_RW_HINT, F_SET_RW_HINT, F_GET_FILE_RW_HINT, F_SET_FILE_RW_HINT}
      then Inr (origin fd cmd (Some arg) H)
      else Inr (origin fd cmd None H))"

text \<open>\<open>ioctl\<close> with \<open>FIONBIO\<close>: the kernel sets or clears \<open>O_NONBLOCK\<close>.\<close>

definition fionbio_origin :: "nat \<Rightarrow> bool \<Rightarrow> hook_state \<Rightarrow> hook_state" where
  "fionbio_origin fd on H =
     H\<lparr>k_flags := (k_flags H)(fd := if on then k_flags H fd OR O_NONBLOCK else k_flags H fd AND NOT O_NONBLOCK)\<rparr>"

definition ioctl_fionbio :: "int \<Rightarrow> bool \<Rightarrow> hook_state \<Rightarrow> hook_state res" where
  "ioctl_fionbio fd user_nonblock H =
     rbind (getFdContext fd H) (\<lambda>fdctx.
       case fdctx of
         None \<Rightarrow> Inr (fionbio_origin (nat fd) user_nonblock H)
       | Some c \<Rightarrow>
           if fd_close c \<or> \<not> isSock c then Inr (fionbio_origin (nat fd) user_nonblock H)
           else Inr (fionbio_origin (nat fd) user_nonblock (set_ctx (nat fd) (c\<lparr>isUserNonblock := user_nonblock\<rparr>) H)))"

text \<open>\<open>setsockopt\<close> of a timeout, given as a \<open>timeval\<close>.\<close>

definition setsockopt_timeo :: "int \<Rightarrow> sock_timeo \<Rightarrow> int \<times> int \<Rightarrow> hook_state \<Rightarrow> hook_state res" where
  "setsockopt_timeo fd optname tv H =
     (if \<not> t_hookEnable H then Inr H
      else rbind (getFdContext fd H) (\<lambda>fdctx.
        case fdctx of
          None \<Rightarrow> Inr H
        | Some c \<Rightarrow> Inr (set_ctx (nat fd) (setTimeout optname (fst tv * 1000 + c_div (snd tv) 1000) c) H)))"

text \<open>\<open>socket\<close> registers the new descriptor; \<open>fd\<close> is what the original call returned, -1 being an error.\<close>

definition hook_socket :: "int \<Rightarrow> hook_state \<Rightarrow> (int \<times> hook_state) res" where
  "hook_socket fd H =
     (if \<not> t_hookEnable H then Inr (fd, H)
      else if fd = -1 then Inr (fd, H)
      else map_res (\<lambda>H. (fd, H)) (addFd (nat fd) H))"

text \<open>\<open>close\<close> resumes whoever waits for the descriptor and forgets the context.\<close>

definition hook_close :: "int \<Rightarrow> hook_state \<Rightarrow> 'f epoller \<Rightarrow> (hook_state \<times> 'f epoller) res" where
  "hook_close fd H E =
     (if \<not> t_hookEnable H then Inr (H, E)
      else rbind (getFdContext fd H) (\<lambda>fdctx.
        case fdctx of
          None \<Rightarrow> Inr (H, E)
        | Some c \<Rightarrow> rbind (handleAllEvent (nat fd) E) (\<lambda>(_, E). Inr (delFd (nat fd) H, E))))"

section \<open>Blocking calls\<close>

text \<open>
  \<open>do_io\<close>. Each call of the original function returns or fails with an error number; each wait is told
  with which error number, if any, \<open>AddEvent\<close> failed and whether the timer had run when the coroutine went on. \<open>None\<close> is a
  coroutine that is not resumed. The trace records the original calls, timers set and cancelled, and
  suspensions.
\<close>

datatype attempt = Ret int | Fails nat

definition EINTR :: nat where "EINTR = 4"
definition EAGAIN :: nat where "EAGAIN = 11"
definition EBADF :: nat where "EBADF = 9"
definition EINPROGRESS :: nat where "EINPROGRESS = 115"
definition ETIMEDOUT :: nat where "ETIMEDOUT = 110"

record wait_outcome =
  add_errno :: "nat option"
  timer_ran :: bool

datatype io_act = Call | Arm int | Suspend "32 word" | Cancel

fun io_loop :: "32 word \<Rightarrow> int \<Rightarrow> attempt list \<Rightarrow> wait_outcome list \<Rightarrow> (attempt \<times> io_act list) option" where
  "io_loop type timeout [] ws = None"
| "io_loop type timeout (Ret n # as) ws = Some (Ret n, [Call])"
| "io_loop type timeout (Fails e # as) ws =
     (if e = EINTR then map_option (\<lambda>(r, tr). (r, Call # tr)) (io_loop type timeout as ws)
      else if e \<noteq> EAGAIN then Some (Fails e, [Call])
      else case ws of
        [] \<Rightarrow> None
      | w # ws \<Rightarrow>
          let arm = (if timeout \<noteq> -1 then [Arm timeout] else []);
              disarm = (if timeout \<noteq> -1 then [Cancel] else []) in
          if add_errno w \<noteq> None then Some (Fails (the (add_errno w)), Call # arm @ disarm)
          else if timeout \<noteq> -1 \<and> timer_ran w then Some (Fails ETIMEDOUT, Call # arm @ [Suspend type] @ disarm)
          else map_option (\<lambda>(r, tr). (r, Call # arm @ [Suspend type] @ disarm @ tr)) (io_loop type timeout as ws))"

definition plain_call :: "attempt list \<Rightarrow> (attempt \<times> io_act list) option" where
  "plain_call as = (case as of [] \<Rightarrow> None | a # _ \<Rightarrow> Some (a, [Call]))"

definition do_io ::
    "int \<Rightarrow> 32 word \<Rightarrow> sock_timeo \<Rightarrow> attempt list \<Rightarrow> wait_outcome list \<Rightarrow> hook_state \<Rightarrow> (attempt \<times> io_act list) option res" where
  "do_io fd type timeoutSo as ws H =
     (if \<not> t_hookEnable H then Inr (plain_call as)
      else rbind (getFdContext fd H) (\<lambda>fdctx.
        case fdctx of
          None \<Rightarrow> Inr (plain_call as)
        | Some c \<Rightarrow>
            if fd_close c then Inr (Some (Fails EBADF, []))
            else if \<not> isSock c \<or> isUserNonblock c then Inr (plain_call as)
            else Inr (io_loop type (getTimeout timeoutSo c) as ws)))"

text \<open>
  The replaced calls. All but \<open>accept\<close> are \<open>do_io\<close> with the event they wait for and the timeout that bounds
  the wait.
\<close>

datatype io_call =
  Read | Write | Readv | Writev | Recv | Recvfrom | Recvmsg | Recvmmsg | Send | Sendto | Sendmsg | Sendmmsg

fun io_event_of :: "io_call \<Rightarrow> 32 word \<times> sock_timeo" where
  "io_event_of Read = (EPOLLIN, SO_RCVTIMEO)"
| "io_event_of Write = (EPOLLOUT, SO_SNDTIMEO)"
| "io_event_of Readv = (EPOLLIN, SO_RCVTIMEO)"
| "io_event_of Writev = (EPOLLOUT, SO_SNDTIMEO)"
| "io_event_of Recv = (EPOLLIN, SO_RCVTIMEO)"
| "io_event_of Recvfrom = (EPOLLIN, SO_RCVTIMEO)"
| "io_event_of Recvmsg = (EPOLLIN, SO_RCVTIMEO)"
| "io_event_of Recvmmsg = (EPOLLIN, SO_RCVTIMEO)"
| "io_event_of Send = (EPOLLOUT, SO_SNDTIMEO)"
| "io_event_of Sendto = (EPOLLOUT, SO_SNDTIMEO)"
| "io_event_of Sendmsg = (EPOLLOUT, SO_SNDTIMEO)"
| "io_event_of Sendmmsg = (EPOLLOUT, SO_SNDTIMEO)"

definition hook_io ::
    "io_call \<Rightarrow> int \<Rightarrow> attempt list \<Rightarrow> wait_outcome list \<Rightarrow> hook_state \<Rightarrow> (attempt \<times> io_act list) option res" where
  "hook_io call fd = do_io fd (fst (io_event_of call)) (snd (io_event_of call))"

definition hook_accept ::
    "int \<Rightarrow> attempt list \<Rightarrow> wait_outcome list \<Rightarrow> hook_state \<Rightarrow> ((attempt \<times> io_act list) option \<times> hook_state) res" where
  "hook_accept sockfd as ws H =
     rbind (do_io sockfd EPOLLIN SO_RCVTIMEO as ws H) (\<lambda>r.
       case r of
         Some (Ret fd, tr) \<Rightarrow> if fd \<ge> 0 then map_res (\<lambda>H. (r, H)) (addFd (nat fd) H) else Inr (r, H)
       | _ \<Rightarrow> Inr (r, H))"

text \<open>
  \<open>connect_with_timeout\<close>: one call of \<open>connect\<close>, one wait for writability, then the error the socket
  reports: \<open>so_error\<close> is the value \<open>getsockopt\<close> delivers, or how it fails.
\<close>

definition connect_with_timeout ::
    "int \<Rightarrow> int \<Rightarrow> attempt \<Rightarrow> wait_outcome option \<Rightarrow> attempt \<Rightarrow> hook_state \<Rightarrow> (attempt \<times> io_act list) option res" where
  "connect_with_timeout fd timeout first w so_error H =
     (if \<not> t_hookEnable H then Inr (Some (first, [Call]))
      else rbind (getFdContext fd H) (\<lambda>fdctx.
        case fdctx of
          None \<Rightarrow> Inr (Some (Fails EBADF, []))
        | Some c \<Rightarrow>
            if fd_close c then Inr (Some (Fails EBADF, []))
            else if \<not> isSock c \<or> isUserNonblock c then Inr (Some (first, [Call]))
            else if first \<noteq> Fails EINPROGRESS then Inr (Some (first, [Call]))
            else
              let arm = (if timeout \<noteq> -1 then [Arm timeout] else []);
                  disarm = (if timeout \<noteq> -1 then [Cancel] else []);
                  result = (case so_error of Fails e \<Rightarrow> Fails e | Ret e \<Rightarrow> if e = 0 then Ret 0 else Fails (nat e)) in
              case w of
                None \<Rightarrow> Inr None
              | Some w \<Rightarrow>
                  if add_errno w \<noteq> None then Inr (Some (result, Call # arm @ disarm))
                  else if timeout \<noteq> -1 \<and> timer_ran w then Inr (Some (Fails ETIMEDOUT, Call # arm @ [Suspend EPOLLOUT] @ disarm))
                  else Inr (Some (result, Call # arm @ [Suspend EPOLLOUT] @ disarm))))"

definition s_connectTimeout :: int where "s_connectTimeout = 5000"

definition hook_connect where
  "hook_connect fd = connect_with_timeout fd s_connectTimeout"

section \<open>Flags\<close>

lemma nonblock_bit: "x AND O_NONBLOCK = 0 \<longleftrightarrow> \<not> bit x 11"
  using and_exp_eq_0_iff_not_bit [of x 11] by (simp add: O_NONBLOCK_def)

lemma O_NONBLOCK_bits: "bit O_NONBLOCK n \<longleftrightarrow> n = 11"
proof -
  have e: "O_NONBLOCK = 2 ^ 11" by (simp add: O_NONBLOCK_def)
  show ?thesis unfolding e bit_exp_iff by auto
qed

lemma settable_nonblock: "bit settable 11"
  by (simp add: settable_def bit_simps numeral_eq_Suc)

text \<open>The flags a program sees, and the native meaning of \<open>F_SETFL\<close> on them.\<close>

definition native_setfl :: "32 word \<Rightarrow> 32 word \<Rightarrow> 32 word" where
  "native_setfl arg old = (old AND NOT settable) OR (arg AND settable)"

definition ctx_at :: "int \<Rightarrow> hook_state \<Rightarrow> fd_ctx option" where
  "ctx_at fd H = (if 0 \<le> fd \<and> fd < int (length (fdcontexts H)) then fdcontexts H ! nat fd else None)"

lemma getFdContext_ctx: "0 \<le> fd \<Longrightarrow> getFdContext fd H = Inr (ctx_at fd H)"
  by (auto simp: getFdContext_def ctx_at_def)

text \<open>Every socket the table knows is non-blocking for the kernel.\<close>

definition nonblocking :: "hook_state \<Rightarrow> bool" where
  "nonblocking H \<longleftrightarrow> (\<forall>fd c. ctx_at fd H = Some c \<longrightarrow> isSock c \<longrightarrow> isSysNonblock c \<and> \<not> fd_close c \<and> bit (k_flags H (nat fd)) 11)"

lemma ctx_at_set_ctx:
  "0 \<le> fd \<Longrightarrow> ctx_at fd H = Some c0 \<Longrightarrow> 0 \<le> gd \<Longrightarrow> ctx_at gd (set_ctx (nat fd) c H) = (if gd = fd then Some c else ctx_at gd H)"
  by (auto simp: ctx_at_def set_ctx_def nth_list_update split: if_splits)

lemma ctx_at_neg: "fd < 0 \<Longrightarrow> ctx_at fd H = None"
  by (simp add: ctx_at_def)

lemma ctx_at_flags: "ctx_at fd (H\<lparr>k_flags := f\<rparr>) = ctx_at fd H"
  by (simp add: ctx_at_def)

lemma nonblockingE:
  assumes "nonblocking H" "ctx_at fd H = Some c" "isSock c"
  shows "isSysNonblock c" "\<not> fd_close c" "bit (k_flags H (nat fd)) 11"
  using assms by (auto simp: nonblocking_def)

text \<open>A change of the context and the flags of one descriptor.\<close>

lemma nonblocking_update:
  assumes "nonblocking H" "ctx_at fd H = Some c" "isSock c" "isSock c'" "isSysNonblock c'" "\<not> fd_close c'" "bit v 11"
  shows "nonblocking (set_ctx (nat fd) c' (H\<lparr>k_flags := (k_flags H)(nat fd := v)\<rparr>))"
proof -
  have fd: "0 \<le> fd" using assms(2) ctx_at_neg [of fd H] by (cases "fd < 0") auto
  have "ctx_at gd (set_ctx (nat fd) c' (H\<lparr>k_flags := (k_flags H)(nat fd := v)\<rparr>)) = (if gd = fd then Some c' else ctx_at gd H)" for gd
    using ctx_at_set_ctx [OF fd, of "H\<lparr>k_flags := (k_flags H)(nat fd := v)\<rparr>" c gd c'] assms(2) fd
    by (cases "gd < 0") (auto simp: ctx_at_flags ctx_at_neg)
  moreover have "gd \<noteq> fd \<Longrightarrow> ctx_at gd H = Some d \<Longrightarrow> nat gd \<noteq> nat fd" for gd d
    using fd ctx_at_neg [of gd H] by (cases "gd < 0") auto
  ultimately show ?thesis
    using assms unfolding nonblocking_def by (auto simp: set_ctx_def)
qed

text \<open>
  C13: on a socket the replaced \<open>fcntl\<close> cannot be told from the native one, while the kernel keeps the
  descriptor non-blocking. After \<open>F_SETFL arg\<close>, \<open>F_GETFL\<close> returns what the native call would return, given
  what it returned before; every known socket stays non-blocking for the kernel; and \<open>do_io\<close> suspends
  instead of returning exactly when the program sees a blocking descriptor.
\<close>

theorem fcntl_like_native:
  assumes "nonblocking H" "ctx_at fd H = Some c" "isSock c" "fcntl_getfl fd H = Inr old"
  shows "\<exists>H'. fcntl_setfl fd arg H = Inr H' \<and> fcntl_getfl fd H' = Inr (native_setfl arg old) \<and> nonblocking H' \<and>
    (t_hookEnable H' \<longrightarrow> do_io fd type so as ws H' =
       Inr (if native_setfl arg old AND O_NONBLOCK \<noteq> 0 then plain_call as else io_loop type (getTimeout so c) as ws))"
proof -
  note n = nonblockingE [OF assms(1-3)]
  have fd: "0 \<le> fd" using assms(2) ctx_at_neg [of fd H] by (cases "fd < 0") auto
  define v where "v = (k_flags H (nat fd) AND NOT settable) OR ((arg OR O_NONBLOCK) AND settable)"
  define c' where "c' = c\<lparr>isUserNonblock := (arg AND O_NONBLOCK \<noteq> 0)\<rparr>"
  define H' where "H' = set_ctx (nat fd) c' (H\<lparr>k_flags := (k_flags H)(nat fd := v)\<rparr>)"
  have 1: "fcntl_setfl fd arg H = Inr H'"
    using n assms(2,3) fd by (simp add: fcntl_setfl_def getFdContext_ctx setfl_origin_def H'_def v_def c'_def set_ctx_def)
  have v: "bit v 11" by (simp add: v_def bit_simps settable_nonblock O_NONBLOCK_bits)
  have 2: "nonblocking H'"
    unfolding H'_def by (rule nonblocking_update [OF assms(1-3)]) (use n assms(3) v in \<open>simp_all add: c'_def\<close>)
  have c: "ctx_at fd H' = Some c'"
    using ctx_at_set_ctx [OF fd, of "H\<lparr>k_flags := (k_flags H)(nat fd := v)\<rparr>" c fd c'] assms(2) fd by (simp add: H'_def ctx_at_flags)
  have old: "old = (if isUserNonblock c then k_flags H (nat fd) OR O_NONBLOCK else k_flags H (nat fd) AND NOT O_NONBLOCK)"
    using assms n fd by (simp add: fcntl_getfl_def getFdContext_ctx Let_def)
  have k: "k_flags H' (nat fd) = v" by (simp add: H'_def set_ctx_def)
  have "(if isUserNonblock c' then v OR O_NONBLOCK else v AND NOT O_NONBLOCK) = native_setfl arg old"
    by (rule bit_word_eqI)
      (auto simp: old c'_def v_def native_setfl_def bit_simps O_NONBLOCK_bits nonblock_bit settable_nonblock)
  then have 3: "fcntl_getfl fd H' = Inr (native_setfl arg old)"
    using c k n(2) assms(3) fd by (simp add: fcntl_getfl_def getFdContext_ctx c'_def)
  have "native_setfl arg old AND O_NONBLOCK \<noteq> 0 \<longleftrightarrow> isUserNonblock c'"
    by (auto simp: native_setfl_def c'_def nonblock_bit bit_simps settable_nonblock)
  then have "t_hookEnable H' \<longrightarrow> do_io fd type so as ws H' =
      Inr (if native_setfl arg old AND O_NONBLOCK \<noteq> 0 then plain_call as else io_loop type (getTimeout so c) as ws)"
    using c fd n(2) assms(3) by (simp add: do_io_def getFdContext_ctx c'_def getTimeout_def split: sock_timeo.split)
  with 1 2 3 show ?thesis by blast
qed

text \<open>
  On every other command the wrapper is the native call, with one exception: \<open>F_GETOWNER_UIDS\<close> loses its
  argument.
\<close>

definition takes_arg :: "fcntl_cmd \<Rightarrow> bool" where
  "takes_arg cmd \<longleftrightarrow> cmd \<notin> {F_GETFL, F_GETFD, F_GETOWN, F_GETSIG, F_GETLEASE, F_GETPIPE_SZ, F_GET_SEALS}"

lemma fcntl_passes_on:
  "cmd \<notin> {F_SETFL, F_GETFL, F_GETOWNER_UIDS} \<Longrightarrow>
   hook_fcntl origin fd cmd arg H = Inr (origin fd cmd (if takes_arg cmd then Some arg else None) H)"
  "hook_fcntl origin fd F_GETOWNER_UIDS arg H = Inr (origin fd F_GETOWNER_UIDS None H)" "takes_arg F_GETOWNER_UIDS"
  by (cases cmd; simp add: hook_fcntl_def takes_arg_def)+

text \<open>A table with one socket.\<close>

definition hook_example :: hook_state where
  "hook_example = \<lparr> t_hookEnable = True, fdcontexts = [None, None, None, None, None], k_flags = (\<lambda>_. 2), k_sock = (\<lambda>fd. fd = 4) \<rparr>"

definition hook_example_open :: hook_state where
  "hook_example_open = snd (projr (hook_socket 4 hook_example))"

lemma hook_example_ctx:
  "ctx_at 4 hook_example_open = Some \<lparr> isSock = True, isSysNonblock = True, isUserNonblock = False, fd_close = False,
     recvTimeout = -1, sendTimeout = -1 \<rparr>"
  "k_flags hook_example_open 4 = 0x802" "length (fdcontexts hook_example_open) = 5" "t_hookEnable hook_example_open"
  "i \<noteq> 4 \<Longrightarrow> ctx_at i hook_example_open = None"
  by (auto simp: hook_example_open_def hook_example_def hook_socket_def addFd_def new_FdContext_def setfl_origin_def ctx_at_def
      O_NONBLOCK_def settable_def Let_def nth_list_update nth_Cons' split: if_splits)

lemma hook_example_nonblocking: "nonblocking hook_example_open"
  unfolding nonblocking_def
proof (intro allI impI)
  fix fd c
  assume c: "ctx_at fd hook_example_open = Some c" "isSock c"
  then have "fd = 4" using hook_example_ctx(5) [of fd] by auto
  with c show "isSysNonblock c \<and> \<not> fd_close c \<and> bit (k_flags hook_example_open (nat fd)) 11"
    using hook_example_ctx(1,2) nonblock_bit [of "0x802"] by (auto simp: O_NONBLOCK_def)
qed

theorem fcntl_like_native_witness:
  "\<exists>H'. fcntl_setfl 4 0x802 hook_example_open = Inr H' \<and> fcntl_getfl 4 H' = Inr 0x802"
proof -
  have "fcntl_getfl 4 hook_example_open = Inr 2"
    using hook_example_ctx(1,2) by (simp add: fcntl_getfl_def getFdContext_ctx O_NONBLOCK_def)
  from fcntl_like_native [OF hook_example_nonblocking hook_example_ctx(1) _ this, of "0x802" EPOLLIN SO_RCVTIMEO "[]" "[]"]
  show ?thesis by (auto simp: native_setfl_def settable_def)
qed

text \<open>
  \<open>ioctl(fd, FIONBIO, 0)\<close> breaks what \<open>fcntl\<close> keeps. The request is passed on as it is, so the kernel
  clears \<open>O_NONBLOCK\<close> although the context still counts the socket as non-blocking, and \<open>do_io\<close> goes on
  calling the original function and waiting for the poller: a call that finds no data now blocks the whole
  worker thread.
\<close>

theorem ioctl_clears_nonblocking:
  assumes "nonblocking H" "ctx_at fd H = Some c" "isSock c" "t_hookEnable H"
  shows "\<exists>H' c'. ioctl_fionbio fd False H = Inr H' \<and> ctx_at fd H' = Some c' \<and> isSysNonblock c' \<and>
    \<not> bit (k_flags H' (nat fd)) 11 \<and> \<not> nonblocking H' \<and> do_io fd type so as ws H' = Inr (io_loop type (getTimeout so c) as ws)"
proof -
  note n = nonblockingE [OF assms(1-3)]
  have fd: "0 \<le> fd" using assms(2) ctx_at_neg [of fd H] by (cases "fd < 0") auto
  define c' where "c' = c\<lparr>isUserNonblock := False\<rparr>"
  define H' where "H' = fionbio_origin (nat fd) False (set_ctx (nat fd) c' H)"
  have 1: "ioctl_fionbio fd False H = Inr H'"
    using n assms(2,3) fd by (simp add: ioctl_fionbio_def getFdContext_ctx H'_def c'_def)
  have c: "ctx_at fd H' = Some c'"
    using ctx_at_set_ctx [OF fd assms(2) fd, of c'] by (simp add: H'_def fionbio_origin_def ctx_at_flags)
  have k: "\<not> bit (k_flags H' (nat fd)) 11" by (simp add: H'_def fionbio_origin_def bit_simps O_NONBLOCK_bits)
  have "\<not> nonblocking H'" using c k assms(3) nonblockingE(3) [of H' fd c'] by (auto simp: c'_def)
  moreover have "do_io fd type so as ws H' = Inr (io_loop type (getTimeout so c) as ws)"
    using c fd n(2) assms(3,4)
    by (simp add: do_io_def getFdContext_ctx c'_def getTimeout_def H'_def fionbio_origin_def set_ctx_def split: sock_timeo.split)
  ultimately show ?thesis using 1 c k n(1) by (auto simp: c'_def)
qed

theorem ioctl_clears_nonblocking_witness:
  "\<exists>H'. ioctl_fionbio 4 False hook_example_open = Inr H' \<and> \<not> nonblocking H'"
  using ioctl_clears_nonblocking [OF hook_example_nonblocking hook_example_ctx(1) _ hook_example_ctx(4), of EPOLLIN SO_RCVTIMEO "[]" "[]"] by auto

section \<open>Blocking calls return\<close>

definition transient :: "attempt \<Rightarrow> bool" where
  "transient a \<longleftrightarrow> a = Fails EINTR \<or> a = Fails EAGAIN"

definition undisturbed :: "int \<Rightarrow> wait_outcome \<Rightarrow> bool" where
  "undisturbed timeout w \<longleftrightarrow> add_errno w = None \<and> (timeout = -1 \<or> \<not> timer_ran w)"

abbreviation again_count :: "attempt list \<Rightarrow> nat" where
  "again_count as \<equiv> length (filter (\<lambda>a. a = Fails EAGAIN) as)"

fun io_trace :: "32 word \<Rightarrow> int \<Rightarrow> attempt list \<Rightarrow> io_act list" where
  "io_trace type timeout [] = []"
| "io_trace type timeout (a # as) =
     (if a = Fails EAGAIN
      then Call # (if timeout \<noteq> -1 then [Arm timeout] else []) @ [Suspend type] @ (if timeout \<noteq> -1 then [Cancel] else [])
      else [Call]) @ io_trace type timeout as"

lemma errno_distinct: "EINTR \<noteq> EAGAIN" "EAGAIN \<noteq> EINTR"
  by (simp_all add: EINTR_def EAGAIN_def)

lemma io_loop_transient:
  "list_all transient pre \<Longrightarrow> again_count pre \<le> length ws \<Longrightarrow> list_all (undisturbed timeout) (take (again_count pre) ws) \<Longrightarrow>
   io_loop type timeout (pre @ as) ws =
     map_option (\<lambda>(r, tr). (r, io_trace type timeout pre @ tr)) (io_loop type timeout as (drop (again_count pre) ws))"
proof (induction pre arbitrary: ws)
  case Nil
  show ?case by (simp add: option.map_ident split_beta)
next
  case (Cons a pre)
  show ?case
  proof (cases "a = Fails EAGAIN")
    case True
    with Cons.prems obtain w ws' where "ws = w # ws'" "undisturbed timeout w" by (cases ws) auto
    with Cons True show ?thesis
      by (auto simp: undisturbed_def errno_distinct option.map_comp comp_def split_beta)
  next
    case False
    with Cons.prems have "a = Fails EINTR" by (simp add: transient_def)
    with Cons False show ?thesis by (auto simp: errno_distinct option.map_comp comp_def split_beta)
  qed
qed

lemma io_trace_counts:
  "length (filter (\<lambda>x. x = Suspend type) (io_trace type timeout as)) = again_count as"
  "length (filter (\<lambda>x. x = Arm timeout) (io_trace type timeout as)) = (if timeout = -1 then 0 else again_count as)"
  "length (filter (\<lambda>x. x = Cancel) (io_trace type timeout as)) = (if timeout = -1 then 0 else again_count as)"
  "length (filter (\<lambda>x. x = Call) (io_trace type timeout as)) = length as"
  by (induction as) auto

text \<open>
  C9: a replaced call on a socket behaves like the blocking one. While the original call is interrupted or
  would block, \<open>do_io\<close> calls it again, suspending the coroutine once for each \<open>EAGAIN\<close>; the first other
  outcome is returned, so that the program never sees \<open>EINTR\<close> or \<open>EAGAIN\<close>. Each timer that was set is
  cancelled again. When the timer runs out during a wait the call fails with \<open>ETIMEDOUT\<close>.
\<close>

theorem do_io_blocks:
  assumes "t_hookEnable H" "ctx_at fd H = Some c" "isSock c" "\<not> isUserNonblock c" "\<not> fd_close c"
    and "list_all transient pre" "again_count pre \<le> length ws"
    and "list_all (undisturbed (getTimeout so c)) (take (again_count pre) ws)"
  shows "(\<not> transient r \<longrightarrow> do_io fd type so (pre @ r # rest) ws H = Inr (Some (r, io_trace type (getTimeout so c) (pre @ [r])))) \<and>
    length (filter (\<lambda>x. x = Arm (getTimeout so c)) (io_trace type (getTimeout so c) (pre @ [r]))) =
      length (filter (\<lambda>x. x = Cancel) (io_trace type (getTimeout so c) (pre @ [r]))) \<and>
    (getTimeout so c \<noteq> -1 \<longrightarrow> again_count pre < length ws \<longrightarrow> add_errno (ws ! again_count pre) = None \<longrightarrow>
      timer_ran (ws ! again_count pre) \<longrightarrow>
      (\<exists>tr. do_io fd type so (pre @ Fails EAGAIN # rest) ws H = Inr (Some (Fails ETIMEDOUT, tr))))"
proof -
  have fd: "0 \<le> fd" using assms(2) ctx_at_neg [of fd H] by (cases "fd < 0") auto
  let ?t = "getTimeout so c"
  have d: "do_io fd type so as ws H = Inr (io_loop type ?t as ws)" for as
    using assms(1-5) fd by (simp add: do_io_def getFdContext_ctx)
  note p = io_loop_transient [OF assms(6-8)]
  have "io_loop type ?t (r # rest) (drop (again_count pre) ws) = Some (r, [Call])" if "\<not> transient r"
    using that by (cases r) (auto simp: transient_def)
  moreover have "io_trace type ?t (pre @ [r]) = io_trace type ?t pre @ [Call]" if "\<not> transient r"
    using that by (induction pre) (auto simp: transient_def)
  ultimately have "\<not> transient r \<longrightarrow> do_io fd type so (pre @ r # rest) ws H = Inr (Some (r, io_trace type ?t (pre @ [r])))"
    by (simp add: d p)
  moreover have "\<exists>tr. do_io fd type so (pre @ Fails EAGAIN # rest) ws H = Inr (Some (Fails ETIMEDOUT, tr))"
    if "?t \<noteq> -1" "again_count pre < length ws" "add_errno (ws ! again_count pre) = None" "timer_ran (ws ! again_count pre)"
    using that by (auto simp: d p errno_distinct Cons_nth_drop_Suc [symmetric] Let_def)
  ultimately show ?thesis using io_trace_counts(2) [of ?t type "pre @ [r]"] io_trace_counts(3) [of type ?t "pre @ [r]"] by simp
qed

theorem do_io_blocks_witness:
  "do_io 4 EPOLLIN SO_RCVTIMEO [Fails EAGAIN, Fails EINTR, Ret 7] [\<lparr>add_errno = None, timer_ran = False\<rparr>] hook_example_open =
     Inr (Some (Ret 7, [Call, Suspend EPOLLIN, Call, Call]))"
proof -
  have "list_all transient [Fails EAGAIN, Fails EINTR]" by (simp add: transient_def)
  with do_io_blocks [OF hook_example_ctx(4,1), of "[Fails EAGAIN, Fails EINTR]" "[\<lparr>add_errno = None, timer_ran = False\<rparr>]" SO_RCVTIMEO "Ret 7" EPOLLIN "[]"]
  show ?thesis by (simp add: errno_distinct undisturbed_def transient_def getTimeout_def)
qed

lemma hook_close_wakes:
  assumes "ep_reach A D E" "t_hookEnable H" "ctx_at fd H = Some c"
  shows "\<exists>H' E'. hook_close fd H E = Inr (H', E') \<and> ctx_at fd H' = None \<and> (\<forall>gd. gd = fd \<or> ctx_at gd H' = ctx_at gd H) \<and>
    \<not> registered (nat fd) EPOLLIN E' \<and> \<not> registered (nat fd) EPOLLOUT E' \<and> interest E' (nat fd) = None \<and>
    mset (scheduled E') + waiting E' = mset (scheduled E) + waiting E"
proof -
  have fd: "0 \<le> fd" using assms(3) ctx_at_neg [of fd H] by (cases "fd < 0") auto
  have i: "ep_inv E" using ep_reach_conserve [OF assms(1)] by blast
  obtain b E' where E': "handleAllEvent (nat fd) E = Inr (b, E')" "ep_inv E'"
    "mset (scheduled E') + waiting E' = mset (scheduled E) + waiting E"
    "b \<longleftrightarrow> registered (nat fd) EPOLLIN E \<or> registered (nat fd) EPOLLOUT E"
    "b \<Longrightarrow> \<not> registered (nat fd) EPOLLIN E' \<and> \<not> registered (nat fd) EPOLLOUT E' \<and> interest E' (nat fd) = None"
    "\<not> b \<Longrightarrow> E' = E"
    using handleAllEvent_spec [OF i, of "nat fd"] by metis
  have "interest E (nat fd) = None" if "\<not> b"
  proof (cases "nat fd < length (ioEvents E)")
    case True
    with that E'(4) have "\<not> reads (ioEvents E ! nat fd)" "\<not> writes (ioEvents E ! nat fd)"
      by (simp_all add: registered_def reads_def writes_def)
    then have "types (ioEvents E ! nat fd) = 0" using ep_inv_event [OF i True] by (auto elim!: event_okE)
    then show ?thesis using ep_inv_interest [OF i True] by simp
  next
    case False
    then show ?thesis using i by (auto simp: ep_inv_def split: if_splits)
  qed
  with E' have n: "\<not> registered (nat fd) EPOLLIN E'" "\<not> registered (nat fd) EPOLLOUT E'" "interest E' (nat fd) = None"
    by (cases b; simp)+
  have "hook_close fd H E = Inr (delFd (nat fd) H, E')"
    using assms(2,3) fd E'(1) by (simp add: hook_close_def getFdContext_ctx)
  moreover have "ctx_at fd (delFd (nat fd) H) = None" "gd = fd \<or> ctx_at gd (delFd (nat fd) H) = ctx_at gd H" for gd
    using fd by (auto simp: ctx_at_def delFd_def nth_list_update)
  ultimately show ?thesis using n E'(3) by blast
qed



end
