(* ===== verification/Address.thy ===== *)
theory Address
  imports Endian C_Text
begin

unbundle bit_operations_syntax

text \<open>
  \<open>src/reyao/address.h\<close> and \<open>address.cc\<close>: IPv4 addresses. The fields of a \<open>sockaddr_in\<close> are the integers the host
  reads there, \<open>bo\<close> is its byte order, \<open>junk\<close> the content of memory that nothing has initialised. \<open>inet_pton\<close> is
  glibc's: four decimal numbers up to 255 without leading zeros; anything else is refused with the result 0,
  and the destination is left alone. \<open>gethostbyname\<close> is an argument.
\<close>

section \<open>Operations\<close>

record sockaddr_in =
  sin_family :: "16 word"
  sin_port :: "16 word"
  sin_addr :: "32 word"

definition AF_INET :: "16 word" where "AF_INET = 2"

fun split_ch :: "char \<Rightarrow> string \<Rightarrow> string list" where
  "split_ch c [] = [[]]"
| "split_ch c (x # xs) =
     (if x = c then [] # split_ch c xs else (x # hd (split_ch c xs)) # tl (split_ch c xs))"

definition octet :: "string \<Rightarrow> nat option" where
  "octet s =
     (if s \<noteq> [] \<and> list_all is_digit_c s \<and> (length s > 1 \<longrightarrow> hd s \<noteq> CHR ''0'') \<and> digits_val 0 s \<le> 255
      then Some (digits_val 0 s) else None)"

definition inet_pton :: "string \<Rightarrow> byte list option" where
  "inet_pton s =
     (let os = map octet (split_ch (CHR ''.'') (c_str s)) in
      if length os = 4 \<and> None \<notin> set os then Some (map (char_of \<circ> the) os) else None)"

definition IPv4Address_empty :: sockaddr_in where
  "IPv4Address_empty = \<lparr> sin_family = AF_INET, sin_port = 0, sin_addr = 0 \<rparr>"

definition IPv4Address :: "int \<Rightarrow> sockaddr_in \<Rightarrow> string \<Rightarrow> 16 word \<Rightarrow> sockaddr_in" where
  "IPv4Address bo junk addr port =
     (let a = junk\<lparr>sin_family := AF_INET, sin_port := byteSwapOnLittleEndian bo port\<rparr> in
      case inet_pton addr of None \<Rightarrow> a | Some bs \<Rightarrow> a\<lparr>sin_addr := of_mem bo bs\<rparr>)"

definition getPort :: "int \<Rightarrow> sockaddr_in \<Rightarrow> 16 word" where
  "getPort bo a = byteSwapOnLittleEndian bo (sin_port a)"

definition setPort :: "int \<Rightarrow> 16 word \<Rightarrow> sockaddr_in \<Rightarrow> sockaddr_in" where
  "setPort bo port a = a\<lparr>sin_port := byteSwapOnLittleEndian bo port\<rparr>"

definition addr_toString :: "int \<Rightarrow> sockaddr_in \<Rightarrow> string" where
  "addr_toString bo a =
     (let addr = byteSwapOnLittleEndian bo (sin_addr a) in
      dec (unat (drop_bit 24 addr AND 0xff)) @ ''.'' @ dec (unat (drop_bit 16 addr AND 0xff)) @ ''.'' @
      dec (unat (drop_bit 8 addr AND 0xff)) @ ''.'' @ dec (unat (addr AND 0xff)) @ '':'' @ dec (unat (getPort bo a)))"

definition GetHostByName :: "int \<Rightarrow> (string \<Rightarrow> byte list option) \<Rightarrow> string \<Rightarrow> 16 word \<Rightarrow> sockaddr_in" where
  "GetHostByName bo gethostbyname hostname port =
     (let a = \<lparr> sin_family = AF_INET, sin_port = byteSwapOnLittleEndian bo port, sin_addr = 0 \<rparr> in
      case gethostbyname hostname of None \<Rightarrow> a | Some bs \<Rightarrow> a\<lparr>sin_addr := of_mem bo bs\<rparr>)"

definition CreateByName :: "int \<Rightarrow> sockaddr_in \<Rightarrow> (string \<Rightarrow> byte list option) \<Rightarrow> string \<Rightarrow> 16 word \<Rightarrow> sockaddr_in" where
  "CreateByName bo junk gethostbyname hostname port =
     (let a = \<lparr> sin_family = AF_INET, sin_port = byteSwapOnLittleEndian bo port, sin_addr = 0 \<rparr> in
      case gethostbyname hostname of
        None \<Rightarrow> IPv4Address bo junk ''0.0.0.0'' 0
      | Some bs \<Rightarrow> a\<lparr>sin_addr := of_mem bo bs\<rparr>)"

definition CreateAddress :: "int \<Rightarrow> sockaddr_in \<Rightarrow> string \<Rightarrow> 16 word \<Rightarrow> sockaddr_in" where
  "CreateAddress bo junk addr port = IPv4Address bo junk addr port"

section \<open>Dotted notation\<close>

definition quad :: "nat list \<Rightarrow> string" where
  "quad os = (case os of [a, b, c, d] \<Rightarrow> dec a @ ''.'' @ dec b @ ''.'' @ dec c @ ''.'' @ dec d | _ \<Rightarrow> [])"

lemma split_ch_last: "c \<notin> set s \<Longrightarrow> split_ch c s = [s]"
  by (induction s) auto

lemma split_ch_step: "c \<notin> set s \<Longrightarrow> split_ch c (s @ c # t) = s # split_ch c t"
  by (induction s) auto

lemma dec_hd: "0 < n \<Longrightarrow> hd (dec n) \<noteq> CHR ''0''"
proof (induction n rule: dec.induct)
  case (1 n)
  show ?case
  proof (cases "n < 10")
    case True
    have "ord_of (char_of (48 + n)) = 48 + n" using True by (simp add: ord_of_char_of)
    moreover have "ord_of (CHR ''0'') = 48" by (simp add: ord_of_def)
    ultimately have "char_of (48 + n) \<noteq> CHR ''0''" using 1(2) by (metis add_cancel_left_right less_irrefl)
    then show ?thesis using True by (simp add: dec.simps [of n])
  next
    case False
    then have "dec n = dec (n div 10) @ [char_of (48 + n mod 10)]" by (simp add: dec.simps [of n])
    with 1(1) [OF False] False show ?thesis by simp
  qed
qed

lemma length_dec: "1 < length (dec n) \<Longrightarrow> 0 < n"
  by (cases "n = 0") (simp_all add: dec.simps [of 0])

lemma octet_dec: "n \<le> 255 \<Longrightarrow> octet (dec n) = Some n"
  using dec_digits [of n] dec_hd [of n] length_dec [of n] by (auto simp: octet_def digits_val_dec list_all_iff)

lemma dec_no_sep: "CHR ''.'' \<notin> set (dec n)" "CHR 0x00 \<notin> set (dec n)"
  using dec_digits [of n] by (auto simp: is_digit_c_def ord_of_def)

lemma inet_pton_quad:
  assumes "a \<le> 255" "b \<le> 255" "c \<le> 255" "d \<le> 255"
  shows "inet_pton (quad [a, b, c, d]) = Some (map char_of [a, b, c, d])"
proof -
  have "c_str (quad [a, b, c, d]) = quad [a, b, c, d]" by (rule c_str_id) (simp add: quad_def dec_no_sep)
  moreover have "split_ch (CHR ''.'') (quad [a, b, c, d]) = [dec a, dec b, dec c, dec d]"
    by (simp add: quad_def split_ch_step split_ch_last dec_no_sep)
  ultimately show ?thesis using assms by (simp add: inet_pton_def octet_dec)
qed

lemma byte_at: "unat (drop_bit n (x :: 32 word) AND 0xff) = unat x div 2 ^ n mod 256"
proof -
  have "(0xff :: 32 word) = mask 8" by (simp add: mask_eq_exp_minus_1)
  then have "drop_bit n x AND 0xff = take_bit 8 (drop_bit n x)" by (simp add: take_bit_eq_mask)
  moreover have "unat (take_bit 8 (drop_bit n x)) = take_bit 8 (drop_bit n (take_bit 32 (unat x)))"
    by (simp only: unsigned_take_bit_eq unsigned_drop_bit_eq) simp
  moreover have "take_bit 32 (unat x) = unat x" using unsigned_less [of x] by (simp add: take_bit_nat_eq_self_iff)
  ultimately show ?thesis by (simp only: take_bit_eq_mod drop_bit_eq_div) simp
qed

lemma unat_of_le_4: "length bs = 4 \<Longrightarrow> unat (of_nat (of_le bs) :: 32 word) = of_le bs"
  using of_le_less [of bs] by (simp add: unat_of_nat)

lemma byteSwap_of_le: "length bs = 4 \<Longrightarrow> byteSwap (of_nat (of_le bs) :: 32 word) = of_nat (of_le (rev bs))"
  using le_bytes_of_le [of bs] by (simp add: byteSwap_def unat_of_le_4)

lemma to_mem_of_le: "length bs = 4 \<Longrightarrow> to_mem LITTLE_ENDIAN (of_nat (of_le bs) :: 32 word) = bs"
  using le_bytes_of_le [of bs] by (simp add: to_mem_def unat_of_le_4)

lemma base_256:
  fixes a b c d :: nat
  assumes "a < 256" "b < 256" "c < 256" "d < 256"
  shows "(d + 256 * (c + 256 * (b + 256 * a))) div (256 * (256 * 256)) mod 256 = a"
    "(d + 256 * (c + 256 * (b + 256 * a))) div (256 * 256) mod 256 = b"
    "(d + 256 * (c + 256 * (b + 256 * a))) div 256 mod 256 = c" "(d + 256 * (c + 256 * (b + 256 * a))) mod 256 = d"
proof -
  have "(x + 256 * q) div 256 = q" "(x + 256 * q) mod 256 = x" if "x < 256" for x q :: nat using that by simp_all
  with assms show "(d + 256 * (c + 256 * (b + 256 * a))) div (256 * (256 * 256)) mod 256 = a"
    "(d + 256 * (c + 256 * (b + 256 * a))) div (256 * 256) mod 256 = b"
    "(d + 256 * (c + 256 * (b + 256 * a))) div 256 mod 256 = c" "(d + 256 * (c + 256 * (b + 256 * a))) mod 256 = d"
    unfolding div_mult2_eq by (simp_all only: mod_less)
qed

text \<open>
  An address prints as it was written. On a little-endian host an address made from a dotted quad and a
  port has the port's and the quad's bytes in network order and prints as the quad, a colon and the port;
  \<open>getPort\<close> returns what the constructor or \<open>setPort\<close> stored. An address that \<open>inet_pton\<close> refuses is not noticed:
  its result is compared with -1 and not with 0, and the address is whatever the memory held.
\<close>

theorem address_roundtrip:
  assumes "a \<le> 255" "b \<le> 255" "c \<le> 255" "d \<le> 255"
  shows "addr_toString LITTLE_ENDIAN (CreateAddress LITTLE_ENDIAN junk (quad [a, b, c, d]) port) =
      quad [a, b, c, d] @ '':'' @ dec (unat port) \<and>
    to_mem LITTLE_ENDIAN (sin_addr (CreateAddress LITTLE_ENDIAN junk (quad [a, b, c, d]) port)) = map char_of [a, b, c, d] \<and>
    to_mem LITTLE_ENDIAN (sin_port (CreateAddress LITTLE_ENDIAN junk (quad [a, b, c, d]) port)) = be_bytes port \<and>
    getPort LITTLE_ENDIAN (setPort LITTLE_ENDIAN p x) = p \<and>
    (inet_pton s = None \<longrightarrow> sin_addr (CreateAddress LITTLE_ENDIAN junk s port) = sin_addr junk)"
proof -
  let ?bs = "map char_of [a, b, c, d] :: byte list"
  define A where "A = CreateAddress LITTLE_ENDIAN junk (quad [a, b, c, d]) port"
  have A: "sin_addr A = of_nat (of_le ?bs)" "sin_port A = byteSwap port"
    using inet_pton_quad [OF assms]
    by (simp_all add: A_def CreateAddress_def IPv4Address_def of_mem_def byteSwapOnLittleEndian_swaps host_order_def)
  have sw: "byteSwapOnLittleEndian LITTLE_ENDIAN w = byteSwap w" for w :: "32 word"
    by (simp add: byteSwapOnLittleEndian_swaps host_order_def)
  have sp: "byteSwapOnLittleEndian LITTLE_ENDIAN w = byteSwap w" for w :: "16 word"
    by (simp add: byteSwapOnLittleEndian_swaps host_order_def)
  have o: "of_char (char_of n :: char) = n" if "n \<le> 255" for n :: nat using that by simp
  have le: "of_le (rev ?bs) = d + 256 * (c + 256 * (b + 256 * a))" using assms o by simp
  have u: "unat (byteSwap (sin_addr A)) = d + 256 * (c + 256 * (b + 256 * a))"
    using byteSwap_of_le [of ?bs] unat_of_le_4 [of "rev ?bs"] by (simp only: A le) simp
  have p: "getPort LITTLE_ENDIAN A = port" by (simp add: getPort_def sp A byteSwap_byteSwap)
  have "unat (byteSwap (sin_addr A)) div 16777216 mod 256 = a" "unat (byteSwap (sin_addr A)) div 65536 mod 256 = b"
    "unat (byteSwap (sin_addr A)) div 256 mod 256 = c" "unat (byteSwap (sin_addr A)) mod 256 = d"
    unfolding u using base_256 [of a b c d] assms by simp_all
  then have str: "addr_toString LITTLE_ENDIAN A = quad [a, b, c, d] @ '':'' @ dec (unat port)"
    using byte_at [of 0 "byteSwap (sin_addr A)"] by (simp add: addr_toString_def Let_def sw byte_at p quad_def)
  have "to_mem LITTLE_ENDIAN (sin_addr A) = ?bs"
    unfolding A by (rule to_mem_of_le) simp
  moreover have "to_mem LITTLE_ENDIAN (sin_port A) = be_bytes port" by (simp add: A to_mem_LITTLE_byteSwap)
  moreover have "getPort LITTLE_ENDIAN (setPort LITTLE_ENDIAN p x) = p"
    by (simp add: getPort_def setPort_def sp byteSwap_byteSwap)
  moreover have "inet_pton s = None \<longrightarrow> sin_addr (CreateAddress LITTLE_ENDIAN junk s port) = sin_addr junk"
    by (simp add: CreateAddress_def IPv4Address_def)
  ultimately show ?thesis using str unfolding A_def by blast
qed

theorem address_roundtrip_witness:
  "addr_toString LITTLE_ENDIAN (CreateAddress LITTLE_ENDIAN IPv4Address_empty (quad [127, 0, 0, 1]) 8080) =
     quad [127, 0, 0, 1] @ '':'' @ dec 8080 \<and>
   inet_pton ''localhost'' = None"
  using address_roundtrip [of 127 0 0 1 IPv4Address_empty 8080]
  by (simp add: inet_pton_def octet_def c_str_def is_digit_c_def ord_of_def)

end
