(* ===== verification/Socket.thy ===== *)
theory Socket
  imports Hook Address
begin

text \<open>
  \<open>src/reyao/socket.h\<close> and \<open>socket.cc\<close>: the socket class on top of the replaced system calls. What the kernel answers
  is an argument of each operation: the descriptor a call of \<open>socket\<close> returns, whether \<open>bind\<close> and \<open>listen\<close> succeed, the
  outcomes of the calls \<open>do_io\<close> makes. \<open>os_local\<close> and \<open>os_peer\<close> are the answers of \<open>getsockname\<close> and \<open>getpeername\<close>,
  \<open>os_opts\<close> the options set on descriptors and \<open>os_closed\<close> the descriptors given to the original \<open>close\<close>, in order.
\<close>

section \<open>State\<close>

datatype sock_state = INIT | LISTEN | CONNECTED | CLOSE

record sock =
  sk_type :: int
  sk_family :: int
  sk_protocol :: int
  sockfd :: int
  sk_state :: sock_state
  sk_local :: "sockaddr_in option"
  sk_peer :: "sockaddr_in option"

datatype sock_opt = SO_REUSEADDR | TCP_NODELAY

record 'f os =
  os_hook :: hook_state
  os_ep :: "'f epoller"
  os_local :: "int \<Rightarrow> sockaddr_in option"
  os_peer :: "int \<Rightarrow> sockaddr_in option"
  os_opts :: "(int \<times> sock_opt) list"
  os_closed :: "int list"

definition SOCK_STREAM :: int where "SOCK_STREAM = 1"

definition new_Socket :: "int \<Rightarrow> int \<Rightarrow> int \<Rightarrow> sock" where
  "new_Socket type family protocol =
     \<lparr> sk_type = type, sk_family = family, sk_protocol = protocol, sockfd = -1, sk_state = INIT, sk_local = None, sk_peer = None \<rparr>"

text \<open>The first two arguments are in the order of \<open>socket(2)\<close>, not of the constructor.\<close>

definition CreateTcp :: sock where
  "CreateTcp = new_Socket (uint AF_INET) SOCK_STREAM 0"

definition isConnected :: "sock \<Rightarrow> bool" where "isConnected s \<longleftrightarrow> sk_state s = CONNECTED"
definition isValid :: "sock \<Rightarrow> bool" where "isValid s \<longleftrightarrow> sockfd s \<noteq> -1"

section \<open>Addresses and options\<close>

definition getLocalAddr :: "'f os \<Rightarrow> sock \<Rightarrow> sockaddr_in option \<times> sock" where
  "getLocalAddr X s =
     (if sk_local s = None
      then case os_local X (sockfd s) of None \<Rightarrow> (None, s) | Some a \<Rightarrow> (Some a, s\<lparr>sk_local := Some a\<rparr>)
      else (sk_local s, s))"

definition getPeerAddr :: "'f os \<Rightarrow> sock \<Rightarrow> sockaddr_in option \<times> sock" where
  "getPeerAddr X s =
     (if sk_peer s = None
      then case os_peer X (sockfd s) of None \<Rightarrow> (None, s) | Some a \<Rightarrow> (Some a, s\<lparr>sk_peer := Some a\<rparr>)
      else (sk_peer s, s))"

definition sk_toString :: "int \<Rightarrow> sock \<Rightarrow> string" where
  "sk_toString bo s =
     ''sockfd='' @ dec_int (sockfd s) @ '' type='' @ dec_int (sk_type s) @ '' protocol='' @ dec_int (sk_protocol s) @
     (case sk_state s of
        LISTEN \<Rightarrow> '' state=LISTEN'' @ (case sk_local s of None \<Rightarrow> [] | Some a \<Rightarrow> '' local='' @ addr_toString bo a)
      | CONNECTED \<Rightarrow>
          '' state=CONNECTED'' @ (case sk_local s of None \<Rightarrow> [] | Some a \<Rightarrow> '' local='' @ addr_toString bo a) @
          (case sk_peer s of None \<Rightarrow> [] | Some a \<Rightarrow> '' peer='' @ addr_toString bo a)
      | _ \<Rightarrow> '' state=CLOSE'')"

definition get_timeout :: "sock_timeo \<Rightarrow> 'f os \<Rightarrow> sock \<Rightarrow> int res" where
  "get_timeout so X s =
     map_res (\<lambda>fdctx. case fdctx of Some c \<Rightarrow> getTimeout so c | None \<Rightarrow> -1) (getFdContext (sockfd s) (os_hook X))"

definition set_timeout :: "sock_timeo \<Rightarrow> int \<Rightarrow> sock \<Rightarrow> 'f os \<Rightarrow> 'f os res" where
  "set_timeout so timeout s X =
     (let tv = (c_div timeout 1000, c_mod timeout 1000 * 1000) in
      map_res (\<lambda>H. X\<lparr>os_hook := H\<rparr>) (setsockopt_timeo (sockfd s) so tv (os_hook X)))"

definition getRecvTimeout :: "'f os \<Rightarrow> sock \<Rightarrow> int res" where "getRecvTimeout = get_timeout SO_RCVTIMEO"
definition getSendTimeout :: "'f os \<Rightarrow> sock \<Rightarrow> int res" where "getSendTimeout = get_timeout SO_SNDTIMEO"
definition setRecvTimeout :: "int \<Rightarrow> sock \<Rightarrow> 'f os \<Rightarrow> 'f os res" where "setRecvTimeout = set_timeout SO_RCVTIMEO"
definition setSendTimeout :: "int \<Rightarrow> sock \<Rightarrow> 'f os \<Rightarrow> 'f os res" where "setSendTimeout = set_timeout SO_SNDTIMEO"

text \<open>An option that is no timeout goes to the kernel.\<close>

definition setOption :: "sock_opt \<Rightarrow> sock \<Rightarrow> 'f os \<Rightarrow> 'f os" where
  [simp]: "setOption opt s X = X\<lparr>os_opts := os_opts X @ [(sockfd s, opt)]\<rparr>"

definition setReuseAddr :: "sock \<Rightarrow> 'f os \<Rightarrow> 'f os" where
  "setReuseAddr s X = setOption SO_REUSEADDR s X"

definition setNoDelay :: "sock \<Rightarrow> 'f os \<Rightarrow> 'f os" where
  "setNoDelay s X = (if sk_type s = SOCK_STREAM then setOption TCP_NODELAY s X else X)"

text \<open>\<open>getOption\<close> and \<open>getError\<close>, from the outcome of \<open>getsockopt\<close> and the value it delivers.\<close>

definition getOption :: "attempt \<Rightarrow> bool" where
  "getOption rt = (rt = Ret 0)"

definition getError :: "attempt \<Rightarrow> int \<Rightarrow> int" where
  "getError rt error = (if \<not> getOption rt then -1 else error)"

section \<open>Opening and closing\<close>

definition sk_init :: "int \<Rightarrow> sock \<Rightarrow> 'f os \<Rightarrow> (bool \<times> sock \<times> 'f os) res" where
  "sk_init fd s X =
     map_res
       (\<lambda>fdctx.
          case fdctx of
            Some c \<Rightarrow>
              if isSock c \<and> \<not> fd_close c
              then
                let s = s\<lparr>sockfd := fd, sk_state := CONNECTED\<rparr>;
                    s = snd (getLocalAddr X s);
                    s = snd (getPeerAddr X s)
                in (True, s, setNoDelay s (setReuseAddr s X))
              else (False, s, X)
          | None \<Rightarrow> (False, s, X))
       (getFdContext fd (os_hook X))"

text \<open>\<open>fd\<close> is what the original \<open>socket\<close> call returned.\<close>

definition newSock :: "int \<Rightarrow> sock \<Rightarrow> 'f os \<Rightarrow> (sock \<times> 'f os) res" where
  "newSock fd s X =
     rbind (hook_socket fd (os_hook X)) (\<lambda>(fd, H).
       let s = s\<lparr>sockfd := fd\<rparr>; X = X\<lparr>os_hook := H\<rparr> in
       Inr (if fd = -1 then (s, X) else (s, setNoDelay s (setReuseAddr s X))))"

definition sk_bind :: "int \<Rightarrow> bool \<Rightarrow> sock \<Rightarrow> 'f os \<Rightarrow> (bool \<times> sock \<times> 'f os) res" where
  "sk_bind fd bound s X =
     rbind (if isValid s then Inr (s, X) else newSock fd s X) (\<lambda>(s, X).
       if \<not> isValid s then Inr (False, s, X)
       else if \<not> bound then Inr (False, s, X)
       else Inr (True, snd (getLocalAddr X s), X))"

definition sk_listen :: "bool \<Rightarrow> sock \<Rightarrow> bool \<times> sock" where
  "sk_listen listening s =
     (if \<not> isValid s then (False, s)
      else if \<not> listening then (False, s)
      else (True, s\<lparr>sk_state := LISTEN\<rparr>))"

definition sk_close :: "sock \<Rightarrow> 'f os \<Rightarrow> (bool \<times> sock \<times> 'f os) res" where
  "sk_close s X =
     (if sk_state s = CLOSE \<and> sockfd s = -1 then Inr (True, s, X)
      else
        rbind (hook_close (sockfd s) (os_hook X) (os_ep X)) (\<lambda>(H, E).
          Inr (True, s\<lparr>sk_state := CLOSE, sockfd := -1\<rparr>,
               X\<lparr>os_hook := H, os_ep := E, os_closed := os_closed X @ [sockfd s]\<rparr>)))"

definition delete_Socket :: "sock \<Rightarrow> 'f os \<Rightarrow> 'f os res" where
  "delete_Socket s X = map_res (\<lambda>(_, _, X). X) (sk_close s X)"

text \<open>A client of \<open>accept\<close> that \<open>init\<close> refuses is destroyed again. \<open>None\<close> is a coroutine that is not resumed.\<close>

definition sk_accept ::
    "attempt list \<Rightarrow> wait_outcome list \<Rightarrow> sock \<Rightarrow> 'f os \<Rightarrow> (sock option option \<times> 'f os) res" where
  "sk_accept as ws s X =
     rbind (hook_accept (sockfd s) as ws (os_hook X)) (\<lambda>(r, H).
       let X = X\<lparr>os_hook := H\<rparr> in
       case r of
         None \<Rightarrow> Inr (None, X)
       | Some (Fails e, tr) \<Rightarrow> Inr (Some None, X)
       | Some (Ret fd, tr) \<Rightarrow>
           if fd = -1 then Inr (Some None, X)
           else
             rbind (sk_init fd (new_Socket (sk_type s) (sk_family s) (sk_protocol s)) X) (\<lambda>(ok, c, X).
               if ok then Inr (Some (Some c), X)
               else map_res (\<lambda>X. (Some None, X)) (delete_Socket c X)))"

text \<open>\<open>first\<close>, \<open>w\<close> and \<open>so_error\<close> are the outcomes of the original \<open>connect\<close>, the wait and the socket's error.\<close>

definition sk_connect ::
    "int \<Rightarrow> int \<Rightarrow> attempt \<Rightarrow> wait_outcome option \<Rightarrow> attempt \<Rightarrow> sock \<Rightarrow> 'f os \<Rightarrow> (bool option \<times> sock \<times> 'f os) res" where
  "sk_connect fd timeout first w so_error s X =
     rbind (if isValid s then Inr (s, X) else newSock fd s X) (\<lambda>(s, X).
     rbind (if timeout = -1 then hook_connect (sockfd s) first w so_error (os_hook X)
            else connect_with_timeout (sockfd s) timeout first w so_error (os_hook X)) (\<lambda>r.
       case r of
         None \<Rightarrow> Inr (None, s, X)
       | Some (a, tr) \<Rightarrow>
           if a \<noteq> Ret 0 then map_res (\<lambda>(_, s, X). (Some False, s, X)) (sk_close s X)
           else
             let s = s\<lparr>sk_state := CONNECTED\<rparr>;
                 s = snd (getLocalAddr X s);
                 s = snd (getPeerAddr X s)
             in Inr (Some True, s, X)))"

section \<open>Transfer\<close>

text \<open>\<open>send\<close>, \<open>sendTo\<close>, \<open>recv\<close> and \<open>recvFrom\<close> return -1 on a socket that is not connected.\<close>

definition sk_io ::
    "io_call \<Rightarrow> attempt list \<Rightarrow> wait_outcome list \<Rightarrow> sock \<Rightarrow> 'f os \<Rightarrow> (attempt \<times> io_act list) option res" where
  "sk_io call as ws s X =
     (if isConnected s then hook_io call (sockfd s) as ws (os_hook X) else Inr (Some (Ret (-1), [])))"

definition sk_send where "sk_send = sk_io Send"
definition sk_sendTo where "sk_sendTo = sk_io Sendto"
definition sk_recv where "sk_recv = sk_io Recv"
definition sk_recvFrom where "sk_recvFrom = sk_io Recvfrom"

text \<open>Cancelling hands the waiting coroutine to its worker; a negative descriptor indexes before the table.\<close>

definition sk_cancel :: "32 word \<Rightarrow> sock \<Rightarrow> 'f os \<Rightarrow> (bool \<times> 'f os) res" where
  "sk_cancel type s X =
     (if sockfd s < 0 then Inl Memory_fault
      else map_res (\<lambda>(b, E). (b, X\<lparr>os_ep := E\<rparr>)) (handleEvent (nat (sockfd s)) type (os_ep X)))"

definition cancelRead :: "sock \<Rightarrow> 'f os \<Rightarrow> (bool \<times> 'f os) res" where "cancelRead = sk_cancel EPOLLIN"
definition cancelWrite :: "sock \<Rightarrow> 'f os \<Rightarrow> (bool \<times> 'f os) res" where "cancelWrite = sk_cancel EPOLLOUT"

definition cancelAll :: "sock \<Rightarrow> 'f os \<Rightarrow> (bool \<times> 'f os) res" where
  "cancelAll s X =
     (if sockfd s < 0 then Inl Memory_fault
      else map_res (\<lambda>(b, E). (b, X\<lparr>os_ep := E\<rparr>)) (handleAllEvent (nat (sockfd s)) (os_ep X)))"

section \<open>Timeouts\<close>

lemma timeval_roundtrip: "c_div t 1000 * 1000 + c_div (c_mod t 1000 * 1000) 1000 = t"
proof -
  have "c_div (m * 1000) 1000 = m" for m by (simp add: c_div_def abs_mult sgn_mult abs_mult_sgn mult.commute)
  then show ?thesis by (simp only:) (simp add: c_mod_def)
qed

text \<open>
  Timeouts. Whatever timeout in milliseconds is set on a socket the hooks know, the same value is read
  back, the timeout of the other direction and all other descriptors keep theirs, and a transfer in that
  direction waits exactly so long before it fails. The detour over seconds and microseconds loses nothing,
  for negative values neither.
\<close>

theorem socket_timeout_roundtrip:
  assumes "t_hookEnable (os_hook X)" "ctx_at (sockfd s) (os_hook X) = Some c"
  shows "\<exists>X'. set_timeout so timeout s X = Inr X' \<and> get_timeout so X' s = Inr timeout \<and>
    (\<forall>so'. so' = so \<or> get_timeout so' X' s = get_timeout so' X s) \<and>
    (\<forall>fd. fd = sockfd s \<or> ctx_at fd (os_hook X') = ctx_at fd (os_hook X)) \<and>
    (isConnected s \<and> isSock c \<and> \<not> isUserNonblock c \<and> \<not> fd_close c \<and> snd (io_event_of call) = so \<longrightarrow>
      sk_io call as ws s X' = Inr (io_loop (fst (io_event_of call)) timeout as ws))"
proof -
  let ?fd = "sockfd s" and ?H = "os_hook X"
  have fd: "0 \<le> ?fd" using assms(2) ctx_at_neg [of ?fd ?H] by (cases "?fd < 0") auto
  define c' where "c' = setTimeout so timeout c"
  define H' where "H' = set_ctx (nat ?fd) c' ?H"
  have set: "set_timeout so timeout s X = Inr (X\<lparr>os_hook := H'\<rparr>)"
    using assms fd
    by (simp add: set_timeout_def setsockopt_timeo_def getFdContext_ctx H'_def c'_def timeval_roundtrip)
  have at: "ctx_at gd H' = (if gd = ?fd then Some c' else ctx_at gd ?H)" for gd
    using ctx_at_set_ctx [OF fd assms(2), of gd c'] ctx_at_neg [of gd] fd by (cases "0 \<le> gd") (auto simp: H'_def)
  have so: "getTimeout so c' = timeout" "so' = so \<or> getTimeout so' c' = getTimeout so' c" for so'
    by (auto simp: c'_def getTimeout_def setTimeout_def split: sock_timeo.split)
  have get: "get_timeout so' (X\<lparr>os_hook := H'\<rparr>) s = Inr (getTimeout so' c')" "get_timeout so' X s = Inr (getTimeout so' c)" for so'
    using fd assms(2) at by (simp_all add: get_timeout_def getFdContext_ctx)
  have "sk_io call as ws s (X\<lparr>os_hook := H'\<rparr>) = Inr (io_loop (fst (io_event_of call)) timeout as ws)"
    if "isConnected s" "isSock c" "\<not> isUserNonblock c" "\<not> fd_close c" "snd (io_event_of call) = so"
    using that fd assms(1) at so(1)
    by (auto simp: sk_io_def hook_io_def do_io_def getFdContext_ctx H'_def set_ctx_def c'_def setTimeout_def split: sock_timeo.splits)
  with set get so at show ?thesis by (intro exI [of _ "X\<lparr>os_hook := H'\<rparr>"]) auto
qed

text \<open>A connected socket in a process with one open descriptor.\<close>

definition os_example :: "nat os" where
  "os_example =
     \<lparr> os_hook = hook_example_open, os_ep = new_Epoller (\<lambda>_. True), os_local = (\<lambda>_. None), os_peer = (\<lambda>_. Some IPv4Address_empty),
       os_opts = [], os_closed = [] \<rparr>"

definition sock_example :: sock where
  "sock_example = CreateTcp\<lparr>sockfd := 4, sk_state := CONNECTED\<rparr>"

lemma os_example_ctx:
  "t_hookEnable (os_hook os_example)"
  "ctx_at (sockfd sock_example) (os_hook os_example) = Some \<lparr> isSock = True, isSysNonblock = True, isUserNonblock = False,
     fd_close = False, recvTimeout = -1, sendTimeout = -1 \<rparr>"
  using hook_example_ctx by (simp_all add: os_example_def sock_example_def)

theorem socket_timeout_roundtrip_witness:
  "\<exists>X'. set_timeout SO_RCVTIMEO 30000 sock_example os_example = Inr X' \<and> get_timeout SO_RCVTIMEO X' sock_example = Inr 30000"
  using socket_timeout_roundtrip [OF os_example_ctx, of SO_RCVTIMEO 30000] by blast

section \<open>Closing\<close>

lemma getFdContext_minus_one: "getFdContext (-1) H = Inl Assert_fail"
  by (simp add: getFdContext_def)

lemma sk_close_ok:
  assumes "ep_reach A D (os_ep X)" "t_hookEnable (os_hook X)" "0 \<le> sockfd s"
  shows "\<exists>s' X'. sk_close s X = Inr (True, s', X') \<and> sk_state s' = CLOSE \<and> \<not> isValid s' \<and>
    os_closed X' = os_closed X @ [sockfd s] \<and> ctx_at (sockfd s) (os_hook X') = None \<and>
    mset (scheduled (os_ep X')) + waiting (os_ep X') = mset (scheduled (os_ep X)) + waiting (os_ep X) \<and>
    sk_close s' X' = Inr (True, s', X')"
proof -
  let ?H = "os_hook X"
  have "\<exists>H' E'. hook_close (sockfd s) ?H (os_ep X) = Inr (H', E') \<and> ctx_at (sockfd s) H' = None \<and>
      mset (scheduled E') + waiting E' = mset (scheduled (os_ep X)) + waiting (os_ep X)"
  proof (cases "ctx_at (sockfd s) ?H")
    case None
    with assms(2,3) show ?thesis by (simp add: hook_close_def getFdContext_ctx)
  next
    case (Some c)
    with hook_close_wakes [OF assms(1,2) this] show ?thesis by blast
  qed
  then obtain H' E' where H': "hook_close (sockfd s) ?H (os_ep X) = Inr (H', E')" "ctx_at (sockfd s) H' = None"
      "mset (scheduled E') + waiting E' = mset (scheduled (os_ep X)) + waiting (os_ep X)" by blast
  let ?s = "s\<lparr>sk_state := CLOSE, sockfd := -1\<rparr>"
  let ?X = "X\<lparr>os_hook := H', os_ep := E', os_closed := os_closed X @ [sockfd s]\<rparr>"
  have "sk_close s X = Inr (True, ?s, ?X)" "sk_close ?s ?X = Inr (True, ?s, ?X)" using assms(3) H'(1) by (simp_all add: sk_close_def)
  with H'(2,3) show ?thesis by (intro exI [of _ ?s] exI [of _ ?X]) (simp add: isValid_def)
qed

text \<open>
  Closing. With the hooks on, closing a socket that has a descriptor gives this descriptor to the kernel
  once, wakes whoever waits for it and leaves the socket closed; closing it again does nothing. But a socket
  that never got a descriptor cannot be closed: \<open>close\<close>, which the destructor calls, passes -1 to the replaced
  call, whose look-up of the context fails its assertion. A failed \<open>socket\<close> call therefore aborts the program
  in \<open>connect\<close> instead of being reported, and so does \<open>accept\<close> on a socket whose \<open>bind\<close> could not create it.
\<close>

theorem socket_close:
  assumes "ep_reach A D (os_ep X)" "t_hookEnable (os_hook X)"
  shows "(0 \<le> sockfd s \<longrightarrow> (\<exists>s' X'. sk_close s X = Inr (True, s', X') \<and> sk_state s' = CLOSE \<and> \<not> isValid s' \<and>
      os_closed X' = os_closed X @ [sockfd s] \<and> ctx_at (sockfd s) (os_hook X') = None \<and>
      mset (scheduled (os_ep X')) + waiting (os_ep X') = mset (scheduled (os_ep X)) + waiting (os_ep X) \<and>
      sk_close s' X' = Inr (True, s', X'))) \<and>
    sk_close CreateTcp X = Inl Assert_fail \<and>
    sk_connect (-1) timeout first w so_error CreateTcp X = Inl Assert_fail \<and>
    sk_accept as ws CreateTcp X = Inl Assert_fail"
proof -
  note sk_close_ok [OF assms, of s]
  moreover have "sk_close CreateTcp X = Inl Assert_fail"
    using assms(2) by (simp add: sk_close_def CreateTcp_def new_Socket_def hook_close_def getFdContext_minus_one)
  moreover have "sk_connect (-1) timeout first w so_error CreateTcp X = Inl Assert_fail"
    using assms(2)
    by (simp add: sk_connect_def CreateTcp_def new_Socket_def isValid_def newSock_def hook_socket_def hook_connect_def
        connect_with_timeout_def getFdContext_minus_one)
  moreover have "sk_accept as ws CreateTcp X = Inl Assert_fail"
    using assms(2) by (simp add: sk_accept_def CreateTcp_def new_Socket_def hook_accept_def do_io_def getFdContext_minus_one)
  ultimately show ?thesis by blast
qed

theorem socket_close_witness:
  "(\<exists>s' X'. sk_close sock_example os_example = Inr (True, s', X') \<and> os_closed X' = [4]) \<and>
   sk_close CreateTcp os_example = Inl Assert_fail"
proof -
  have "ep_reach {#} {#} (os_ep os_example)" by (simp add: os_example_def ep_reach.intros)
  moreover have "0 \<le> sockfd sock_example" "sockfd sock_example = 4" "os_closed os_example = []"
    by (simp_all add: sock_example_def os_example_def)
  ultimately show ?thesis using socket_close [OF _ os_example_ctx(1), of "{#}" "{#}" sock_example] by fastforce
qed

section \<open>Addresses and options that go wrong\<close>

lemma newSock_keeps:
  assumes "newSock fd s X = Inr (s', X')"
  shows "sk_local s' = sk_local s \<and> sk_peer s' = sk_peer s \<and> sk_state s' = sk_state s \<and> sk_type s' = sk_type s \<and> sockfd s' = fd"
  using assms by (auto simp: newSock_def rbind_Inr_iff hook_socket_def map_res_Inr_iff Let_def split: if_splits)

lemma sk_close_keeps:
  assumes "sk_close s X = Inr (b, s', X')"
  shows "sk_local s' = sk_local s \<and> sk_peer s' = sk_peer s \<and> sk_type s' = sk_type s \<and> sockfd s' = -1 \<and> sk_state s' = CLOSE"
  using assms by (auto simp: sk_close_def rbind_Inr_iff split: if_splits)

lemma sk_connect_result:
  assumes "sk_connect fd timeout first w so_error s X = Inr (Some True, s', X')"
  shows "isConnected s' \<and> (sk_local s \<noteq> None \<longrightarrow> sk_local s' = sk_local s) \<and> (sk_peer s \<noteq> None \<longrightarrow> sk_peer s' = sk_peer s)"
proof -
  from assms obtain s1 X1 where s1: "(if isValid s then Inr (s, X) else newSock fd s X) = Inr (s1, X1)"
    "s' = snd (getPeerAddr X1 (snd (getLocalAddr X1 (s1\<lparr>sk_state := CONNECTED\<rparr>))))"
    by (auto simp: sk_connect_def rbind_Inr_iff map_res_Inr_iff Let_def split: option.splits if_splits)
  have "sk_local s1 = sk_local s" "sk_peer s1 = sk_peer s"
    using s1(1) newSock_keeps [of fd s X s1 X1] by (auto split: if_splits)
  with s1(2) show ?thesis
    by (auto simp: getLocalAddr_def getPeerAddr_def isConnected_def split: option.splits)
qed

text \<open>
  A socket object that is closed and connected again reports the old connection. \<open>close\<close> keeps the cached
  addresses, and the getters ask the kernel only while nothing is cached, so after a successful second
  \<open>connect\<close>, to whatever address and with whatever descriptor, \<open>getPeerAddr\<close> and \<open>getLocalAddr\<close> return those of the
  first one.
\<close>

theorem socket_stale_addresses:
  assumes "sk_peer s = Some a" "sk_local s = Some b" "sk_close s X = Inr (ok, s1, X1)"
    "sk_connect fd timeout first w so_error s1 X2 = Inr (Some True, s2, X3)"
  shows "isConnected s2 \<and> fst (getPeerAddr X3 s2) = Some a \<and> fst (getLocalAddr X3 s2) = Some b"
  using sk_close_keeps [OF assms(3)] sk_connect_result [OF assms(4)] assms(1,2) by (simp add: getPeerAddr_def getLocalAddr_def)

definition os_plain :: "nat os" where
  "os_plain = os_example\<lparr>os_hook := hook_example\<lparr>t_hookEnable := False\<rparr>\<rparr>"

definition sock_used :: sock where
  "sock_used = sock_example\<lparr>sk_peer := Some (IPv4Address_empty\<lparr>sin_port := 80\<rparr>), sk_local := Some IPv4Address_empty\<rparr>"

theorem socket_stale_addresses_witness:
  "\<exists>ok s1 X1 s2 X3.
     sk_close sock_used os_plain = Inr (ok, s1, X1) \<and> sk_connect 4 (-1) (Ret 0) None (Ret 0) s1 X1 = Inr (Some True, s2, X3) \<and>
     os_peer X3 (sockfd s2) = Some IPv4Address_empty \<and> fst (getPeerAddr X3 s2) = Some (IPv4Address_empty\<lparr>sin_port := 80\<rparr>)"
proof -
  let ?s1 = "sock_used\<lparr>sk_state := CLOSE, sockfd := -1\<rparr>"
  let ?X1 = "os_plain\<lparr>os_closed := [4]\<rparr>"
  have c: "sk_close sock_used os_plain = Inr (True, ?s1, ?X1)"
    by (simp add: sk_close_def sock_used_def sock_example_def os_plain_def os_example_def hook_close_def)
  have n: "sk_connect 4 (-1) (Ret 0) None (Ret 0) ?s1 ?X1 =
      Inr (Some True, sock_used\<lparr>sk_state := CONNECTED, sockfd := 4\<rparr>, ?X1\<lparr>os_opts := [(4, SO_REUSEADDR)]\<rparr>)"
    by (simp add: sk_connect_def isValid_def newSock_def hook_socket_def hook_connect_def connect_with_timeout_def
        setNoDelay_def setReuseAddr_def getPeerAddr_def getLocalAddr_def os_plain_def os_example_def sock_used_def sock_example_def
        CreateTcp_def new_Socket_def AF_INET_def SOCK_STREAM_def)
  have "sk_peer sock_used = Some (IPv4Address_empty\<lparr>sin_port := 80\<rparr>)" "sk_local sock_used = Some IPv4Address_empty"
    "os_peer ?X1 4 = Some IPv4Address_empty"
    by (simp_all add: sock_used_def os_plain_def os_example_def)
  from socket_stale_addresses [OF this(1,2) c n] c n this(3) show ?thesis by auto
qed

text \<open>
  \<open>CreateTcp\<close> passes family and type in the wrong order, which \<open>newSock\<close> undoes but \<open>setNoDelay\<close> does not: no
  socket of the program ever gets \<open>TCP_NODELAY\<close>, neither one it opens nor one it accepts.
\<close>

lemma no_delay_never_set:
  assumes "sk_type s = sk_type CreateTcp"
  shows "setNoDelay s X = X"
  using assms by (simp add: setNoDelay_def CreateTcp_def new_Socket_def AF_INET_def SOCK_STREAM_def)

end
