(* ===== verification/Coroutine.thy ===== *)
theory Coroutine
  imports Reyao_Prelude
begin

text \<open>
  \<open>src/reyao/coroutine.h\<close>, \<open>coroutine.cc\<close> and \<open>stackalloc.cc\<close>: the coroutines of a thread. They live
  in a heap indexed by \<open>id_\<close>; 0 is the main coroutine, whose identifier stays 0. A saved context is the
  entry function, the code at which a suspended coroutine goes on, or the point after the last
  \<open>yield\<close> of \<open>Entry\<close>. What a coroutine does between two switches is an argument: \<open>user k x\<close> runs the
  code \<open>k\<close> in the surrounding state \<open>x\<close> until it calls \<open>YieldToSuspend\<close>, returns or throws.
\<close>

section \<open>State\<close>

datatype co_state = INIT | RUNNING | SUSPEND | DONE | EXCEPT

datatype 'c ucontext = At_entry | At 'c | Returned

datatype 'c ending = Suspends 'c | Returns | Throws

record 'c coroutine =
  co_func :: "'c option"
  co_stack :: nat
  co_state :: co_state
  co_context :: "'c ucontext"

record 'c co_env =
  cos :: "nat \<Rightarrow> 'c coroutine option"
  t_curCoroutine :: "nat option"
  s_coroutineId :: nat

definition co_toString :: "co_state \<Rightarrow> string" where
  "co_toString s =
     (case s of INIT \<Rightarrow> ''INIT'' | RUNNING \<Rightarrow> ''RUNNING'' | SUSPEND \<Rightarrow> ''SUSPEND'' | DONE \<Rightarrow> ''DONE''
      | EXCEPT \<Rightarrow> ''EXECPT'')"

text \<open>The size of a stack is rounded up to whole pages.\<close>

definition StackAlloc :: "nat \<Rightarrow> nat \<Rightarrow> nat" where
  "StackAlloc pageSize stackSize =
     (if stackSize \<noteq> 0
      then if stackSize mod pageSize \<noteq> 0 then (stackSize div pageSize + 1) * pageSize else stackSize
      else 0)"

text \<open>
  The pages of a protected stack, in order, and whether they can be accessed: \<open>mmap\<close> gives two more than the stack
  needs, \<open>mprotect\<close> closes the first and the last, and the stack begins behind the first. The destructor opens
  them again and unmaps as many pages as its members tell.
\<close>

definition StackAlloc_pages :: "nat \<Rightarrow> nat \<Rightarrow> bool list" where
  "StackAlloc_pages pageSize stackSize =
     (let sz = StackAlloc pageSize stackSize in
      if stackSize \<noteq> 0
      then (replicate ((sz + pageSize * 2) div pageSize) True)[0 := False, (sz + pageSize) div pageSize := False]
      else [])"

definition delete_StackAlloc :: "nat \<Rightarrow> nat \<Rightarrow> bool list \<Rightarrow> bool list" where
  "delete_StackAlloc pageSize sz pages =
     (if sz \<noteq> 0
      then drop ((sz + pageSize * 2) div pageSize) (pages[0 := True, (sz + pageSize) div pageSize := True])
      else pages)"

section \<open>Operations\<close>

definition new_main :: "'c coroutine" where
  "new_main = \<lparr> co_func = None, co_stack = 0, co_state = RUNNING, co_context = At_entry \<rparr>"

definition new_Coroutine :: "nat \<Rightarrow> 'c \<Rightarrow> nat \<Rightarrow> 'c co_env \<Rightarrow> nat \<times> 'c co_env" where
  "new_Coroutine pageSize func stack_size V =
     (let i = size_add (s_coroutineId V) 1 in
      (i, V\<lparr>s_coroutineId := i,
            cos := (cos V)(i \<mapsto> \<lparr> co_func = Some func, co_stack = StackAlloc pageSize stack_size, co_state = INIT,
                               co_context = At_entry \<rparr>)\<rparr>))"

definition InitMainCoroutine :: "'c co_env \<Rightarrow> 'c co_env" where
  "InitMainCoroutine V = (if cos V 0 = None then V\<lparr>cos := (cos V)(0 \<mapsto> new_main)\<rparr> else V)"

definition SetCurCoroutine :: "nat option \<Rightarrow> 'c co_env \<Rightarrow> 'c co_env" where
  "SetCurCoroutine c V = V\<lparr>t_curCoroutine := c\<rparr>"

definition GetCurCoroutine :: "'c co_env \<Rightarrow> nat \<times> 'c co_env" where
  "GetCurCoroutine V =
     (case t_curCoroutine V of
        None \<Rightarrow> (0, SetCurCoroutine (Some 0) (InitMainCoroutine V))
      | Some i \<Rightarrow> (i, V))"

definition GetCoroutineId :: "'c co_env \<Rightarrow> nat" where
  "GetCoroutineId V = (case t_curCoroutine V of Some i \<Rightarrow> i | None \<Rightarrow> 0)"

definition co_set :: "nat \<Rightarrow> 'c coroutine \<Rightarrow> 'c co_env \<Rightarrow> 'c co_env" where
  "co_set i c V = V\<lparr>cos := (cos V)(i \<mapsto> c)\<rparr>"

definition reuse :: "'c \<Rightarrow> nat \<Rightarrow> 'c co_env \<Rightarrow> 'c co_env res" where
  "reuse func i V =
     (case cos V i of
        None \<Rightarrow> Inl Memory_fault
      | Some c \<Rightarrow>
          if co_stack c = 0 \<or> \<not> (co_state c = INIT \<or> co_state c = DONE \<or> co_state c = EXCEPT) then Inl Assert_fail
          else Inr (co_set i (c\<lparr>co_state := INIT, co_func := Some func, co_context := At_entry\<rparr>) V))"

text \<open>Leaving coroutine \<open>i\<close> for the main one; \<open>k\<close> is where it goes on.\<close>

definition yield :: "nat \<Rightarrow> 'c ucontext \<Rightarrow> 'c co_env \<Rightarrow> 'c co_env res" where
  "yield i k V =
     (case cos V i of
        None \<Rightarrow> Inl Memory_fault
      | Some c \<Rightarrow> Inr (SetCurCoroutine (Some 0) (co_set i (c\<lparr>co_context := k\<rparr>) V)))"

definition YieldToSuspend :: "'c \<Rightarrow> 'c co_env \<Rightarrow> 'c co_env res" where
  "YieldToSuspend k V =
     (let (i, V) = GetCurCoroutine V in
      case cos V i of
        None \<Rightarrow> Inl Memory_fault
      | Some c \<Rightarrow>
          if co_state c \<noteq> RUNNING then Inl Assert_fail
          else yield i (At k) (co_set i (c\<lparr>co_state := SUSPEND\<rparr>) V))"

text \<open>The rest of \<open>Entry\<close> once \<open>func_\<close> has returned or thrown.\<close>

definition Entry_end :: "bool \<Rightarrow> 'c co_env \<Rightarrow> 'c co_env res" where
  "Entry_end threw V =
     (let (i, V) = GetCurCoroutine V in
      case cos V i of
        None \<Rightarrow> Inl Memory_fault
      | Some c \<Rightarrow>
          yield i Returned
            (co_set i (if threw then c\<lparr>co_state := EXCEPT\<rparr> else c\<lparr>co_func := None, co_state := DONE\<rparr>) V))"

fun leave :: "'c ending \<Rightarrow> 'c co_env \<Rightarrow> 'c co_env res" where
  "leave (Suspends k) V = YieldToSuspend k V"
| "leave Returns V = Entry_end False V"
| "leave Throws V = Entry_end True V"

text \<open>
  \<open>resume\<close> and what the coroutine does until control is back at the caller. Calling an empty
  \<open>func_\<close> throws \<open>std::bad_function_call\<close>, which \<open>Entry\<close> catches.
\<close>

definition resume :: "('c \<Rightarrow> 'x \<Rightarrow> 'c ending \<times> 'x) \<Rightarrow> nat \<Rightarrow> 'c co_env \<Rightarrow> 'x \<Rightarrow> ('c co_env \<times> 'x) res" where
  "resume user i V x =
     (case cos V i of
        None \<Rightarrow> Inl Memory_fault
      | Some c \<Rightarrow>
          if co_state c = RUNNING then Inl Assert_fail
          else if cos V 0 = None then Inl Memory_fault
          else
            let V = SetCurCoroutine (Some i) (co_set i (c\<lparr>co_state := RUNNING\<rparr>) V) in
            case (case co_context c of
                    At_entry \<Rightarrow> Inr (case co_func c of None \<Rightarrow> (Throws, x) | Some f \<Rightarrow> user f x)
                  | At k \<Rightarrow> Inr (user k x)
                  | Returned \<Rightarrow> Inl Thread_exit) of
              Inl e \<Rightarrow> Inl e
            | Inr (e, x) \<Rightarrow> map_res (\<lambda>V. (V, x)) (leave e V))"

text \<open>The destructor; the coroutine leaves the heap.\<close>

definition delete_Coroutine :: "nat \<Rightarrow> 'c co_env \<Rightarrow> 'c co_env res" where
  "delete_Coroutine i V =
     (case cos V i of
        None \<Rightarrow> Inl Memory_fault
      | Some c \<Rightarrow>
          if co_stack c \<noteq> 0
          then if co_state c = DONE \<or> co_state c = INIT \<or> co_state c = EXCEPT then Inr (V\<lparr>cos := (cos V)(i := None)\<rparr>) else Inl Assert_fail
          else if co_func c \<noteq> None then Inl Assert_fail
          else Inr (V\<lparr>cos := (cos V)(i := None),
                      t_curCoroutine := (if t_curCoroutine V = Some i then None else t_curCoroutine V)\<rparr>))"

section \<open>Invariant\<close>

text \<open>
  Between two switches of the main coroutine: nothing but the main coroutine runs, and the saved
  context of each coroutine fits its state.
\<close>

fun ctx_fits :: "co_state \<Rightarrow> 'c ucontext \<Rightarrow> bool" where
  "ctx_fits INIT k = (k = At_entry)"
| "ctx_fits RUNNING k = False"
| "ctx_fits SUSPEND k = (\<exists>c. k = At c)"
| "ctx_fits DONE k = (k = Returned)"
| "ctx_fits EXCEPT k = (k = Returned)"

definition co_ok :: "'c coroutine \<Rightarrow> bool" where
  "co_ok c \<longleftrightarrow> ctx_fits (co_state c) (co_context c) \<and> (co_state c = INIT \<longrightarrow> co_func c \<noteq> None) \<and> co_stack c \<noteq> 0"

definition co_inv :: "'c co_env \<Rightarrow> bool" where
  "co_inv V \<longleftrightarrow> cos V 0 = Some new_main \<and> (\<forall>i c. i \<noteq> 0 \<longrightarrow> cos V i = Some c \<longrightarrow> co_ok c \<and> i \<le> s_coroutineId V)"

definition live :: "nat \<Rightarrow> 'c co_env \<Rightarrow> bool" where
  "live i V \<longleftrightarrow> i \<noteq> 0 \<and> cos V i \<noteq> None"

definition state_of :: "nat \<Rightarrow> 'c co_env \<Rightarrow> co_state" where
  "state_of i V = (case cos V i of Some c \<Rightarrow> co_state c | None \<Rightarrow> DONE)"

definition startable :: "nat \<Rightarrow> 'c co_env \<Rightarrow> bool" where
  "startable i V \<longleftrightarrow> live i V \<and> (state_of i V = INIT \<or> state_of i V = SUSPEND)"

text \<open>The code a coroutine goes on with.\<close>

definition code_of :: "nat \<Rightarrow> 'c co_env \<Rightarrow> 'c option" where
  "code_of i V =
     (case cos V i of
        None \<Rightarrow> None
      | Some c \<Rightarrow> (case co_context c of At_entry \<Rightarrow> co_func c | At k \<Rightarrow> Some k | Returned \<Rightarrow> None))"

fun state_after :: "'c ending \<Rightarrow> co_state" where
  "state_after (Suspends k) = SUSPEND"
| "state_after Returns = DONE"
| "state_after Throws = EXCEPT"

fun code_after :: "'c ending \<Rightarrow> 'c option" where
  "code_after (Suspends k) = Some k"
| "code_after Returns = None"
| "code_after Throws = None"

lemma co_inv_ok: "co_inv V \<Longrightarrow> i \<noteq> 0 \<Longrightarrow> cos V i = Some c \<Longrightarrow> co_ok c \<and> i \<le> s_coroutineId V"
  unfolding co_inv_def by blast

lemma co_inv_ids: "co_inv V \<Longrightarrow> s_coroutineId V \<le> s \<Longrightarrow> co_inv (V\<lparr>s_coroutineId := s\<rparr>)"
  unfolding co_inv_def by simp (meson order_trans)

lemma startable_code:
  assumes "co_inv V" "startable i V"
  obtains c k where "cos V i = Some c" "i \<noteq> 0" "co_ok c" "code_of i V = Some k" "co_state c = INIT \<or> co_state c = SUSPEND"
proof -
  obtain c where c: "cos V i = Some c" "i \<noteq> 0" "co_state c = INIT \<or> co_state c = SUSPEND"
    using assms(2) by (auto simp: startable_def live_def state_of_def)
  moreover from c have ok: "co_ok c" using assms(1) by (auto simp: co_inv_def)
  moreover obtain k where "code_of i V = Some k" using c ok by (auto simp: code_of_def co_ok_def)
  ultimately show ?thesis using that by blast
qed

lemma resume_spec:
  assumes "co_inv V" "startable i V" and k: "code_of i V = Some k" and u: "user k x = (e, x')"
  obtains V' where "resume user i V x = Inr (V', x')" "co_inv V'" "state_of i V' = state_after e" "code_of i V' = code_after e"
    "\<And>j. j \<noteq> i \<Longrightarrow> cos V' j = cos V j" "live i V'" "s_coroutineId V' = s_coroutineId V" "t_curCoroutine V' = Some 0"
proof -
  obtain c where c: "cos V i = Some c" "i \<noteq> 0" "co_ok c" "co_state c = INIT \<or> co_state c = SUSPEND"
    using startable_code [OF assms(1,2)] by metis
  have m: "cos V 0 = Some new_main" using assms(1) by (simp add: co_inv_def)
  define c' where "c' = (case e of Suspends k' \<Rightarrow> c\<lparr>co_state := SUSPEND, co_context := At k'\<rparr>
      | Returns \<Rightarrow> c\<lparr>co_func := None, co_state := DONE, co_context := Returned\<rparr>
      | Throws \<Rightarrow> c\<lparr>co_state := EXCEPT, co_context := Returned\<rparr>)"
  define V' where "V' = V\<lparr>cos := (cos V)(i \<mapsto> c'), t_curCoroutine := Some 0\<rparr>"
  have "leave e (SetCurCoroutine (Some i) (co_set i (c\<lparr>co_state := RUNNING\<rparr>) V)) = Inr V'"
    by (cases e) (simp_all add: V'_def c'_def YieldToSuspend_def Entry_end_def GetCurCoroutine_def yield_def SetCurCoroutine_def
        co_set_def)
  moreover have "(case co_context c of At_entry \<Rightarrow> Inr (case co_func c of None \<Rightarrow> (Throws, x) | Some f \<Rightarrow> user f x)
      | At k \<Rightarrow> Inr (user k x) | Returned \<Rightarrow> Inl Thread_exit) = (Inr (e, x') :: cpp_error + _)"
    using k u c by (auto simp: code_of_def co_ok_def)
  ultimately have r: "resume user i V x = Inr (V', x')" using c m by (auto simp: resume_def Let_def)
  have o: "co_ok c'" using c(3) by (cases e) (simp_all add: c'_def co_ok_def)
  have "i \<le> s_coroutineId V" using assms(1) c by (auto simp: co_inv_def)
  then have "co_inv V'" using assms(1) o c(2) by (auto simp: co_inv_def V'_def)
  moreover have "state_of i V' = state_after e" "code_of i V' = code_after e" "live i V'"
    using c(2) by (cases e; simp add: V'_def c'_def state_of_def code_of_def live_def)+
  ultimately show ?thesis using that [OF r] by (simp add: V'_def)
qed

lemma new_Coroutine_spec:
  assumes "co_inv V" "s_coroutineId V < size_mod - 1" "StackAlloc page n \<noteq> 0"
  obtains i V' where "new_Coroutine page f n V = (i, V')" "co_inv V'" "startable i V'" "code_of i V' = Some f"
    "cos V i = None" "\<And>j. j \<noteq> i \<Longrightarrow> cos V' j = cos V j" "s_coroutineId V' = s_coroutineId V + 1" "i \<noteq> 0"
    "s_coroutineId V < i"
proof -
  let ?i = "s_coroutineId V + 1"
  let ?c = "\<lparr> co_func = Some f, co_stack = StackAlloc page n, co_state = INIT, co_context = At_entry \<rparr>"
  let ?V = "V\<lparr>s_coroutineId := ?i, cos := (cos V)(?i \<mapsto> ?c)\<rparr>"
  have i: "size_add (s_coroutineId V) 1 = ?i" using assms(2) by (simp add: size_add_def)
  have "\<forall>c. cos V ?i = Some c \<longrightarrow> ?i \<le> s_coroutineId V" using assms(1) unfolding co_inv_def by simp
  then have "cos V ?i = None" by (cases "cos V ?i") auto
  moreover have "co_inv ?V" using assms(1,3) by (auto simp: co_inv_def co_ok_def intro: le_SucI)
  moreover have "new_Coroutine page f n V = (?i, ?V)" using i by (simp add: new_Coroutine_def)
  moreover have "startable ?i ?V" "code_of ?i ?V = Some f" by (simp_all add: startable_def live_def state_of_def code_of_def)
  ultimately show ?thesis using that [of ?i ?V] by simp
qed

lemma reuse_spec:
  assumes "co_inv V" "live i V" "state_of i V = DONE \<or> state_of i V = EXCEPT"
  obtains V' where "reuse f i V = Inr V'" "co_inv V'" "startable i V'" "code_of i V' = Some f"
    "\<And>j. j \<noteq> i \<Longrightarrow> cos V' j = cos V j" "s_coroutineId V' = s_coroutineId V"
proof -
  obtain c where c: "cos V i = Some c" "i \<noteq> 0" using assms(2) by (auto simp: live_def)
  have o: "co_ok c" "i \<le> s_coroutineId V" using assms(1) c by (auto simp: co_inv_def)
  let ?c = "c\<lparr>co_state := INIT, co_func := Some f, co_context := At_entry\<rparr>"
  let ?V = "co_set i ?c V"
  have "reuse f i V = Inr ?V" using c o assms(3) by (auto simp: reuse_def co_ok_def state_of_def)
  moreover have "co_inv ?V" using assms(1) c o by (auto simp: co_inv_def co_ok_def co_set_def)
  moreover have "startable i ?V" "code_of i ?V = Some f" using c(2) by (simp_all add: startable_def live_def state_of_def code_of_def co_set_def)
  ultimately show ?thesis using that [of ?V] by (simp add: co_set_def)
qed

lemma StackAlloc_spec:
  assumes "0 < page"
  shows "n \<le> StackAlloc page n \<and> StackAlloc page n < n + page \<and> page dvd StackAlloc page n"
proof (cases "n mod page = 0")
  case True
  then show ?thesis using assms by (auto simp: StackAlloc_def)
next
  case False
  define q r where "q = n div page" and "r = n mod page"
  have "n = q * page + r" "r < page" "0 < r" using False assms by (simp_all add: q_def r_def)
  moreover have "StackAlloc page n = q * page + page" using False by (auto simp: StackAlloc_def q_def)
  ultimately show ?thesis by simp
qed

text \<open>A protected stack has its size accessible, a closed page on either side, and its destructor unmaps all of it.\<close>

lemma StackAlloc_guarded:
  assumes "0 < page" "n \<noteq> 0"
  defines "k \<equiv> StackAlloc page n div page"
  shows "StackAlloc_pages page n = False # replicate k True @ [False] \<and>
    delete_StackAlloc page (StackAlloc page n) (StackAlloc_pages page n) = []"
proof -
  obtain m where m: "StackAlloc page n = page * m" using StackAlloc_spec [OF assms(1), of n] by (auto elim: dvdE)
  have k: "k = m" "(StackAlloc page n + page * 2) div page = m + 2" "(StackAlloc page n + page) div page = m + 1"
    using assms(1) by (simp_all add: k_def m)
  have "StackAlloc page n \<noteq> 0" using StackAlloc_spec [OF assms(1), of n] assms(2) by auto
  moreover have "(replicate (m + 2) True)[0 := False, m + 1 := False] = False # replicate m True @ [False]"
    by (simp add: replicate_append_same [symmetric] list_update_append del: replicate_append_same)
  ultimately show ?thesis using assms(2) by (simp add: StackAlloc_pages_def delete_StackAlloc_def k Let_def)
qed

section \<open>What can be done with a coroutine\<close>

text \<open>The coroutines of a thread after any operations of its main coroutine; \<open>user\<close> is what their code does.\<close>

inductive co_reach :: "('c \<Rightarrow> 'x \<Rightarrow> 'c ending \<times> 'x) \<Rightarrow> 'c co_env \<Rightarrow> bool" for user where
  co_start: "co_reach user (InitMainCoroutine \<lparr> cos = Map.empty, t_curCoroutine = None, s_coroutineId = n \<rparr>)"
| co_new: "co_reach user V \<Longrightarrow> s_coroutineId V < size_mod - 1 \<Longrightarrow> 0 < page \<Longrightarrow> 0 < n \<Longrightarrow>
    new_Coroutine page f n V = (i, V') \<Longrightarrow> co_reach user V'"
| co_resume: "co_reach user V \<Longrightarrow> i \<noteq> 0 \<Longrightarrow> resume user i V x = Inr (V', x') \<Longrightarrow> co_reach user V'"
| co_reuse: "co_reach user V \<Longrightarrow> i \<noteq> 0 \<Longrightarrow> reuse f i V = Inr V' \<Longrightarrow> co_reach user V'"
| co_delete: "co_reach user V \<Longrightarrow> i \<noteq> 0 \<Longrightarrow> delete_Coroutine i V = Inr V' \<Longrightarrow> co_reach user V'"

lemma resume_ended:
  assumes "co_inv V" "live i V" "state_of i V = DONE \<or> state_of i V = EXCEPT"
  shows "resume user i V x = Inl Thread_exit"
proof -
  obtain c where c: "cos V i = Some c" "i \<noteq> 0" using assms(2) by (auto simp: live_def)
  with co_inv_ok [OF assms(1) c(2,1)] assms(3) have "co_context c = Returned" "co_state c \<noteq> RUNNING"
    by (auto simp: state_of_def co_ok_def)
  moreover have "cos V 0 = Some new_main" using assms(1) by (simp add: co_inv_def)
  ultimately show ?thesis using c by (simp add: resume_def)
qed

lemma live_state:
  assumes "co_inv V" "live i V"
  shows "startable i V \<or> state_of i V = DONE \<or> state_of i V = EXCEPT"
proof -
  obtain c where c: "cos V i = Some c" "i \<noteq> 0" using assms(2) by (auto simp: live_def)
  with co_inv_ok [OF assms(1) c(2,1)] assms(2) show ?thesis
    by (cases "co_state c") (auto simp: startable_def state_of_def co_ok_def)
qed

lemma co_inv_remove: "co_inv V \<Longrightarrow> i \<noteq> 0 \<Longrightarrow> co_inv (V\<lparr>cos := (cos V)(i := None)\<rparr>)"
  by (simp add: co_inv_def)

lemma delete_live:
  assumes "co_inv V" "live i V"
  shows "delete_Coroutine i V =
    (if state_of i V = SUSPEND then Inl Assert_fail else Inr (V\<lparr>cos := (cos V)(i := None)\<rparr>))"
proof -
  obtain c where c: "cos V i = Some c" "i \<noteq> 0" using assms(2) by (auto simp: live_def)
  with co_inv_ok [OF assms(1) c(2,1)] show ?thesis
    by (cases "co_state c") (auto simp: delete_Coroutine_def state_of_def co_ok_def)
qed

lemma reuse_live:
  assumes "co_inv V" "live i V"
  shows "reuse f i V = (if state_of i V = SUSPEND then Inl Assert_fail
    else Inr (co_set i ((the (cos V i))\<lparr>co_state := INIT, co_func := Some f, co_context := At_entry\<rparr>) V))"
proof -
  obtain c where c: "cos V i = Some c" "i \<noteq> 0" using assms(2) by (auto simp: live_def)
  with co_inv_ok [OF assms(1) c(2,1)] show ?thesis
    by (cases "co_state c") (auto simp: reuse_def state_of_def co_ok_def)
qed

lemma co_reach_inv: "co_reach user V \<Longrightarrow> co_inv V"
proof (induction rule: co_reach.induct)
  case (co_start n)
  show ?case by (simp add: InitMainCoroutine_def co_inv_def)
next
  case (co_new V page n f i V')
  have "StackAlloc page n \<noteq> 0" using StackAlloc_spec [OF co_new(3), of n] co_new(4) by auto
  from new_Coroutine_spec [OF co_new(6) co_new(2) this, of f] co_new(5) show ?case by auto
next
  case (co_resume V i x V' x')
  then have l: "live i V" by (auto simp: live_def resume_def split: option.splits)
  from live_state [OF co_resume(4) l] resume_ended [OF co_resume(4) l, of user x] co_resume(3) have s: "startable i V" by auto
  obtain k where "code_of i V = Some k" using startable_code [OF co_resume(4) s] by metis
  moreover obtain e y where "user k x = (e, y)" by force
  ultimately obtain V1 where "resume user i V x = Inr (V1, y)" "co_inv V1" using resume_spec [OF co_resume(4) s] by metis
  with co_resume(3) show ?case by simp
next
  case (co_reuse V i f V')
  then have l: "live i V" by (auto simp: live_def reuse_def split: option.splits)
  then obtain c where c: "cos V i = Some c" by (auto simp: live_def)
  from co_reuse(2,3) reuse_live [OF co_reuse(4) l, of f] co_inv_ok [OF co_reuse(4) co_reuse(2) c] co_reuse(4) c show ?case
    by (auto simp: co_inv_def co_set_def co_ok_def split: if_splits)
next
  case (co_delete V i V')
  then have l: "live i V" by (auto simp: live_def delete_Coroutine_def split: option.splits)
  from co_delete delete_live [OF co_delete(4) l] show ?case by (auto simp: co_inv_remove split: if_splits)
qed

text \<open>
  C19: the life of a coroutine. After any operations of a thread, every coroutine is new, suspended, finished or
  failed, with a saved context that fits. One that is new or suspended can be resumed and comes back suspended,
  finished or failed, without touching any other; resuming one that has ended ends the thread; one that is not
  suspended can be reused and destroyed, while reusing or destroying a suspended one fails an assertion, so that
  dropping the last pointer to a suspended coroutine aborts the program.
\<close>

theorem coroutine_states:
  assumes "co_reach user V" "live i V"
  shows "state_of i V \<noteq> RUNNING \<and>
    (state_of i V \<in> {INIT, SUSPEND} \<longrightarrow>
       (\<exists>V' x'. resume user i V x = Inr (V', x') \<and> state_of i V' \<in> {SUSPEND, DONE, EXCEPT} \<and> (\<forall>j. j \<noteq> i \<longrightarrow> cos V' j = cos V j))) \<and>
    (state_of i V \<in> {DONE, EXCEPT} \<longrightarrow> resume user i V x = Inl Thread_exit) \<and>
    (if state_of i V = SUSPEND then reuse f i V = Inl Assert_fail \<and> delete_Coroutine i V = Inl Assert_fail
     else (\<exists>V'. reuse f i V = Inr V') \<and> delete_Coroutine i V = Inr (V\<lparr>cos := (cos V)(i := None)\<rparr>))"
proof -
  note inv = co_reach_inv [OF assms(1)]
  have "\<exists>V' x'. resume user i V x = Inr (V', x') \<and> state_of i V' \<in> {SUSPEND, DONE, EXCEPT} \<and> (\<forall>j. j \<noteq> i \<longrightarrow> cos V' j = cos V j)"
    if "state_of i V \<in> {INIT, SUSPEND}"
  proof -
    have s: "startable i V" using that assms(2) by (simp add: startable_def)
    obtain k where k: "code_of i V = Some k" using startable_code [OF inv s] by metis
    obtain e x' where "user k x = (e, x')" by force
    from resume_spec [where user = user, OF inv s k this] show ?thesis by (metis insertCI state_after.elims)
  qed
  moreover have "state_of i V \<noteq> RUNNING" using live_state [OF inv assms(2)] by (auto simp: startable_def)
  ultimately show ?thesis
    using resume_ended [OF inv assms(2), of user x] reuse_live [OF inv assms(2), of f] delete_live [OF inv assms(2)] by auto
qed

definition co_example :: "nat co_env" where
  "co_example = snd (new_Coroutine 4096 7 100 (InitMainCoroutine \<lparr> cos = Map.empty, t_curCoroutine = None, s_coroutineId = 0 \<rparr>))"

theorem coroutine_states_witness:
  "\<exists>V'. resume (\<lambda>k x. (Suspends k, x)) 1 co_example () = Inr (V', ()) \<and> delete_Coroutine 1 V' = Inl Assert_fail"
proof -
  let ?u = "\<lambda>k x. (Suspends k, x) :: nat ending \<times> unit"
  have r: "co_reach ?u co_example" unfolding co_example_def
    by (rule co_new [OF co_start [of _ 0], of 4096 100 7]) (simp_all add: InitMainCoroutine_def new_Coroutine_def size_add_def)
  have l: "live 1 co_example" "state_of 1 co_example = INIT" and k: "code_of 1 co_example = Some 7"
    by (simp_all add: co_example_def InitMainCoroutine_def new_Coroutine_def size_add_def live_def state_of_def code_of_def)
  then have "startable 1 co_example" by (simp add: startable_def)
  from resume_spec [OF co_reach_inv [OF r] this k, of ?u "()" "Suspends 7" "()"] obtain V' where
    V': "resume ?u 1 co_example () = Inr (V', ())" "state_of 1 V' = SUSPEND" "live 1 V'" by auto
  from coroutine_states [OF co_resume [OF r _ V'(1)] V'(3), of "()" 0] V' show ?thesis by auto
qed

end
