(* ===== verification/Worker.thy ===== *)
theory Worker
  imports Coroutine Epoller
begin

text \<open>
  \<open>src/reyao/worker.h\<close> and \<open>worker.cc\<close>: the loop of a worker thread over its task queue, its idle
  coroutine and the coroutine it reuses for callbacks. The code of a coroutine is \<open>Worker::idle\<close> or user
  code. What user code does between two switches, \<open>Scheduler::getExpire\<close> and \<open>Epoller::wait\<close> are
  arguments: \<open>user i c x\<close> runs code \<open>c\<close> as coroutine \<open>i\<close> in the surrounding state \<open>x\<close> and yields how it
  leaves and the tasks it adds to this worker, \<open>poll t x\<close> the tasks one \<open>Epoller::wait\<close> adds. \<open>queued\<close> and
  \<open>ran\<close> record the tasks pushed and popped.
\<close>

section \<open>State\<close>

datatype 'c code = Idle | User 'c

record ('c, 'x) worker =
  tasks :: "'c task list"
  wk_running :: bool
  wk_idle :: bool
  coFunc :: "nat option"
  idleCo :: nat
  outside :: 'x
  notifies :: nat
  queued :: "'c task list"
  ran :: "'c task list"

type_synonym ('c, 'x) user_code = "nat \<Rightarrow> 'c \<Rightarrow> 'x \<Rightarrow> ('c ending \<times> 'c task list) \<times> 'x"

definition kStackSize :: nat where "kStackSize = 128 * 1024"

definition new_Worker :: "'x \<Rightarrow> ('c, 'x) worker" where
  "new_Worker x = \<lparr> tasks = [], wk_running = False, wk_idle = False, coFunc = None, idleCo = 0, outside = x,
     notifies = 0, queued = [], ran = [] \<rparr>"

section \<open>Operations\<close>

definition wk_notify :: "('c, 'x) worker \<Rightarrow> ('c, 'x) worker" where
  "wk_notify w = w\<lparr>notifies := notifies w + 1\<rparr>"

text \<open>A task made of an empty function or coroutine pointer is not queued.\<close>

definition addTaskNoLock :: "'c task option \<Rightarrow> ('c, 'x) worker \<Rightarrow> bool \<times> ('c, 'x) worker" where
  "addTaskNoLock cf w =
     (let need = (tasks w = [] \<or> wk_idle w) in
      (need,
       case cf of None \<Rightarrow> w | Some t \<Rightarrow> w\<lparr>tasks := tasks w @ [t], queued := queued w @ [t]\<rparr>))"

definition addTask :: "'c task option \<Rightarrow> ('c, 'x) worker \<Rightarrow> ('c, 'x) worker" where
  "addTask cf w = (let (need, w) = addTaskNoLock cf w in if need then wk_notify w else w)"

fun addTask_loop :: "'c task option list \<Rightarrow> bool \<Rightarrow> ('c, 'x) worker \<Rightarrow> bool \<times> ('c, 'x) worker" where
  "addTask_loop [] need w = (need, w)"
| "addTask_loop (cf # cfs) need w =
     (let (n, w) = addTaskNoLock cf w in addTask_loop cfs (n \<or> need) w)"

definition addTask_range :: "'c task option list \<Rightarrow> ('c, 'x) worker \<Rightarrow> ('c, 'x) worker" where
  "addTask_range cfs w = (let (need, w) = addTask_loop cfs False w in if need then wk_notify w else w)"

definition wk_stop :: "('c, 'x) worker \<Rightarrow> ('c, 'x) worker" where
  "wk_stop w = wk_notify (w\<lparr>wk_running := False\<rparr>)"

definition canStop :: "int \<Rightarrow> ('c, 'x) worker \<Rightarrow> bool" where
  "canStop timeout w \<longleftrightarrow> \<not> wk_running w \<and> tasks w = [] \<and> timeout = -1"

text \<open>
  The turns of the code: one round of the loop of \<open>idle\<close>, whose 64 bit timeout becomes the \<open>int\<close> of
  \<open>Epoller::wait\<close>, and the user code, which adds its tasks one by one.
\<close>

definition as_int :: "int \<Rightarrow> int" where
  "as_int n = (n + 2147483648) mod 4294967296 - 2147483648"

fun of_user :: "'c ending \<Rightarrow> 'c code ending" where
  "of_user (Suspends c) = Suspends (User c)"
| "of_user Returns = Returns"
| "of_user Throws = Throws"

fun exec :: "('c, 'x) user_code \<Rightarrow> ('x \<Rightarrow> int \<times> 'x) \<Rightarrow> (int \<Rightarrow> 'x \<Rightarrow> 'c task list \<times> 'x) \<Rightarrow> nat \<Rightarrow>
    'c code \<Rightarrow> ('c, 'x) worker \<Rightarrow> 'c code ending \<times> ('c, 'x) worker" where
  "exec user expiry poll i Idle w =
     (let (timeout, x) = expiry (outside w);
          w = w\<lparr>outside := x\<rparr> in
      if canStop timeout w then (Returns, w)
      else let (ts, x) = poll (as_int timeout) (outside w)
           in (Suspends Idle, fold (\<lambda>t. addTask (Some t)) ts (w\<lparr>outside := x\<rparr>)))"
| "exec user expiry poll i (User c) w =
     (let ((e, ts), x) = user i c (outside w)
      in (of_user e, fold (\<lambda>t. addTask (Some t)) ts (w\<lparr>outside := x\<rparr>)))"

text \<open>The start of \<open>run\<close> and one round of its loop; the result tells whether the loop ends.\<close>

definition run_start ::
    "nat \<Rightarrow> nat \<Rightarrow> 'c code co_env \<Rightarrow> ('c, 'x) worker \<Rightarrow> 'c code co_env \<times> ('c, 'x) worker" where
  "run_start page stackSize V w =
     (let (i, V) = new_Coroutine page Idle stackSize (InitMainCoroutine V)
      in (V, w\<lparr>wk_running := True, idleCo := i, coFunc := None\<rparr>))"

definition pop_task :: "('c, 'x) worker \<Rightarrow> 'c task option \<times> ('c, 'x) worker" where
  "pop_task w = (case tasks w of [] \<Rightarrow> (None, w) | t # ts \<Rightarrow> (Some t, w\<lparr>tasks := ts, ran := ran w @ [t]\<rparr>))"

definition run_co ::
    "(nat \<Rightarrow> 'c code \<Rightarrow> ('c, 'x) worker \<Rightarrow> 'c code ending \<times> ('c, 'x) worker) \<Rightarrow> nat \<Rightarrow>
     'c code co_env \<Rightarrow> ('c, 'x) worker \<Rightarrow> (bool \<times> 'c code co_env \<times> ('c, 'x) worker) res" where
  "run_co ex i V w = rbind (resume (ex i) i V w) (\<lambda>(V, w). Inr (False, V, w))"

definition run_func ::
    "(nat \<Rightarrow> 'c code \<Rightarrow> ('c, 'x) worker \<Rightarrow> 'c code ending \<times> ('c, 'x) worker) \<Rightarrow> nat \<Rightarrow> nat \<Rightarrow> 'c \<Rightarrow>
     'c code co_env \<Rightarrow> ('c, 'x) worker \<Rightarrow> (bool \<times> 'c code co_env \<times> ('c, 'x) worker) res" where
  "run_func ex page stackSize f V w =
     rbind (case coFunc w of
              Some i \<Rightarrow> rbind (reuse (User f) i V) (\<lambda>V. Inr (i, V))
            | None \<Rightarrow> Inr (new_Coroutine page (User f) stackSize V))
       (\<lambda>(i, V). rbind (resume (ex i) i V w)
          (\<lambda>(V, w). Inr (False, V, w\<lparr>coFunc := (if state_of i V = SUSPEND then None else Some i)\<rparr>)))"

definition run_idle ::
    "(nat \<Rightarrow> 'c code \<Rightarrow> ('c, 'x) worker \<Rightarrow> 'c code ending \<times> ('c, 'x) worker) \<Rightarrow>
     'c code co_env \<Rightarrow> ('c, 'x) worker \<Rightarrow> (bool \<times> 'c code co_env \<times> ('c, 'x) worker) res" where
  "run_idle ex V w =
     (if state_of (idleCo w) V = DONE then Inr (True, V, w)
      else rbind (resume (ex (idleCo w)) (idleCo w) V (w\<lparr>wk_idle := True\<rparr>))
             (\<lambda>(V, w). Inr (False, V, w\<lparr>wk_idle := False\<rparr>)))"

definition run_step ::
    "(nat \<Rightarrow> 'c code \<Rightarrow> ('c, 'x) worker \<Rightarrow> 'c code ending \<times> ('c, 'x) worker) \<Rightarrow> nat \<Rightarrow> nat \<Rightarrow>
     'c code co_env \<Rightarrow> ('c, 'x) worker \<Rightarrow> (bool \<times> 'c code co_env \<times> ('c, 'x) worker) res" where
  "run_step ex page stackSize V w =
     (let (task, w) = pop_task w in
      case task of
        Some (Task_co i) \<Rightarrow>
          if state_of i V \<noteq> DONE \<and> state_of i V \<noteq> EXCEPT then run_co ex i V w else run_idle ex V w
      | Some (Task_func f) \<Rightarrow> run_func ex page stackSize f V w
      | None \<Rightarrow> run_idle ex V w)"

section \<open>Invariant\<close>

text \<open>
  The coroutines that tasks and code refer to; \<open>crefs c\<close> are those captured by the user code \<open>c\<close>.
\<close>

fun task_ref :: "('c \<Rightarrow> nat set) \<Rightarrow> 'c task \<Rightarrow> nat set" where
  "task_ref crefs (Task_co i) = {i}"
| "task_ref crefs (Task_func c) = crefs c"

definition task_refs :: "('c \<Rightarrow> nat set) \<Rightarrow> 'c task list \<Rightarrow> nat set" where
  "task_refs crefs ts = \<Union> (task_ref crefs ` set ts)"

fun ending_refs :: "('c \<Rightarrow> nat set) \<Rightarrow> 'c ending \<Rightarrow> nat set" where
  "ending_refs crefs (Suspends c) = crefs c"
| "ending_refs crefs Returns = {}"
| "ending_refs crefs Throws = {}"

definition known :: "'c code co_env \<Rightarrow> ('c, 'x) worker \<Rightarrow> nat set" where
  "known V w = {i. live i V \<and> i \<noteq> idleCo w}"

definition wk_base :: "('c \<Rightarrow> nat set) \<Rightarrow> ('x \<Rightarrow> nat set) \<Rightarrow> ('x \<Rightarrow> bool) \<Rightarrow> 'c code co_env \<Rightarrow> ('c, 'x) worker \<Rightarrow> bool" where
  "wk_base crefs refs ok V w \<longleftrightarrow>
     co_inv V \<and> live (idleCo w) V \<and> state_of (idleCo w) V \<noteq> EXCEPT \<and>
     (state_of (idleCo w) V \<noteq> DONE \<longrightarrow> code_of (idleCo w) V = Some Idle) \<and>
     (\<forall>i. i \<in> known V w \<longrightarrow> code_of i V \<noteq> Some Idle) \<and>
     (\<forall>i c. code_of i V = Some (User c) \<longrightarrow> crefs c \<subseteq> known V w) \<and>
     task_refs crefs (tasks w) \<subseteq> known V w \<and> refs (outside w) \<subseteq> known V w \<and>
     queued w = ran w @ tasks w \<and> ok (outside w)"

definition slot_ok :: "'c code co_env \<Rightarrow> ('c, 'x) worker \<Rightarrow> bool" where
  "slot_ok V w \<longleftrightarrow>
     (\<forall>i. coFunc w = Some i \<longrightarrow> live i V \<and> i \<noteq> idleCo w \<and> (state_of i V = DONE \<or> state_of i V = EXCEPT))"

definition wk_inv :: "('c \<Rightarrow> nat set) \<Rightarrow> ('x \<Rightarrow> nat set) \<Rightarrow> ('x \<Rightarrow> bool) \<Rightarrow> 'c code co_env \<Rightarrow> ('c, 'x) worker \<Rightarrow> bool" where
  "wk_inv crefs refs ok V w \<longleftrightarrow> wk_base crefs refs ok V w \<and> slot_ok V w"

text \<open>Between two rounds no coroutine goes away, and new ones have new identifiers.\<close>

definition grows :: "'c code co_env \<Rightarrow> ('c, 'x) worker \<Rightarrow> 'c code co_env \<Rightarrow> ('c, 'x) worker \<Rightarrow> bool" where
  "grows V w V' w' \<longleftrightarrow> idleCo w' = idleCo w \<and> s_coroutineId V \<le> s_coroutineId V' \<and>
     (\<forall>j. live j V \<longrightarrow> live j V') \<and> (\<forall>j. live j V' \<longrightarrow> live j V \<or> s_coroutineId V < j)"

lemma grows_known: "grows V w V' w' \<Longrightarrow> known V w \<subseteq> known V' w'"
  by (auto simp: grows_def known_def)

lemma fold_addTask:
  "\<exists>n. fold (\<lambda>t. addTask (Some t)) ts w = w\<lparr>tasks := tasks w @ ts, queued := queued w @ ts, notifies := n\<rparr>"
proof (induction ts arbitrary: w)
  case Nil
  show ?case by (rule exI [of _ "notifies w"]) simp
next
  case (Cons t ts)
  obtain m where "addTask (Some t) w = w\<lparr>tasks := tasks w @ [t], queued := queued w @ [t], notifies := m\<rparr>"
    by (rule that [of "if tasks w = [] \<or> wk_idle w then notifies w + 1 else notifies w"])
      (simp add: addTask_def addTaskNoLock_def wk_notify_def)
  with Cons.IH [of "addTask (Some t) w"] show ?case by auto
qed

lemma fold_addTask_outside:
  obtains n where "fold (\<lambda>t. addTask (Some t)) ts (w\<lparr>outside := x\<rparr>) =
      w\<lparr>tasks := tasks w @ ts, queued := queued w @ ts, notifies := n, outside := x\<rparr>"
proof -
  obtain n where n: "fold (\<lambda>t. addTask (Some t)) ts (w\<lparr>outside := x\<rparr>) =
      w\<lparr>outside := x, tasks := tasks (w\<lparr>outside := x\<rparr>) @ ts, queued := queued (w\<lparr>outside := x\<rparr>) @ ts, notifies := n\<rparr>"
    using fold_addTask by metis
  show ?thesis by (rule that [of n], unfold n, cases w) simp
qed

lemma task_refs_simps [simp]:
  "task_refs crefs [] = {}" "task_refs crefs (ts @ us) = task_refs crefs ts \<union> task_refs crefs us"
  "task_refs crefs (t # ts) = task_ref crefs t \<union> task_refs crefs ts"
  by (auto simp: task_refs_def)

lemma cos_same: "cos V' j = cos V j \<Longrightarrow> live j V' = live j V \<and> state_of j V' = state_of j V \<and> code_of j V' = code_of j V"
  by (simp add: live_def state_of_def code_of_def)

lemma startable_iff: "co_inv V \<Longrightarrow> startable i V \<longleftrightarrow> live i V \<and> state_of i V \<noteq> DONE \<and> state_of i V \<noteq> EXCEPT"
proof -
  assume "co_inv V"
  then have "live i V \<Longrightarrow> state_of i V \<noteq> RUNNING"
    using co_inv_ok [of V i] by (auto simp: live_def state_of_def co_ok_def)
  then show ?thesis by (cases "state_of i V") (auto simp: startable_def)
qed

section \<open>Runs\<close>

text \<open>
  The states of a worker between two rounds of its loop. Other threads may add tasks at any time, stop it
  and create coroutines of their own, which uses up identifiers; the 64 bit counter of identifiers is
  taken not to wrap.
\<close>

inductive wk_reach ::
    "(nat \<Rightarrow> 'c code \<Rightarrow> ('c, 'x) worker \<Rightarrow> 'c code ending \<times> ('c, 'x) worker) \<Rightarrow> ('c \<Rightarrow> nat set) \<Rightarrow> nat \<Rightarrow> nat \<Rightarrow> 'x \<Rightarrow>
     'c code co_env \<Rightarrow> ('c, 'x) worker \<Rightarrow> bool"
  for ex crefs page stackSize x where
  wk_init: "s < size_mod - 1 \<Longrightarrow>
    run_start page stackSize \<lparr>cos = Map.empty, t_curCoroutine = None, s_coroutineId = s\<rparr> (new_Worker x) = (V, w) \<Longrightarrow>
    wk_reach ex crefs page stackSize x V w"
| wk_round: "wk_reach ex crefs page stackSize x V w \<Longrightarrow> s_coroutineId V < size_mod - 1 \<Longrightarrow>
    run_step ex page stackSize V w = Inr (False, V', w') \<Longrightarrow> wk_reach ex crefs page stackSize x V' w'"
| wk_given: "wk_reach ex crefs page stackSize x V w \<Longrightarrow> task_ref crefs t \<subseteq> known V w \<Longrightarrow>
    wk_reach ex crefs page stackSize x V (addTask (Some t) w)"
| wk_halted: "wk_reach ex crefs page stackSize x V w \<Longrightarrow> wk_reach ex crefs page stackSize x V (wk_stop w)"
| wk_others: "wk_reach ex crefs page stackSize x V w \<Longrightarrow> s_coroutineId V \<le> s \<Longrightarrow>
    wk_reach ex crefs page stackSize x (V\<lparr>s_coroutineId := s\<rparr>) w"

lemma addTask_Some:
  "\<exists>n. addTask (Some t) w = w\<lparr>tasks := tasks w @ [t], queued := queued w @ [t], notifies := n\<rparr>"
  using fold_addTask [of "[t]" w] by simp

text \<open>What other threads do to a worker keeps its invariant.\<close>

lemma wk_inv_addTask:
  assumes "wk_inv crefs refs ok V w" "task_ref crefs t \<subseteq> known V w"
  shows "wk_inv crefs refs ok V (addTask (Some t) w)"
proof -
  obtain n where "addTask (Some t) w = w\<lparr>tasks := tasks w @ [t], queued := queued w @ [t], notifies := n\<rparr>"
    using addTask_Some by blast
  with assms show ?thesis by (simp add: wk_inv_def wk_base_def slot_ok_def known_def)
qed

lemma wk_inv_stop: "wk_inv crefs refs ok V w \<Longrightarrow> wk_inv crefs refs ok V (wk_stop w)"
  by (simp add: wk_inv_def wk_base_def slot_ok_def known_def wk_stop_def wk_notify_def)

lemma wk_inv_ids:
  assumes "wk_inv crefs refs ok V w" "s_coroutineId V \<le> s"
  shows "wk_inv crefs refs ok (V\<lparr>s_coroutineId := s\<rparr>) w"
proof -
  have "co_inv (V\<lparr>s_coroutineId := s\<rparr>)" using assms co_inv_ids [of V s] by (simp add: wk_inv_def wk_base_def)
  moreover have "live i (V\<lparr>s_coroutineId := s\<rparr>) = live i V" "state_of i (V\<lparr>s_coroutineId := s\<rparr>) = state_of i V"
    "code_of i (V\<lparr>s_coroutineId := s\<rparr>) = code_of i V" for i
    by (simp_all add: live_def state_of_def code_of_def)
  ultimately show ?thesis using assms(1) by (simp add: wk_inv_def wk_base_def slot_ok_def known_def)
qed

section \<open>What the worker relies on\<close>

text \<open>
  \<open>refs x\<close> are the coroutines that the surroundings can hand back to the worker. User code may hold on to
  the coroutine it runs in (as \<open>GetCurCoroutine\<close> lets it), to those it captured and to those already known;
  timers and the poller only pass on what they were given. \<open>ok\<close> is an invariant of the surroundings.
\<close>

locale guest =
  fixes user :: "('c, 'x) user_code" and expiry :: "'x \<Rightarrow> int \<times> 'x" and poll :: "int \<Rightarrow> 'x \<Rightarrow> 'c task list \<times> 'x"
    and crefs :: "'c \<Rightarrow> nat set" and refs :: "'x \<Rightarrow> nat set" and ok :: "'x \<Rightarrow> bool"
  assumes user_law: "ok x \<Longrightarrow> user i c x = ((e, ts), x') \<Longrightarrow>
      ok x' \<and> task_refs crefs ts \<union> ending_refs crefs e \<union> refs x' \<subseteq> insert i (crefs c \<union> refs x)"
    and expiry_law: "ok x \<Longrightarrow> expiry x = (t, x') \<Longrightarrow> ok x' \<and> refs x' \<subseteq> refs x"
    and poll_law: "ok x \<Longrightarrow> poll t x = (ts, x') \<Longrightarrow> ok x' \<and> task_refs crefs ts \<union> refs x' \<subseteq> refs x"
begin

definition allowed :: "nat \<Rightarrow> 'c code \<Rightarrow> 'x \<Rightarrow> nat set" where
  "allowed i k x = (case k of Idle \<Rightarrow> refs x | User c \<Rightarrow> insert i (crefs c \<union> refs x))"

lemma exec_effect:
  assumes "exec user expiry poll i k w = (e, w')" "ok (outside w)"
  obtains ts n x' where "w' = w\<lparr>tasks := tasks w @ ts, queued := queued w @ ts, notifies := n, outside := x'\<rparr>"
    "ok x'" "task_refs crefs ts \<union> refs x' \<subseteq> allowed i k (outside w)"
    "k = Idle \<Longrightarrow> e = Returns \<or> e = Suspends Idle" "k \<noteq> Idle \<Longrightarrow> code_after e \<noteq> Some Idle"
    "\<And>c. code_after e = Some (User c) \<Longrightarrow> crefs c \<subseteq> allowed i k (outside w)"
proof (cases k)
  case Idle
  obtain t x where t: "expiry (outside w) = (t, x)" by force
  note x = expiry_law [OF assms(2) t]
  show ?thesis
  proof (cases "canStop t (w\<lparr>outside := x\<rparr>)")
    case True
    with that [where ts = "[]" and n = "notifies w" and x' = x] x assms Idle t show ?thesis by (auto simp: allowed_def)
  next
    case False
    obtain ts x' where p: "poll (as_int t) x = (ts, x')" by force
    obtain n where "fold (\<lambda>t. addTask (Some t)) ts (w\<lparr>outside := x'\<rparr>) =
        w\<lparr>tasks := tasks w @ ts, queued := queued w @ ts, notifies := n, outside := x'\<rparr>"
      by (rule fold_addTask_outside)
    then have w': "w' = w\<lparr>tasks := tasks w @ ts, queued := queued w @ ts, notifies := n, outside := x'\<rparr>" and e: "e = Suspends Idle"
      using assms Idle t p False by simp_all
    show ?thesis by (rule that [OF w']) (use x poll_law [OF _ p] Idle e in \<open>auto simp: allowed_def\<close>)
  qed
next
  case (User c)
  obtain e' ts x' where u: "user i c (outside w) = ((e', ts), x')" by (metis surj_pair)
  obtain n where "fold (\<lambda>t. addTask (Some t)) ts (w\<lparr>outside := x'\<rparr>) =
      w\<lparr>tasks := tasks w @ ts, queued := queued w @ ts, notifies := n, outside := x'\<rparr>"
    by (rule fold_addTask_outside)
  then have w': "w' = w\<lparr>tasks := tasks w @ ts, queued := queued w @ ts, notifies := n, outside := x'\<rparr>" and e: "e = of_user e'"
    using assms User u by auto
  have c: "code_after e \<noteq> Some Idle" "code_after e = Some (User d) \<Longrightarrow> e' = Suspends d" for d
    unfolding e by (cases e'; simp)+
  show ?thesis by (rule that [OF w' _ _ _ c(1)]) (use user_law [OF assms(2) u] User c(2) in \<open>auto simp: allowed_def\<close>)
qed

lemma resume_base:
  assumes "wk_base crefs refs ok V w" "startable i V"
  obtains V' ts n x' where
    "resume (exec user expiry poll i) i V w =
       Inr (V', w\<lparr>tasks := tasks w @ ts, queued := queued w @ ts, notifies := n, outside := x'\<rparr>)"
    "wk_base crefs refs ok V' (w\<lparr>tasks := tasks w @ ts, queued := queued w @ ts, notifies := n, outside := x'\<rparr>)"
    "\<And>j. j \<noteq> i \<Longrightarrow> cos V' j = cos V j" "state_of i V' \<noteq> INIT" "live i V'" "co_inv V'" "s_coroutineId V' = s_coroutineId V"
    "\<And>j. live j V' = live j V"
proof -
  have inv: "co_inv V" and oki: "ok (outside w)" using assms(1) by (simp_all add: wk_base_def)
  obtain k where k: "code_of i V = Some k" using startable_code [OF inv assms(2)] by metis
  obtain e w' where e: "exec user expiry poll i k w = (e, w')" by force
  obtain ts n x' where w': "w' = w\<lparr>tasks := tasks w @ ts, queued := queued w @ ts, notifies := n, outside := x'\<rparr>" and okx: "ok x'"
    and r: "task_refs crefs ts \<union> refs x' \<subseteq> allowed i k (outside w)"
    and ei: "k = Idle \<Longrightarrow> e = Returns \<or> e = Suspends Idle" "k \<noteq> Idle \<Longrightarrow> code_after e \<noteq> Some Idle"
    and ec: "\<And>c. code_after e = Some (User c) \<Longrightarrow> crefs c \<subseteq> allowed i k (outside w)"
    using exec_effect [OF e oki] by metis
  obtain V' where V': "resume (exec user expiry poll i) i V w = Inr (V', w')" "co_inv V'" "state_of i V' = state_after e"
    "code_of i V' = code_after e" "\<And>j. j \<noteq> i \<Longrightarrow> cos V' j = cos V j" "live i V'" "s_coroutineId V' = s_coroutineId V"
    using resume_spec [where user = "exec user expiry poll i", OF inv assms(2) k e] by metis
  have li: "live i V" using assms(2) by (simp add: startable_def)
  have k': "k = Idle \<longleftrightarrow> i = idleCo w"
    using assms k li by (auto simp: wk_base_def startable_def known_def)
  have live: "live j V' = live j V" for j using li V'(5,6) cos_same [of V' j V] by (cases "j = i") auto
  have K: "known V' w' = known V w" by (simp add: known_def live w')
  have a: "allowed i k (outside w) \<subseteq> known V w"
    using assms(1) k k' li by (cases k) (auto simp: allowed_def wk_base_def known_def)
  have "wk_base crefs refs ok V' w'"
    unfolding wk_base_def K
  proof (intro conjI allI impI)
    show "co_inv V'" "live (idleCo w') V'" using V'(2) live assms(1) w' by (auto simp: wk_base_def)
    show "state_of (idleCo w') V' \<noteq> EXCEPT" "state_of (idleCo w') V' \<noteq> DONE \<Longrightarrow> code_of (idleCo w') V' = Some Idle"
      using assms(1) V'(3,4) ei(1) k' w' V'(5) [THEN cos_same] by (cases "i = idleCo w"; auto simp: wk_base_def)+
    show "code_of j V' \<noteq> Some Idle" if "j \<in> known V w" for j
      using assms(1) V'(4) ei(2) k' w' V'(5) [THEN cos_same] that by (cases "j = i") (auto simp: wk_base_def known_def)
    show "crefs c \<subseteq> known V w" if "code_of j V' = Some (User c)" for j c
      using assms(1) V'(4) V'(5) [THEN cos_same] that ec [of c] a by (cases "j = i") (auto simp: wk_base_def)
    show "task_refs crefs (tasks w') \<subseteq> known V w" "refs (outside w') \<subseteq> known V w"
      using r a assms(1) w' by (auto simp: wk_base_def)
    show "queued w' = ran w' @ tasks w'" "ok (outside w')" using assms(1) w' okx by (simp_all add: wk_base_def)
  qed
  moreover have "state_of i V' \<noteq> INIT" using V'(3) by (cases e) auto
  ultimately show ?thesis using that V' w' live by blast
qed

lemma run_idle_ok:
  assumes "wk_inv crefs refs ok V w"
  obtains b V' w' where "run_idle (exec user expiry poll) V w = Inr (b, V', w')" "wk_inv crefs refs ok V' w'"
    "b \<longleftrightarrow> state_of (idleCo w) V = DONE" "s_coroutineId V' = s_coroutineId V" "ran w' = ran w" "grows V w V' w'"
proof (cases "state_of (idleCo w) V = DONE")
  case True
  with that [of True V w] assms show ?thesis by (simp add: run_idle_def grows_def)
next
  case False
  let ?w = "w\<lparr>wk_idle := True\<rparr>"
  have b: "wk_base crefs refs ok V ?w" "slot_ok V w" using assms by (simp_all add: wk_inv_def wk_base_def known_def)
  then have "startable (idleCo w) V" using False startable_iff [of V "idleCo w"] by (simp add: wk_base_def)
  from resume_base [OF b(1) this] obtain V' ts n x' where
    r: "resume (exec user expiry poll (idleCo w)) (idleCo w) V ?w =
       Inr (V', ?w\<lparr>tasks := tasks ?w @ ts, queued := queued ?w @ ts, notifies := n, outside := x'\<rparr>)"
    "wk_base crefs refs ok V' (?w\<lparr>tasks := tasks ?w @ ts, queued := queued ?w @ ts, notifies := n, outside := x'\<rparr>)"
    "\<And>j. j \<noteq> idleCo w \<Longrightarrow> cos V' j = cos V j" "s_coroutineId V' = s_coroutineId V" "\<And>j. live j V' = live j V" by metis
  let ?w' = "w\<lparr>wk_idle := False, tasks := tasks w @ ts, queued := queued w @ ts, notifies := n, outside := x'\<rparr>"
  have "slot_ok V' ?w'" using b(2) r(3) [THEN cos_same] by (auto simp: slot_ok_def)
  moreover have "wk_base crefs refs ok V' ?w'" using r(2) by (simp add: wk_base_def known_def)
  ultimately show ?thesis using that [of False V' ?w'] False r by (simp add: run_idle_def wk_inv_def grows_def)
qed

lemma run_co_ok:
  assumes "wk_inv crefs refs ok V w" "startable i V" "i \<noteq> idleCo w"
  obtains V' w' where "run_co (exec user expiry poll) i V w = Inr (False, V', w')" "wk_inv crefs refs ok V' w'"
    "s_coroutineId V' = s_coroutineId V" "ran w' = ran w" "grows V w V' w'"
proof -
  have b: "wk_base crefs refs ok V w" "slot_ok V w" using assms by (simp_all add: wk_inv_def)
  from resume_base [OF b(1) assms(2)] obtain V' ts n x' where
    r: "resume (exec user expiry poll i) i V w =
       Inr (V', w\<lparr>tasks := tasks w @ ts, queued := queued w @ ts, notifies := n, outside := x'\<rparr>)"
    "wk_base crefs refs ok V' (w\<lparr>tasks := tasks w @ ts, queued := queued w @ ts, notifies := n, outside := x'\<rparr>)"
    "\<And>j. j \<noteq> i \<Longrightarrow> cos V' j = cos V j" "s_coroutineId V' = s_coroutineId V" "\<And>j. live j V' = live j V" by metis
  let ?w' = "w\<lparr>tasks := tasks w @ ts, queued := queued w @ ts, notifies := n, outside := x'\<rparr>"
  have "coFunc w \<noteq> Some i" using b(2) assms(2) by (auto simp: slot_ok_def startable_def)
  then have "slot_ok V' ?w'" using b(2) r(3) [THEN cos_same] by (auto simp: slot_ok_def)
  then show ?thesis using that [of V' ?w'] r by (simp add: run_co_def wk_inv_def grows_def)
qed

text \<open>The coroutine a function runs in: the one kept from an earlier function, or a new one.\<close>

lemma func_coroutine:
  assumes "wk_base crefs refs ok V w" "slot_ok V w" "s_coroutineId V < size_mod - 1" "StackAlloc page stackSize \<noteq> 0"
  obtains i V1 where "(case coFunc w of Some i \<Rightarrow> rbind (reuse (User f) i V) (\<lambda>V. Inr (i, V))
        | None \<Rightarrow> Inr (new_Coroutine page (User f) stackSize V)) = Inr (i, V1)"
    "co_inv V1" "startable i V1" "code_of i V1 = Some (User f)" "\<And>j. j \<noteq> i \<Longrightarrow> cos V1 j = cos V j"
    "s_coroutineId V1 \<le> s_coroutineId V + 1" "i \<noteq> idleCo w" "grows V w V1 w"
proof (cases "coFunc w")
  case None
  have inv: "co_inv V" using assms(1) by (simp add: wk_base_def)
  from new_Coroutine_spec [OF inv assms(3,4), of "User f"] obtain i V1 where
    n: "new_Coroutine page (User f) stackSize V = (i, V1)" "co_inv V1" "startable i V1" "code_of i V1 = Some (User f)"
    "cos V i = None" "\<And>j. j \<noteq> i \<Longrightarrow> cos V1 j = cos V j" "s_coroutineId V1 = s_coroutineId V + 1" "s_coroutineId V < i" by metis
  then have "i \<noteq> idleCo w" using assms(1) by (auto simp: wk_base_def live_def)
  moreover have "grows V w V1 w" unfolding grows_def using n(5,6,7,8) by (auto simp: live_def, metis option.distinct(1))
  ultimately show ?thesis using that [of i V1] None n by simp
next
  case (Some i)
  have inv: "co_inv V" using assms(1) by (simp add: wk_base_def)
  have i: "live i V" "i \<noteq> idleCo w" "state_of i V = DONE \<or> state_of i V = EXCEPT" using assms(2) Some by (auto simp: slot_ok_def)
  from reuse_spec [OF inv i(1,3), of "User f"] obtain V1 where "reuse (User f) i V = Inr V1" "co_inv V1" "startable i V1"
    "code_of i V1 = Some (User f)" "\<And>j. j \<noteq> i \<Longrightarrow> cos V1 j = cos V j" "s_coroutineId V1 = s_coroutineId V" by metis
  moreover from this i(1) have "grows V w V1 w" unfolding grows_def startable_def live_def by (metis le_refl)
  ultimately show ?thesis using that [of i V1] Some i by simp
qed

lemma base_new_code:
  assumes "wk_base crefs refs ok V w" "co_inv V1" "startable i V1" "code_of i V1 = Some (User f)" "\<And>j. j \<noteq> i \<Longrightarrow> cos V1 j = cos V j"
    "i \<noteq> idleCo w" "crefs f \<subseteq> known V w"
  shows "wk_base crefs refs ok V1 w"
  unfolding wk_base_def
proof (intro conjI allI impI)
  have "j \<noteq> i \<Longrightarrow> live j V1 = live j V" for j using cos_same [OF assms(5)] by simp
  moreover have "live i V1" using assms(3) by (simp add: startable_def)
  ultimately have K: "known V w \<subseteq> known V1 w" "j \<in> known V1 w \<Longrightarrow> j = i \<or> j \<in> known V w" for j
    unfolding known_def by (auto, metis)
  show "co_inv V1" "queued w = ran w @ tasks w" "ok (outside w)" using assms(1,2) by (simp_all add: wk_base_def)
  show "live (idleCo w) V1" "state_of (idleCo w) V1 \<noteq> EXCEPT" "state_of (idleCo w) V1 \<noteq> DONE \<Longrightarrow> code_of (idleCo w) V1 = Some Idle"
    using assms(1,6) cos_same [OF assms(5), of "idleCo w"] by (simp_all add: wk_base_def)
  show "code_of j V1 \<noteq> Some Idle" if "j \<in> known V1 w" for j
    using K(2) [OF that] assms(1,4) cos_same [OF assms(5), of j] by (cases "j = i") (auto simp: wk_base_def)
  have "code_of j V = Some (User c) \<Longrightarrow> crefs c \<subseteq> known V w" for j c using assms(1) by (simp add: wk_base_def)
  then show "crefs c \<subseteq> known V1 w" if "code_of j V1 = Some (User c)" for j c
    using that K(1) assms(4,7) cos_same [OF assms(5), of j] by (cases "j = i"; fastforce)
  show "task_refs crefs (tasks w) \<subseteq> known V1 w" "refs (outside w) \<subseteq> known V1 w" using K(1) assms(1) by (auto simp: wk_base_def)
qed

lemma run_func_ok:
  assumes "wk_inv crefs refs ok V w" "crefs f \<subseteq> known V w" "s_coroutineId V < size_mod - 1" "StackAlloc page stackSize \<noteq> 0"
  obtains V' w' where "run_func (exec user expiry poll) page stackSize f V w = Inr (False, V', w')" "wk_inv crefs refs ok V' w'"
    "s_coroutineId V' \<le> s_coroutineId V + 1" "ran w' = ran w" "grows V w V' w'"
proof -
  have b: "wk_base crefs refs ok V w" "slot_ok V w" using assms(1) by (simp_all add: wk_inv_def)
  obtain i V1 where V1: "(case coFunc w of Some i \<Rightarrow> rbind (reuse (User f) i V) (\<lambda>V. Inr (i, V))
        | None \<Rightarrow> Inr (new_Coroutine page (User f) stackSize V)) = Inr (i, V1)"
    "co_inv V1" "startable i V1" "code_of i V1 = Some (User f)" "\<And>j. j \<noteq> i \<Longrightarrow> cos V1 j = cos V j"
    "s_coroutineId V1 \<le> s_coroutineId V + 1" "i \<noteq> idleCo w" "grows V w V1 w"
    by (rule func_coroutine [OF b assms(3,4), of f]) (rule that)
  have "wk_base crefs refs ok V1 w" by (rule base_new_code [OF b(1) V1(2-5,7) assms(2)])
  from resume_base [OF this V1(3)] obtain V' ts n x' where
    r: "resume (exec user expiry poll i) i V1 w =
       Inr (V', w\<lparr>tasks := tasks w @ ts, queued := queued w @ ts, notifies := n, outside := x'\<rparr>)"
    "wk_base crefs refs ok V' (w\<lparr>tasks := tasks w @ ts, queued := queued w @ ts, notifies := n, outside := x'\<rparr>)"
    "state_of i V' \<noteq> INIT" "live i V'" "co_inv V'" "s_coroutineId V' = s_coroutineId V1" "\<And>j. live j V' = live j V1" by metis
  let ?w' = "w\<lparr>tasks := tasks w @ ts, queued := queued w @ ts, notifies := n, outside := x',
      coFunc := if state_of i V' = SUSPEND then None else Some i\<rparr>"
  have "state_of i V' \<noteq> RUNNING" using co_inv_ok [OF r(5), of i] r(4) by (auto simp: live_def state_of_def co_ok_def)
  then have "slot_ok V' ?w'" using r(3,4) V1(7) by (cases "state_of i V'") (auto simp: slot_ok_def)
  moreover have "wk_base crefs refs ok V' ?w'" using r(2) by (simp add: wk_base_def known_def)
  moreover have "grows V w V' ?w'" using V1(8) r(6,7) by (simp add: grows_def)
  ultimately show ?thesis using that [of V' ?w'] V1 r by (simp add: run_func_def wk_inv_def)
qed

lemma pop_task_ok:
  assumes "wk_inv crefs refs ok V w" "pop_task w = (task, w1)"
  shows "wk_inv crefs refs ok V w1 \<and> (task \<noteq> None \<longrightarrow> task_ref crefs (the task) \<subseteq> known V w1)" "idleCo w1 = idleCo w"
    "ran w1 = ran w @ (case tasks w of [] \<Rightarrow> [] | t # ts \<Rightarrow> [t])" "task = (case tasks w of [] \<Rightarrow> None | t # ts \<Rightarrow> Some t)"
proof -
  have "pop_task w = (case tasks w of [] \<Rightarrow> None | t # ts \<Rightarrow> Some t,
      case tasks w of [] \<Rightarrow> w | t # ts \<Rightarrow> w\<lparr>tasks := ts, ran := ran w @ [t]\<rparr>)"
    by (simp add: pop_task_def split: list.split)
  with assms(2) have w1: "w1 = (case tasks w of [] \<Rightarrow> w | t # ts \<Rightarrow> w\<lparr>tasks := ts, ran := ran w @ [t]\<rparr>)"
    and t: "task = (case tasks w of [] \<Rightarrow> None | t # ts \<Rightarrow> Some t)" by simp_all
  show "task = (case tasks w of [] \<Rightarrow> None | t # ts \<Rightarrow> Some t)" by (rule t)
  show "idleCo w1 = idleCo w" "ran w1 = ran w @ (case tasks w of [] \<Rightarrow> [] | t # ts \<Rightarrow> [t])"
    by (simp_all add: w1 split: list.split)
  show "wk_inv crefs refs ok V w1 \<and> (task \<noteq> None \<longrightarrow> task_ref crefs (the task) \<subseteq> known V w1)"
    using assms(1) by (cases "tasks w") (simp_all add: w1 t wk_inv_def wk_base_def slot_ok_def known_def)
qed

lemma run_step_ok:
  assumes "wk_inv crefs refs ok V w" "s_coroutineId V < size_mod - 1" "StackAlloc page stackSize \<noteq> 0"
  obtains b V' w' where "run_step (exec user expiry poll) page stackSize V w = Inr (b, V', w')" "wk_inv crefs refs ok V' w'"
    "s_coroutineId V' \<le> s_coroutineId V + 1" "b \<Longrightarrow> state_of (idleCo w) V = DONE"
    "ran w' = ran w @ (case tasks w of [] \<Rightarrow> [] | t # ts \<Rightarrow> [t])" "grows V w V' w'"
proof -
  obtain task w1 where p: "pop_task w = (task, w1)" by force
  note w1 = pop_task_ok [OF assms(1) p]
  note inv1 = w1(1) [THEN conjunct1]
  from run_idle_ok [OF inv1] obtain bi Vi wi where idle: "run_idle (exec user expiry poll) V w1 = Inr (bi, Vi, wi)" "wk_inv crefs refs ok Vi wi"
    "bi \<longleftrightarrow> state_of (idleCo w1) V = DONE" "s_coroutineId Vi = s_coroutineId V" "ran wi = ran w1" "grows V w1 Vi wi" by metis
  have g: "grows V w1 V' w' = grows V w V' w'" for V' w' by (simp add: grows_def w1(2))
  show ?thesis
  proof (cases task)
    case None
    with that [of bi Vi wi] idle p w1 g show ?thesis by (simp add: run_step_def)
  next
    case (Some t)
    show ?thesis
    proof (cases t)
      case (Task_co i)
      then have i: "live i V" "i \<noteq> idleCo w1" using Some w1(1) by (auto simp: known_def)
      have inv: "co_inv V" using assms(1) by (simp add: wk_inv_def wk_base_def)
      show ?thesis
      proof (cases "state_of i V \<noteq> DONE \<and> state_of i V \<noteq> EXCEPT")
        case True
        then have "startable i V" using startable_iff [OF inv] i(1) by blast
        from run_co_ok [OF inv1 this i(2)] obtain V' w' where
          "run_co (exec user expiry poll) i V w1 = Inr (False, V', w')" "wk_inv crefs refs ok V' w'" "s_coroutineId V' = s_coroutineId V" "ran w' = ran w1" "grows V w1 V' w'"
          by metis
        with that [of False V' w'] True p Some Task_co w1(2-3) g show ?thesis by (simp add: run_step_def)
      next
        case False
        with that [of bi Vi wi] idle p w1(2-3) g Some Task_co show ?thesis by (auto simp: run_step_def)
      qed
    next
      case (Task_func f)
      from run_func_ok [OF inv1 _ assms(2,3), of f] w1(1) Some Task_func obtain V' w' where
        "run_func (exec user expiry poll) page stackSize f V w1 = Inr (False, V', w')" "wk_inv crefs refs ok V' w'"
        "s_coroutineId V' \<le> s_coroutineId V + 1" "ran w' = ran w1" "grows V w1 V' w'"
        by auto
      with that [of False V' w'] p Some Task_func w1(2-3) g show ?thesis by (simp add: run_step_def)
    qed
  qed
qed

text \<open>What a round does when a function is next, and when nothing is.\<close>

lemma run_step_func:
  assumes "wk_inv crefs refs ok V w" "s_coroutineId V < size_mod - 1" "StackAlloc page stackSize \<noteq> 0" "tasks w = Task_func f # rest"
  obtains i V' w' e ts x' where "run_step (exec user expiry poll) page stackSize V w = Inr (False, V', w')"
    "user i f (outside w) = ((e, ts), x')" "tasks w' = rest @ ts" "outside w' = x'" "state_of i V' = state_after e"
    "\<And>c. e = Suspends c \<Longrightarrow> code_of i V' = Some (User c)"
proof -
  obtain w1 where p: "pop_task w = (Some (Task_func f), w1)" and w1: "tasks w1 = rest" "outside w1 = outside w"
    using assms(4) by (simp add: pop_task_def)
  have "wk_inv crefs refs ok V w1" using pop_task_ok(1) [OF assms(1) p] by blast
  then have b: "wk_base crefs refs ok V w1" "slot_ok V w1" by (simp_all add: wk_inv_def)
  obtain i V1 where V1: "(case coFunc w1 of Some i \<Rightarrow> rbind (reuse (User f) i V) (\<lambda>V. Inr (i, V))
        | None \<Rightarrow> Inr (new_Coroutine page (User f) stackSize V)) = Inr (i, V1)"
    "co_inv V1" "startable i V1" "code_of i V1 = Some (User f)"
    by (rule func_coroutine [OF b assms(2,3), of f]) (rule that)
  obtain e ts x' where u: "user i f (outside w1) = ((e, ts), x')" by (metis surj_pair)
  obtain n where n: "fold (\<lambda>t. addTask (Some t)) ts (w1\<lparr>outside := x'\<rparr>) =
      w1\<lparr>tasks := tasks w1 @ ts, queued := queued w1 @ ts, notifies := n, outside := x'\<rparr>" by (rule fold_addTask_outside)
  have "exec user expiry poll i (User f) w1 = (of_user e, w1\<lparr>tasks := tasks w1 @ ts, queued := queued w1 @ ts, notifies := n, outside := x'\<rparr>)"
    using u n by simp
  from resume_spec [where user = "exec user expiry poll i", OF V1(2-4) this] obtain V' where
    "resume (exec user expiry poll i) i V1 w1 = Inr (V', w1\<lparr>tasks := tasks w1 @ ts, queued := queued w1 @ ts, notifies := n, outside := x'\<rparr>)"
    "state_of i V' = state_after (of_user e)" "code_of i V' = code_after (of_user e)"
    by metis
  moreover have "state_after (of_user e) = state_after e" by (cases e) auto
  ultimately show ?thesis using that V1(1) p w1 u by (simp add: run_step_def run_func_def)
qed

lemma run_step_idle:
  assumes "wk_inv crefs refs ok V w" "tasks w = []" "state_of (idleCo w) V \<noteq> DONE" "expiry (outside w) = (t, x1)" "t \<noteq> -1"
    "poll (as_int t) x1 = (ts, x')"
  obtains V' w' where "run_step (exec user expiry poll) page stackSize V w = Inr (False, V', w')" "tasks w' = ts" "outside w' = x'"
proof -
  let ?w = "w\<lparr>wk_idle := True\<rparr>"
  have b: "co_inv V" "live (idleCo w) V" "state_of (idleCo w) V \<noteq> EXCEPT" "code_of (idleCo w) V = Some Idle"
    using assms(1,3) by (simp_all add: wk_inv_def wk_base_def)
  then have st: "startable (idleCo w) V" using startable_iff assms(3) by blast
  obtain n where n: "fold (\<lambda>t. addTask (Some t)) ts (?w\<lparr>outside := x'\<rparr>) =
      ?w\<lparr>tasks := tasks ?w @ ts, queued := queued ?w @ ts, notifies := n, outside := x'\<rparr>" by (rule fold_addTask_outside)
  have "exec user expiry poll (idleCo w) Idle ?w =
      (Suspends Idle, ?w\<lparr>tasks := tasks ?w @ ts, queued := queued ?w @ ts, notifies := n, outside := x'\<rparr>)"
    using assms(4-6) n by (simp add: canStop_def)
  from resume_spec [where user = "exec user expiry poll (idleCo w)", OF b(1) st b(4) this] obtain V' where
    "resume (exec user expiry poll (idleCo w)) (idleCo w) V ?w =
       Inr (V', ?w\<lparr>tasks := tasks ?w @ ts, queued := queued ?w @ ts, notifies := n, outside := x'\<rparr>)" by metis
  with that assms(2,3) show ?thesis by (simp add: run_step_def pop_task_def run_idle_def)
qed

text \<open>The start of \<open>run\<close>; it also leaves the identifiers in order.\<close>

lemma start_inv:
  assumes "cos V = Map.empty" "s_coroutineId V < size_mod - 1" "StackAlloc page stackSize \<noteq> 0" "run_start page stackSize V w = (V', w')"
    "tasks w = []" "queued w = ran w" "ok (outside w)" "refs (outside w) = {}"
  shows "wk_inv crefs refs ok V' w' \<and> s_coroutineId V' = s_coroutineId V + 1 \<and> known V' w' = {} \<and> outside w' = outside w \<and>
    (\<forall>j. live j V' \<longleftrightarrow> j = s_coroutineId V + 1)"
proof -
  let ?V = "V\<lparr>cos := [0 \<mapsto> new_main]\<rparr>" and ?i = "s_coroutineId V + 1"
  have i: "co_inv ?V" "s_coroutineId ?V < size_mod - 1" using assms(2) by (simp_all add: co_inv_def)
  have n: "new_Coroutine page Idle stackSize ?V = (?i, ?V\<lparr>s_coroutineId := ?i, cos := (cos ?V)(?i \<mapsto>
      \<lparr> co_func = Some Idle, co_stack = StackAlloc page stackSize, co_state = INIT, co_context = At_entry \<rparr>)\<rparr>)" (is "_ = (_, ?W)")
    using assms(2) by (simp add: new_Coroutine_def size_add_def)
  then have V: "V' = ?W" "w' = w\<lparr>wk_running := True, idleCo := ?i, coFunc := None\<rparr>"
    using assms(1,4) by (auto simp: run_start_def InitMainCoroutine_def)
  have "co_inv ?W" using new_Coroutine_spec [OF i assms(3), of Idle] n by (metis prod.inject)
  moreover have l: "live j ?W \<longleftrightarrow> j = ?i" for j by (auto simp: live_def)
  moreover have "state_of ?i ?W = INIT" "code_of j ?W = (if j = ?i then Some Idle else None)" for j
    by (simp_all add: state_of_def code_of_def new_main_def)
  moreover have "known ?W w' = {}" using l by (auto simp: known_def V(2))
  ultimately show ?thesis using assms(5-8) by (simp add: V(1) wk_inv_def wk_base_def slot_ok_def) (simp add: V(2))
qed

lemma reach_inv:
  assumes "ok x" "refs x = {}" "StackAlloc page stackSize \<noteq> 0"
    and "wk_reach (exec user expiry poll) crefs page stackSize x V w"
  shows "wk_inv crefs refs ok V w"
  using assms(4)
proof (induction rule: wk_reach.induct)
  case (wk_init s V w)
  from start_inv [where w = "new_Worker x" and V = "\<lparr>cos = Map.empty, t_curCoroutine = None, s_coroutineId = s\<rparr>"] wk_init assms(1-3)
  show ?case by (simp add: new_Worker_def)
next
  case (wk_round V w V' w')
  from run_step_ok [OF wk_round(4,2) assms(3)] wk_round(3) show ?case by (metis Inr_inject prod.inject)
next
  case (wk_given V w t)
  then show ?case by (simp add: wk_inv_addTask)
next
  case (wk_halted V w)
  then show ?case by (simp add: wk_inv_stop)
next
  case (wk_others V w s)
  then show ?case by (simp add: wk_inv_ids)
qed

end

section \<open>Conditions for coroutines\<close>

text \<open>
  \<open>CoroutineCondition\<close> remembers one worker and one coroutine; \<open>notify\<close> says which worker gets which task.
\<close>

record co_condition =
  cc_worker :: "nat option"
  cc_co :: "nat option"

definition new_CoroutineCondition :: co_condition where
  "new_CoroutineCondition = \<lparr> cc_worker = None, cc_co = None \<rparr>"

definition cc_wait :: "nat \<Rightarrow> nat \<Rightarrow> co_condition \<Rightarrow> co_condition" where
  "cc_wait cur_worker cur_co C = C\<lparr>cc_worker := Some cur_worker, cc_co := Some cur_co\<rparr>"

definition cc_notify :: "co_condition \<Rightarrow> (nat \<times> 'c task option) res" where
  "cc_notify C =
     (case cc_worker C of None \<Rightarrow> Inl Memory_fault | Some w \<Rightarrow> Inr (w, map_option Task_co (cc_co C)))"

text \<open>
  A waiting coroutine is queued on the worker it waits on. But \<open>notify\<close> without a \<open>wait\<close> before uses a null
  pointer, and of several waiting coroutines only the last is remembered.
\<close>

lemma cc_notify_cases:
  "cc_notify (cc_wait w i C) = Inr (w, Some (Task_co i))"
  "cc_notify new_CoroutineCondition = Inl Memory_fault"
  "cc_wait w2 j (cc_wait w1 i C) = cc_wait w2 j C"
  by (simp_all add: cc_notify_def cc_wait_def new_CoroutineCondition_def)

end
