(* ===== verification/Scheduler.thy ===== *)
theory Scheduler
  imports Worker
begin

text \<open>
  \<open>src/reyao/scheduler.h\<close>, \<open>scheduler.cc\<close> and \<open>workerthread.cc\<close>: which worker a task goes to. Workers are
  numbers, 0 is \<open>mainWorker_\<close>; \<open>threads\<close> are the workers of the worker threads, \<open>workerMap\<close> maps thread
  identifiers to workers. The second part follows a producer and a worker thread in the small steps between
  \<open>Worker::addTask\<close> and \<open>epoll_wait\<close>.
\<close>

section \<open>Choosing a worker\<close>

record scheduler =
  workerMap :: "(int, nat) map"
  workers :: "nat list"
  threads :: "nat list"
  threadNum :: nat
  sch_index :: nat
  sch_running :: bool

definition new_Scheduler :: "int \<Rightarrow> int \<Rightarrow> scheduler res" where
  "new_Scheduler tid thread_num =
     (if thread_num < 1 then Inl Assert_fail
      else Inr \<lparr> workerMap = [tid \<mapsto> 0],
                 workers = (if thread_num = 1 then [0] else []),
                 threads = [],
                 threadNum = (if thread_num = 1 then 1 else nat thread_num - 1),
                 sch_index = 0, sch_running = False \<rparr>)"

text \<open>The loop of \<open>init\<close>; \<open>tids\<close> are the identifiers of the threads it starts.\<close>

fun init_loop :: "nat \<Rightarrow> int list \<Rightarrow> scheduler \<Rightarrow> scheduler" where
  "init_loop i [] S = S"
| "init_loop i (tid # tids) S =
     (if i < threadNum S
      then init_loop (i + 1) tids
             (S\<lparr>workers := workers S @ [i + 1], workerMap := (workerMap S)(tid \<mapsto> i + 1), threads := threads S @ [i + 1]\<rparr>)
      else S)"

definition sch_init :: "int list \<Rightarrow> scheduler \<Rightarrow> scheduler" where
  "sch_init tids S = (if sch_running S then S else (init_loop 0 tids S)\<lparr>sch_running := True\<rparr>)"

definition getNextWorker :: "scheduler \<Rightarrow> (nat \<times> scheduler) res" where
  "getNextWorker S =
     (if length (workers S) \<le> sch_index S then Inl Out_of_range
      else Inr (workers S ! sch_index S, S\<lparr>sch_index := (sch_index S + 1) mod threadNum S\<rparr>))"

text \<open>The worker \<open>Scheduler::addTask\<close> hands the task to, if any.\<close>

definition sch_addTask :: "int \<Rightarrow> scheduler \<Rightarrow> (nat option \<times> scheduler) res" where
  "sch_addTask t S =
     (if t \<noteq> -1 then Inr (workerMap S t, S)
      else map_res (\<lambda>(w, S). (Some w, S)) (getNextWorker S))"

text \<open>The workers \<open>stop\<close> and \<open>timerInsertAtFront\<close> act on.\<close>

definition sch_stop :: "scheduler \<Rightarrow> nat list \<times> scheduler" where
  "sch_stop S =
     (if \<not> sch_running S then ([], S)
      else (0 # (if threads S = [] then [] else workers S), S\<lparr>sch_running := False\<rparr>))"

definition timerInsertAtFront :: "(nat \<Rightarrow> bool) \<Rightarrow> scheduler \<Rightarrow> nat list" where
  "timerInsertAtFront isIdle S = filter isIdle (threads S)"

fun next_workers :: "nat \<Rightarrow> scheduler \<Rightarrow> (nat list \<times> scheduler) res" where
  "next_workers 0 S = Inr ([], S)"
| "next_workers (Suc k) S =
     rbind (sch_addTask (-1) S) (\<lambda>(w, S).
       map_res (\<lambda>(ws, S). (the w # ws, S)) (next_workers k S))"

lemma init_loop_spec:
  "i + length tids = threadNum S \<Longrightarrow>
   workers (init_loop i tids S) = workers S @ [i + 1..<threadNum S + 1] \<and>
   threads (init_loop i tids S) = threads S @ [i + 1..<threadNum S + 1] \<and>
   threadNum (init_loop i tids S) = threadNum S \<and> sch_index (init_loop i tids S) = sch_index S"
proof (induction tids arbitrary: i S)
  case (Cons tid tids)
  then have "i < threadNum S" by simp
  with Cons show ?case by (simp add: upt_conv_Cons)
qed simp

lemma next_workers_round:
  assumes "threadNum S \<le> length (workers S)" "sch_index S < threadNum S"
  shows "\<exists>S'. next_workers k S = Inr (map (\<lambda>j. workers S ! ((sch_index S + j) mod threadNum S)) [0..<k], S') \<and>
    workers S' = workers S \<and> threadNum S' = threadNum S"
  using assms
proof (induction k arbitrary: S)
  case (Suc k)
  let ?S = "S\<lparr>sch_index := (sch_index S + 1) mod threadNum S\<rparr>"
  have n: "sch_addTask (-1) S = Inr (Some (workers S ! sch_index S), ?S)"
    using Suc.prems by (simp add: sch_addTask_def getNextWorker_def)
  have "threadNum ?S \<le> length (workers ?S)" "sch_index ?S < threadNum ?S" using Suc.prems by simp_all
  from Suc.IH [OF this] obtain S' where
    S': "next_workers k ?S = Inr (map (\<lambda>j. workers S ! (((sch_index S + 1) mod threadNum S + j) mod threadNum S)) [0..<k], S')"
    "workers S' = workers S" "threadNum S' = threadNum S" by auto
  have "map (\<lambda>j. workers S ! ((sch_index S + j) mod threadNum S)) [0..<Suc k] =
      workers S ! sch_index S # map (\<lambda>j. workers S ! (((sch_index S + 1) mod threadNum S + j) mod threadNum S)) [0..<k]"
    using Suc.prems by (simp add: upt_conv_Cons map_Suc_upt [symmetric] mod_simps del: upt_Suc)
  with n S' show ?case by (simp del: upt_Suc)
qed simp

lemma round_robin_workers:
  assumes "new_Scheduler tid n = Inr S" "length tids = threadNum S"
  shows "\<exists>S'. next_workers k (sch_init tids S) =
      Inr (map (\<lambda>j. if n = 1 then 0 else 1 + j mod (nat n - 1)) [0..<k], S')
    \<and> threads (sch_init tids S) = [1..<threadNum S + 1]"
proof -
  let ?S = "sch_init tids S"
  have n: "1 \<le> n" using assms(1) by (auto simp: new_Scheduler_def split: if_splits)
  have S: "S = \<lparr> workerMap = [tid \<mapsto> 0], workers = (if n = 1 then [0] else []), threads = [],
      threadNum = (if n = 1 then 1 else nat n - 1), sch_index = 0, sch_running = False \<rparr>"
    using assms(1) n by (simp add: new_Scheduler_def)
  have i: "workers ?S = workers S @ [1..<threadNum S + 1]" "threads ?S = [1..<threadNum S + 1]"
      "threadNum ?S = threadNum S" "sch_index ?S = 0"
    using init_loop_spec [of 0 tids S] assms(2) S by (simp_all add: sch_init_def)
  have t: "0 < threadNum S" using S n by simp
  have w: "workers ?S ! (j mod threadNum S) = (if n = 1 then 0 else 1 + j mod (nat n - 1))" for j
  proof (cases "n = 1")
    case False
    have "j mod threadNum S < threadNum S" using t by simp
    then have "[1..<threadNum S + 1] ! (j mod threadNum S) = 1 + j mod threadNum S" by (subst nth_upt) simp_all
    moreover have "workers S = []" "threadNum S = nat n - 1" using S False by simp_all
    ultimately show ?thesis unfolding i(1) using False by simp
  qed (use i(1) S in \<open>simp\<close>)
  have "threadNum ?S \<le> length (workers ?S)" "sch_index ?S < threadNum ?S" using i t by simp_all
  from next_workers_round [OF this, of k] i w show ?thesis by auto
qed

text \<open>
  Tasks without a chosen thread go to the workers in turn. With \<open>n\<close> \<open>\<ge>\<close> 2 threads the \<open>k\<close>-th task (from
  0) of a started scheduler goes to worker \<open>1 + k mod (n - 1)\<close>, so the main worker gets none and any
  \<open>n - 1\<close> successive tasks reach every other worker once. With \<open>n = 1\<close> every task goes to the main worker,
  although \<open>init\<close> has started one more worker thread, which never gets one.
\<close>

theorem scheduler_round_robin:
  assumes "new_Scheduler tid n = Inr S" "length tids = threadNum S"
  shows "\<exists>S'. next_workers k (sch_init tids S) =
      Inr (map (\<lambda>j. if n = 1 then 0 else 1 + j mod (nat n - 1)) [0..<k], S')
    \<and> threads (sch_init tids S) = [1..<threadNum S + 1]"
  by (rule round_robin_workers [OF assms])

theorem scheduler_round_robin_witness:
  "\<exists>S S'. new_Scheduler 7 3 = Inr S \<and> next_workers 5 (sch_init [8, 9] S) = Inr ([1, 2, 1, 2, 1], S')"
proof -
  obtain S where S: "new_Scheduler 7 3 = Inr S" "length [8, 9 :: int] = threadNum S" by (simp add: new_Scheduler_def)
  from scheduler_round_robin [OF S, of 5] S(1) show ?thesis by (auto simp: upt_conv_Cons)
qed

section \<open>Waking a worker\<close>

text \<open>
  Where the worker thread is: about to look into the queue, having found it empty, with \<open>idle_\<close> set, past
  \<open>canStop\<close>, and inside \<open>epoll_wait\<close> with \<open>polling_\<close> set. \<open>calls\<close> are the producers that have left the
  critical section of \<open>addTask\<close> with \<open>needNotify\<close> and not yet called \<open>notify\<close>. Inside \<open>epoll_wait\<close> the worker
  goes on when the eventfd was written, or when the timeout has passed.
\<close>

datatype wk_phase = Popping | Found_empty | Idle_set | Checked | Polling

record 'c race =
  phase :: wk_phase
  rw :: "('c, unit) worker"
  rE :: "'c epoller"
  calls :: nat

definition woken :: "'c race \<Rightarrow> 'c race" where
  "woken R = R\<lparr>phase := Popping, rE := (rE R)\<lparr>polling := False, wakeups := 0\<rparr>, rw := (rw R)\<lparr>wk_idle := False\<rparr>\<rparr>"

inductive race_step :: "'c race \<Rightarrow> 'c race \<Rightarrow> bool" where
  pop_some: "phase R = Popping \<Longrightarrow> tasks (rw R) = t # ts \<Longrightarrow> race_step R (R\<lparr>rw := snd (pop_task (rw R))\<rparr>)"
| pop_none: "phase R = Popping \<Longrightarrow> tasks (rw R) = [] \<Longrightarrow> race_step R (R\<lparr>phase := Found_empty\<rparr>)"
| set_idle: "phase R = Found_empty \<Longrightarrow> race_step R (R\<lparr>phase := Idle_set, rw := (rw R)\<lparr>wk_idle := True\<rparr>\<rparr>)"
| check: "phase R = Idle_set \<Longrightarrow> \<not> canStop 0 (rw R) \<Longrightarrow> race_step R (R\<lparr>phase := Checked\<rparr>)"
| set_polling: "phase R = Checked \<Longrightarrow> race_step R (R\<lparr>phase := Polling, rE := (rE R)\<lparr>polling := True\<rparr>\<rparr>)"
| awake: "phase R = Polling \<Longrightarrow> 0 < wakeups (rE R) \<Longrightarrow> race_step R (woken R)"
| timed_out: "phase R = Polling \<Longrightarrow> race_step R (woken R)"
| push: "addTaskNoLock (Some t) (rw R) = (need, w) \<Longrightarrow> race_step R (R\<lparr>rw := w, calls := (if need then calls R + 1 else calls R)\<rparr>)"
| call_notify: "0 < calls R \<Longrightarrow> race_step R (R\<lparr>rE := ep_notify (rE R), calls := calls R - 1\<rparr>)"

definition race_init :: "'c race" where
  "race_init = \<lparr> phase = Popping, rw = (new_Worker ())\<lparr>wk_running := True\<rparr>, rE = new_Epoller (\<lambda>_. False), calls = 0 \<rparr>"

definition stuck :: "'c race \<Rightarrow> bool" where
  "stuck R \<longleftrightarrow> phase R = Polling \<and> tasks (rw R) \<noteq> [] \<and> wakeups (rE R) = 0 \<and> calls R = 0"

definition pushed :: "'c race \<Rightarrow> 'c race \<Rightarrow> bool" where
  "pushed R R' \<longleftrightarrow> (\<exists>t need w. addTaskNoLock (Some t) (rw R) = (need, w) \<and>
     R' = R\<lparr>rw := w, calls := (if need then calls R + 1 else calls R)\<rparr>)"

lemma stuck_step:
  assumes "race_step R R'" "stuck R"
  shows "pushed R R' \<or> R' = woken R"
  using assms(1)
proof cases
  case (push t need w)
  then show ?thesis unfolding pushed_def by blast
qed (use assms(2) in \<open>simp_all add: stuck_def\<close>)

text \<open>The invariant that holds while nobody pushes before \<open>polling_\<close> is set.\<close>

definition race_sync :: "'c race \<Rightarrow> bool" where
  "race_sync R \<longleftrightarrow> (phase R = Polling \<longleftrightarrow> polling (rE R)) \<and>
     (phase R = Polling \<longrightarrow> wk_idle (rw R) \<and> (tasks (rw R) \<noteq> [] \<longrightarrow> 0 < wakeups (rE R) + calls R))"

lemma race_sync_push:
  "race_sync R \<Longrightarrow> phase R = Polling \<Longrightarrow> addTaskNoLock (Some t) (rw R) = (need, w) \<Longrightarrow>
   race_sync (R\<lparr>rw := w, calls := (if need then calls R + 1 else calls R)\<rparr>)"
  by (auto simp: race_sync_def addTaskNoLock_def)

lemma race_sync_notify: "race_sync R \<Longrightarrow> race_sync (R\<lparr>rE := ep_notify (rE R), calls := calls R - 1\<rparr>)"
  by (auto simp: race_sync_def ep_notify_def)


end
