(* ===== verification/Tcp_Server.thy ===== *)
theory Tcp_Server
  imports Socket Scheduler
begin

text \<open>
  \<open>src/reyao/tcp_server.h\<close>, \<open>tcp_server.cc\<close>, \<open>tcp_client.h\<close> and \<open>tcp_client.cc\<close>: the accept loop that hands every new
  connection to the next worker, and the client that connects from the main worker. The script of the loop
  gives, for every call of \<open>accept\<close>, the outcomes of the original call and of the waits; at its end the loop is
  suspended in \<open>accept\<close>.
\<close>

section \<open>Server\<close>

definition s_maxRecvTimeout :: int where "s_maxRecvTimeout = 30 * 1000"

record tcp_server =
  ts_sche :: scheduler
  ts_running :: bool
  ts_listen :: "sock option"
  ts_recvTimeout :: int

definition new_TcpServer :: "scheduler \<Rightarrow> tcp_server" where
  "new_TcpServer sche = \<lparr> ts_sche = sche, ts_running = False, ts_listen = None, ts_recvTimeout = s_maxRecvTimeout \<rparr>"

definition ts_setRecvTimeout :: "int \<Rightarrow> tcp_server \<Rightarrow> tcp_server" where
  "ts_setRecvTimeout timeout T = T\<lparr>ts_recvTimeout := timeout\<rparr>"

text \<open>\<open>start\<close> gives \<open>listenAndAccpet\<close> to the main worker, unless it did before; the result says whether.\<close>

definition ts_start :: "tcp_server \<Rightarrow> bool \<times> tcp_server" where
  "ts_start T = (if ts_running T then (False, T) else (True, T\<lparr>ts_running := True\<rparr>))"

text \<open>
  The loop returns, for each client in order, the worker that gets its \<open>handleClient\<close>.
\<close>

fun ts_accept ::
    "(attempt list \<times> wait_outcome list) list \<Rightarrow> sock \<Rightarrow> tcp_server \<Rightarrow> 'f os \<Rightarrow>
     ((nat option \<times> sock) list \<times> tcp_server \<times> 'f os) res" where
  "ts_accept [] l T X = Inr ([], T, X)"
| "ts_accept ((as, ws) # script) l T X =
     (if \<not> ts_running T then Inr ([], T, X)
      else
        rbind (sk_accept as ws l X) (\<lambda>(client, X).
          case client of
            None \<Rightarrow> Inr ([], T, X)
          | Some None \<Rightarrow> ts_accept script l T X
          | Some (Some c) \<Rightarrow>
              rbind (setRecvTimeout (ts_recvTimeout T) c X) (\<lambda>X.
              rbind (sch_addTask (-1) (ts_sche T)) (\<lambda>(w, S).
                map_res (\<lambda>(ds, T, X). ((w, c) # ds, T, X)) (ts_accept script l (T\<lparr>ts_sche := S\<rparr>) X)))))"

text \<open>Errors of \<open>bind\<close> and \<open>listen\<close> are logged, and the loop is entered all the same.\<close>

definition listenAndAccpet ::
    "int \<Rightarrow> bool \<Rightarrow> bool \<Rightarrow> (attempt list \<times> wait_outcome list) list \<Rightarrow> tcp_server \<Rightarrow> 'f os \<Rightarrow>
     ((nat option \<times> sock) list \<times> tcp_server \<times> 'f os) res" where
  "listenAndAccpet fd bound listening script T X =
     rbind (sk_bind fd bound CreateTcp X) (\<lambda>(_, l, X).
       let l = snd (sk_listen listening l) in ts_accept script l (T\<lparr>ts_listen := Some l\<rparr>) X)"

text \<open>The destructor closes the listening socket, which is a null pointer before \<open>listenAndAccpet\<close> has run.\<close>

definition delete_TcpServer :: "tcp_server \<Rightarrow> 'f os \<Rightarrow> (tcp_server \<times> 'f os) res" where
  "delete_TcpServer T X =
     (case ts_listen T of
        None \<Rightarrow> Inl Memory_fault
      | Some l \<Rightarrow> map_res (\<lambda>(_, l, X). (T\<lparr>ts_running := False, ts_listen := Some l\<rparr>, X)) (sk_close l X))"

section \<open>Client\<close>

definition s_ConnectMaxTimeOut :: int where "s_ConnectMaxTimeOut = 10 * 1000"

text \<open>
  The task \<open>start\<close> gives to the main worker; the result says whether the callback is called. \<open>stop\<close> uses the
  connection the task creates, so it is a null pointer before the task has run.
\<close>

definition tc_start ::
    "int \<Rightarrow> attempt \<Rightarrow> wait_outcome option \<Rightarrow> attempt \<Rightarrow> 'f os \<Rightarrow> (bool option \<times> sock option \<times> 'f os) res" where
  "tc_start fd first w so_error X =
     map_res (\<lambda>(ok, conn, X). (ok, Some conn, X)) (sk_connect fd s_ConnectMaxTimeOut first w so_error CreateTcp X)"

definition tc_stop :: "sock option \<Rightarrow> 'f os \<Rightarrow> (sock option \<times> 'f os) res" where
  "tc_stop conn X =
     (case conn of
        None \<Rightarrow> Inl Memory_fault
      | Some c \<Rightarrow> if isConnected c then map_res (\<lambda>(_, c, X). (Some c, X)) (sk_close c X) else Inr (Some c, X))"

section \<open>New descriptors\<close>

definition addable :: "hook_state \<Rightarrow> int \<Rightarrow> bool" where
  "addable H fd \<longleftrightarrow> 0 \<le> fd \<and> (2 \<le> fd \<or> nat fd < length (fdcontexts H)) \<and> k_sock H (nat fd)"

definition fresh_ctx :: fd_ctx where
  "fresh_ctx = \<lparr> isSock = True, isSysNonblock = True, isUserNonblock = False, fd_close = False, recvTimeout = -1, sendTimeout = -1 \<rparr>"

lemma new_FdContext_sock:
  "k_sock H fd \<Longrightarrow> \<exists>H'. new_FdContext fd H = (fresh_ctx, H') \<and> fdcontexts H' = fdcontexts H \<and> k_sock H' = k_sock H \<and>
     t_hookEnable H' = t_hookEnable H"
  by (auto simp: new_FdContext_def Let_def setfl_origin_def fresh_ctx_def)

lemma addFd_spec:
  assumes "addable H fd"
  shows "\<exists>H'. addFd (nat fd) H = Inr H' \<and> t_hookEnable H' = t_hookEnable H \<and> k_sock H' = k_sock H \<and>
    length (fdcontexts H) \<le> length (fdcontexts H') \<and> (\<forall>gd. ctx_at gd H' = (if gd = fd then Some fresh_ctx else ctx_at gd H))"
proof -
  define tab where "tab = (if length (fdcontexts H) \<le> nat fd
      then take (nat fd * 3 div 2) (fdcontexts H) @ replicate (nat fd * 3 div 2 - length (fdcontexts H)) None else fdcontexts H)"
  obtain H1 where H1: "new_FdContext (nat fd) H = (fresh_ctx, H1)" "fdcontexts H1 = fdcontexts H" "k_sock H1 = k_sock H"
    "t_hookEnable H1 = t_hookEnable H" using new_FdContext_sock [of H "nat fd"] assms by (auto simp: addable_def)
  have len: "nat fd < length tab" "length (fdcontexts H) \<le> length tab" using assms by (auto simp: tab_def addable_def)
  have at: "i < length (fdcontexts H) \<Longrightarrow> tab ! i = fdcontexts H ! i" "length (fdcontexts H) \<le> i \<Longrightarrow> i < length tab \<Longrightarrow> tab ! i = None" for i
    using assms by (auto simp: tab_def addable_def nth_append split: if_splits)
  have "addFd (nat fd) H = Inr (H1\<lparr>fdcontexts := tab[nat fd := Some fresh_ctx]\<rparr>)"
    using len(1) H1(1) by (simp add: addFd_def tab_def [symmetric] Let_def)
  moreover have "ctx_at gd (H1\<lparr>fdcontexts := tab[nat fd := Some fresh_ctx]\<rparr>) = (if gd = fd then Some fresh_ctx else ctx_at gd H)" for gd
  proof (cases "0 \<le> gd \<and> gd \<noteq> fd")
    case False
    have fd: "0 \<le> fd" "fd < int (length tab)" using len(1) assms by (simp_all add: addable_def)
    show ?thesis
    proof (cases "gd = fd")
      case True
      with fd show ?thesis by (simp add: ctx_at_def)
    next
      case False
      with \<open>\<not> (0 \<le> gd \<and> gd \<noteq> fd)\<close> show ?thesis by (simp add: ctx_at_neg)
    qed
  next
    case True
    then obtain n where n: "gd = int n" using nonneg_int_cases by blast
    moreover have "n \<noteq> nat fd" using True n assms by (auto simp: addable_def)
    ultimately show ?thesis
      using True len(2) at(1) [of n] at(2) [of n] by (cases "n < length (fdcontexts H)") (auto simp: ctx_at_def)
  qed
  ultimately show ?thesis using H1 len by auto
qed

section \<open>Dispatching connections\<close>

definition listens :: "sock \<Rightarrow> hook_state \<Rightarrow> bool" where
  "listens l H \<longleftrightarrow> t_hookEnable H \<and>
     (\<exists>c. ctx_at (sockfd l) H = Some c \<and> isSock c \<and> \<not> isUserNonblock c \<and> \<not> fd_close c)"

lemma listens_accept:
  assumes "listens l H"
  shows "0 \<le> sockfd l" "hook_accept (sockfd l) as ws H =
    (case io_loop EPOLLIN (getTimeout SO_RCVTIMEO (the (ctx_at (sockfd l) H))) as ws of
       Some (Ret fd, tr) \<Rightarrow>
         if fd \<ge> 0 then map_res (\<lambda>H. (Some (Ret fd, tr), H)) (addFd (nat fd) H) else Inr (Some (Ret fd, tr), H)
     | r \<Rightarrow> Inr (r, H))"
proof -
  obtain c where c: "ctx_at (sockfd l) H = Some c" "isSock c" "\<not> isUserNonblock c" "\<not> fd_close c" "t_hookEnable H"
    using assms by (auto simp: listens_def)
  show fd: "0 \<le> sockfd l" using c(1) ctx_at_neg [of "sockfd l" H] by (cases "sockfd l < 0") auto
  show "hook_accept (sockfd l) as ws H =
    (case io_loop EPOLLIN (getTimeout SO_RCVTIMEO (the (ctx_at (sockfd l) H))) as ws of
       Some (Ret fd, tr) \<Rightarrow>
         if fd \<ge> 0 then map_res (\<lambda>H. (Some (Ret fd, tr), H)) (addFd (nat fd) H) else Inr (Some (Ret fd, tr), H)
     | r \<Rightarrow> Inr (r, H))"
    using c fd by (simp add: hook_accept_def do_io_def getFdContext_ctx split: option.split prod.split attempt.split)
qed

lemma accept_fails: "listens l (os_hook X) \<Longrightarrow> e \<noteq> EINTR \<Longrightarrow> e \<noteq> EAGAIN \<Longrightarrow> sk_accept [Fails e] [] l X = Inr (Some None, X)"
  by (simp add: sk_accept_def listens_accept)

text \<open>The given descriptors have new contexts with a receive timeout, all others are unchanged.\<close>

definition served :: "int \<Rightarrow> int list \<Rightarrow> hook_state \<Rightarrow> hook_state \<Rightarrow> bool" where
  "served t fds H H' \<longleftrightarrow>
     (\<forall>fd. ctx_at fd H' = (if fd \<in> set fds then Some (fresh_ctx\<lparr>recvTimeout := t\<rparr>) else ctx_at fd H))"

lemma served_Cons: "served t fds H1 H2 \<Longrightarrow> served t [fd] H H1 \<Longrightarrow> served t (fd # fds) H H2"
  by (simp add: served_def)

text \<open>One connection: its context is new, and only its own timeout is set.\<close>

lemma accept_client:
  assumes "listens l (os_hook X)" "addable (os_hook X) fd" "fd \<noteq> sockfd l"
  shows "\<exists>c X1 X'. sk_accept [Ret fd] [] l X = Inr (Some (Some c), X1) \<and> sockfd c = fd \<and> isConnected c \<and>
    setRecvTimeout t c X1 = Inr X' \<and> listens l (os_hook X') \<and>
    (\<forall>gd. addable (os_hook X) gd \<longrightarrow> addable (os_hook X') gd) \<and>
    served t [fd] (os_hook X) (os_hook X')"
proof -
  let ?H = "os_hook X"
  obtain H1 where H1: "addFd (nat fd) ?H = Inr H1" "t_hookEnable H1 = t_hookEnable ?H" "k_sock H1 = k_sock ?H"
      "length (fdcontexts ?H) \<le> length (fdcontexts H1)" "\<And>gd. ctx_at gd H1 = (if gd = fd then Some fresh_ctx else ctx_at gd ?H)"
    using addFd_spec [OF assms(2)] by metis
  have fd: "0 \<le> fd" using assms(2) by (simp add: addable_def)
  have h: "hook_accept (sockfd l) [Ret fd] [] ?H = Inr (Some (Ret fd, [Call]), H1)"
    using H1(1) fd by (simp add: listens_accept [OF assms(1)])
  let ?X = "X\<lparr>os_hook := H1\<rparr>"
  let ?n = "(new_Socket (sk_type l) (sk_family l) (sk_protocol l))\<lparr>sockfd := fd, sk_state := CONNECTED\<rparr>"
  define c where "c = snd (getPeerAddr ?X (snd (getLocalAddr ?X ?n)))"
  define X1 where "X1 = setNoDelay c (setReuseAddr c ?X)"
  have c: "sockfd c = fd" "isConnected c"
    by (auto simp: c_def getPeerAddr_def getLocalAddr_def isConnected_def split: option.split)
  have X1: "os_hook X1 = H1" by (simp add: X1_def setNoDelay_def setReuseAddr_def)
  have "sk_init fd (new_Socket (sk_type l) (sk_family l) (sk_protocol l)) ?X = Inr (True, c, X1)"
    using fd H1(5) [of fd] by (simp add: sk_init_def getFdContext_ctx fresh_ctx_def Let_def c_def X1_def)
  then have a: "sk_accept [Ret fd] [] l X = Inr (Some (Some c), X1)" using h fd by (simp add: sk_accept_def)
  have en: "t_hookEnable H1" using assms(1) H1(2) by (simp add: listens_def)
  define H2 where "H2 = set_ctx (nat fd) (fresh_ctx\<lparr>recvTimeout := t\<rparr>) H1"
  have s: "setRecvTimeout t c X1 = Inr (X1\<lparr>os_hook := H2\<rparr>)"
    using fd en H1(5) [of fd] c(1) X1
    by (simp add: setRecvTimeout_def set_timeout_def setsockopt_timeo_def getFdContext_ctx timeval_roundtrip setTimeout_def H2_def)
  have at: "ctx_at gd H2 = (if gd = fd then Some (fresh_ctx\<lparr>recvTimeout := t\<rparr>) else ctx_at gd ?H)" for gd
    using ctx_at_set_ctx [OF fd, of H1 fresh_ctx gd "fresh_ctx\<lparr>recvTimeout := t\<rparr>"] H1(5) fd ctx_at_neg
    by (cases "0 \<le> gd") (auto simp: H2_def)
  have "listens l H2" using assms(1,3) at en by (auto simp: listens_def H2_def set_ctx_def)
  moreover have "addable ?H gd \<longrightarrow> addable H2 gd" for gd
    using H1(3,4) by (auto simp: addable_def H2_def set_ctx_def)
  ultimately show ?thesis using a c s at by (intro exI [of _ c] exI [of _ X1] exI [of _ "X1\<lparr>os_hook := H2\<rparr>"]) (simp add: served_def)
qed

fun accepted :: "attempt list \<Rightarrow> int list" where
  "accepted [] = []"
| "accepted (Ret fd # outs) = fd # accepted outs"
| "accepted (Fails e # outs) = accepted outs"

definition plausible :: "sock \<Rightarrow> hook_state \<Rightarrow> attempt \<Rightarrow> bool" where
  "plausible l H a \<longleftrightarrow>
     (case a of Ret fd \<Rightarrow> addable H fd \<and> fd \<noteq> sockfd l | Fails e \<Rightarrow> e \<noteq> EINTR \<and> e \<noteq> EAGAIN)"

lemma ts_accept_dispatch:
  assumes "ts_running T" "listens l (os_hook X)" "list_all (plausible l (os_hook X)) outs"
    "next_workers (length (accepted outs)) (ts_sche T) = Inr (wl, S')"
  shows "\<exists>ds T' X'. ts_accept (map (\<lambda>a. ([a], [])) outs) l T X = Inr (ds, T', X') \<and>
    map fst ds = map Some wl \<and> map (sockfd \<circ> snd) ds = accepted outs \<and> list_all (isConnected \<circ> snd) ds \<and>
    served (ts_recvTimeout T) (accepted outs) (os_hook X) (os_hook X')"
  using assms
proof (induction outs arbitrary: T X wl)
  case Nil
  then show ?case by (simp add: served_def)
next
  case (Cons a outs)
  show ?case
  proof (cases a)
    case (Fails e)
    with Cons.prems have "sk_accept [a] [] l X = Inr (Some None, X)" by (simp add: accept_fails plausible_def)
    with Cons.IH [of T X wl] Cons.prems Fails show ?thesis by simp
  next
    case (Ret fd)
    with Cons.prems(3) have p: "addable (os_hook X) fd" "fd \<noteq> sockfd l" by (simp_all add: plausible_def)
    from accept_client [OF Cons.prems(2) this, of "ts_recvTimeout T"] obtain c X1 X2 where
      c: "sk_accept [Ret fd] [] l X = Inr (Some (Some c), X1)" "sockfd c = fd" "isConnected c"
        "setRecvTimeout (ts_recvTimeout T) c X1 = Inr X2" "listens l (os_hook X2)"
        "\<And>gd. addable (os_hook X) gd \<Longrightarrow> addable (os_hook X2) gd"
        "served (ts_recvTimeout T) [fd] (os_hook X) (os_hook X2)" by blast
    from Cons.prems(4) Ret obtain w S1 wl' where
      w: "sch_addTask (-1) (ts_sche T) = Inr (w, S1)" "next_workers (length (accepted outs)) S1 = Inr (wl', S')" "wl = the w # wl'"
      by (auto simp: rbind_Inr_iff map_res_Inr_iff)
    have w0: "w = Some (the w)" using w(1) by (auto simp: sch_addTask_def map_res_Inr_iff)
    have pl: "list_all (plausible l (os_hook X2)) outs"
      using Cons.prems(3) c(6) by (auto simp: list_all_iff plausible_def split: attempt.splits)
    have "ts_running (T\<lparr>ts_sche := S1\<rparr>)" "next_workers (length (accepted outs)) (ts_sche (T\<lparr>ts_sche := S1\<rparr>)) = Inr (wl', S')"
      using Cons.prems(1) w(2) by simp_all
    from Cons.IH [OF this(1) c(5) pl this(2)] obtain ds T' X' where
      d: "ts_accept (map (\<lambda>a. ([a], [])) outs) l (T\<lparr>ts_sche := S1\<rparr>) X2 = Inr (ds, T', X')" "map fst ds = map Some wl'"
        "map (sockfd \<circ> snd) ds = accepted outs" "list_all (isConnected \<circ> snd) ds"
        "served (ts_recvTimeout (T\<lparr>ts_sche := S1\<rparr>)) (accepted outs) (os_hook X2) (os_hook X')" by blast
    have r: "ts_accept (map (\<lambda>a. ([a], [])) (a # outs)) l T X = Inr ((w, c) # ds, T', X')"
      using Cons.prems(1) Ret c(1,4) w(1) d(1) by simp
    have "served (ts_recvTimeout T) (accepted (a # outs)) (os_hook X) (os_hook X')"
      using served_Cons [OF d(5)] c(7) Ret by simp
    moreover have "map fst ((w, c) # ds) = map Some wl" using d(2) w(3) w0 by simp
    moreover have "map (sockfd \<circ> snd) ((w, c) # ds) = accepted (a # outs)" using d(3) c(2) Ret by simp
    moreover have "list_all (isConnected \<circ> snd) ((w, c) # ds)" using d(4) c(3) by simp
    ultimately show ?thesis using r by blast
  qed
qed



text \<open>
  \<open>TcpClient::stop\<close> before the task of \<open>start\<close> has run, and destroying a server that never listened,
  dereference a null pointer.
\<close>

lemma tcp_null_pointers:
  "tc_stop None X = Inl Memory_fault" "delete_TcpServer (new_TcpServer S) X = Inl Memory_fault"
  by (simp_all add: tc_stop_def delete_TcpServer_def new_TcpServer_def)

end
