(* ===== verification/Example_Server.thy ===== *)
theory Example_Server
  imports Http_Server Util Tcp_Server
begin

text \<open>
  \<open>src/cmd/http_server.cc\<close>: the program that serves one page with the library, and what its clients see of it. The
  file system, the thread identifiers and the bytes of uninitialised memory are arguments.
\<close>

section \<open>The program\<close>

definition page_path :: string where
  "page_path = ''/home/crash/server-cfg/readme.html''"

text \<open>The callback that is registered twice, for the path and for the pattern.\<close>

definition page_servlet :: "file_system \<Rightarrow> servlet" where
  "page_servlet fs req rsp =
     (let rsp = rs_addHeader ''Server'' ''Reyao'' rsp;
          rsp = rs_addHeader ''Content-Type'' ''text/html'' rsp
      in (0, rsp\<lparr>rs_body := ReadFile fs page_path\<rparr>))"

definition main_dispatch :: "file_system \<Rightarrow> servlet_dispatch res" where
  "main_dispatch fs =
     addGlobalServlet_func ''/'' (page_servlet fs) (addServlet_func ''/'' (page_servlet fs) new_ServletDispatch)"

text \<open>\<open>atoi\<close>: no digits give 0; a number outside \<open>int\<close>, for which C defines no result, stays an error.\<close>

definition atoi :: "string \<Rightarrow> int res" where
  "atoi s = (case stoi s of Inl Invalid_argument \<Rightarrow> Inr 0 | r \<Rightarrow> r)"

text \<open>\<open>main\<close> up to \<open>wait\<close>, without the log level it sets; \<open>None\<close> is the exit with the message about the usage.\<close>

definition http_server_main ::
    "int \<Rightarrow> sockaddr_in \<Rightarrow> int \<Rightarrow> int list \<Rightarrow> file_system \<Rightarrow> string list \<Rightarrow>
     (sockaddr_in \<times> tcp_server \<times> servlet_dispatch) option res" where
  "http_server_main bo junk tid tids fs argv =
     (if length argv < 3 then Inr None
      else
        rbind (atoi (argv ! 1)) (\<lambda>num.
        rbind (atoi (argv ! 2)) (\<lambda>port.
        rbind (new_Scheduler tid num) (\<lambda>sh.
          let sh = sch_init tids sh;
              addr = CreateAddress bo junk ''0.0.0.0'' (word_of_int port) in
          rbind (main_dispatch fs) (\<lambda>dispatch.
            Inr (Some (addr, snd (ts_start (new_TcpServer sh)), dispatch)))))))"

lemma main_dispatch_ok:
  "main_dispatch fs = Inr (new_ServletDispatch\<lparr>
     servlets := [''/'' \<mapsto> Some (FunctionServlet_handle (page_servlet fs))],
     globals := [(''/'', Some (FunctionServlet_handle (page_servlet fs)))]\<rparr>)"
  by (simp add: main_dispatch_def addGlobalServlet_func_def addServlet_func_def addGlobalServlet_def
      erase_loop.simps new_ServletDispatch_def)

lemma atoi_dec: "n < 2147483648 \<Longrightarrow> atoi (dec n) = Inr (int n)"
  by (simp add: atoi_def stoi_dec)

text \<open>With numbers in range for the threads and the port the server is running and listens on that port.\<close>

lemma main_starts:
  assumes "1 \<le> n" "n < 2147483648" "port < 65536"
  shows "\<exists>a T d. http_server_main bo junk tid tids fs [prog, dec n, dec port] = Inr (Some (a, T, d)) \<and>
    main_dispatch fs = Inr d \<and> ts_running T \<and> unat (getPort bo a) = port"
proof -
  have "unat (getPort bo (CreateAddress bo junk ''0.0.0.0'' (word_of_nat port))) = port"
    using assms(3) by (simp add: getPort_def CreateAddress_def IPv4Address_def Let_def byteSwapOnLittleEndian_def
        byteSwap_byteSwap unat_of_nat split: option.split)
  with assms main_dispatch_ok [of fs] show ?thesis
    by (simp add: http_server_main_def atoi_dec new_Scheduler_def ts_start_def new_TcpServer_def Let_def)
qed

section \<open>What clients see\<close>

text \<open>A client that parses the bytes with \<open>HttpResponseParser\<close>, however they are cut into reads, gets this status and body.\<close>

definition understood :: "byte list \<Rightarrow> HttpStatus \<Rightarrow> string \<Rightarrow> bool" where
  "understood out status body \<longleftrightarrow>
     (\<forall>segs evs. concat segs = out \<longrightarrow> pieces_ok s_maxResBufferSize segs \<longrightarrow> stream_end evs \<longrightarrow>
        (\<exists>s. returned (parseResponse True (map Recv_bytes segs @ evs) (new_http_parser (new_HttpResponse 17 False))) =
             Some (Inr (True, s)) \<and> rs_status (msg s) = status \<and> rs_body (msg s) = body))"

lemma response_understood:
  assumes "response_ok r" "length (rs_dump r) < 1946156000"
  shows "understood (rs_dump r) (rs_status r) (rs_body r)"
  unfolding understood_def
proof (intro allI impI)
  fix segs evs
  assume "concat segs = rs_dump r" "pieces_ok s_maxResBufferSize segs" "stream_end evs"
  then have "returned (parseResponse True (map Recv_bytes segs @ evs) (new_http_parser (new_HttpResponse 17 False))) =
      parse_outcome (evs \<noteq> []) (rs_run (new_parse_st (new_HttpResponse 17 False)) (rs_dump r))"
    unfolding parseResponse_def using rsp.parse_pieces assms(2) by (simp add: s_maxResBufferSize_def)
  also note response_run [OF assms(1)]
  finally show "\<exists>s. returned (parseResponse True (map Recv_bytes segs @ evs) (new_http_parser (new_HttpResponse 17 False))) =
      Some (Inr (True, s)) \<and> rs_status (msg s) = rs_status r \<and> rs_body (msg s) = rs_body r"
    by (simp add: parse_outcome_def new_parse_st_def rs_received_fields)
qed

lemma dec_length: "n < 10 ^ k \<Longrightarrow> 0 < k \<Longrightarrow> length (dec n) \<le> k"
proof (induction n arbitrary: k rule: dec.induct)
  case (1 n)
  show ?case
  proof (cases "n < 10")
    case False
    with 1(2) have k: "k \<noteq> 1" by auto
    with 1(2,3) have "n div 10 < 10 ^ (k - 1)" by (cases k) (auto simp: less_mult_imp_div_less mult.commute)
    with 1(1) [OF False, of "k - 1"] k 1(3) False show ?thesis by (subst dec.simps) auto
  qed (use 1(3) in \<open>subst dec.simps, simp\<close>)
qed

text \<open>The two responses the program's table can make: the page and the default servlet's.\<close>

definition page_response :: "nat \<Rightarrow> bool \<Rightarrow> HttpStatus \<Rightarrow> string \<Rightarrow> HttpResponse" where
  "page_response version keepAlive status body =
     (rs_addHeader ''Content-Type'' ''text/html'' (rs_addHeader ''Server'' ''Reyao''
        ((new_HttpResponse version keepAlive)\<lparr>rs_status := status\<rparr>)))\<lparr>rs_body := body\<rparr>"

lemma page_response_understood:
  assumes "version = 16 \<or> version = 17" "length body < 1946150000"
  shows "understood (rs_dump (page_response version keepAlive status body)) status body"
proof -
  let ?r = "page_response version keepAlive status body"
  have h: "strmap_assign ''Content-Type'' ''text/html'' (strmap_assign ''Server'' ''Reyao'' []) =
      [(''Content-Type'', ''text/html''), (''Server'', ''Reyao'')]" by code_simp
  have f: "rs_headers ?r = [(''Content-Type'', ''text/html''), (''Server'', ''Reyao'')]" "rs_body ?r = body" "rs_reason ?r = []"
    "rs_status ?r = status" "rs_version ?r = version" "rs_keepAlive ?r = keepAlive"
    using h by (simp_all add: page_response_def rs_addHeader_def new_HttpResponse_def)
  have "plain_field ''Content-Type'' ''text/html''" "plain_field ''Server'' ''Reyao''"
    "strmap_inv [(''Content-Type'', ''text/html''), (''Server'', ''Reyao'')]" by code_simp+
  with assms f have "response_ok ?r" by (simp add: response_ok_def)
  moreover have "length (rs_dump ?r) < 1946156000"
  proof -
    have "length (dec (length body)) \<le> 10" using assms(2) by (intro dec_length) simp_all
    moreover have "length (dec (version div 16)) \<le> 1" "length (dec (version mod 16)) \<le> 1"
      using assms(1) by (auto intro!: dec_length)
    moreover have "length (dec (status_code status)) \<le> 3"
      by (intro dec_length) (cases status; simp add: status_code_def)+
    moreover have "length (HttpStatusToString status) \<le> 100" by (cases status) (simp_all add: HttpStatusToString_def)
    moreover have "strcasecmp ''Content-Type'' ''connection'' \<noteq> 0" "strcasecmp ''Server'' ''connection'' \<noteq> 0" by code_simp+
    ultimately show ?thesis using assms(2) by (simp add: rs_dump_def rs_first_line_def f kCRLF_def)
  qed
  ultimately show ?thesis using response_understood [of ?r] f by simp
qed

lemma main_answer:
  assumes "main_dispatch fs = Inr d" "\<And>s. fnmatch ''/'' s = 0 \<longleftrightarrow> s = ''/''"
  shows "answer fnmatch d True req =
    (if c_str (rq_path req) = ''/''
     then page_response (rq_version req) (rq_keepAlive req) OK (ReadFile fs page_path)
     else page_response (rq_version req) (rq_keepAlive req) NOT_FOUND (NoFoundServlet_content ''Reyao''))"
proof -
  have d: "d = new_ServletDispatch\<lparr>servlets := [''/'' \<mapsto> Some (FunctionServlet_handle (page_servlet fs))],
      globals := [(''/'', Some (FunctionServlet_handle (page_servlet fs)))]\<rparr>"
    using assms(1) main_dispatch_ok [of fs] by simp
  have c: "c_str ''/'' = ''/''" by (simp add: c_str_def)
  show ?thesis
    by (simp add: answer_def ServletDispatch_handle_def getMatchServlet_def d c assms(2) page_response_def page_servlet_def
        FunctionServlet_handle_def NoFoundServlet_handle_def new_ServletDispatch_def new_HttpResponse_def rs_addHeader_def Let_def)
qed



end
