(* ===== verification/Rpc_Codec.thy ===== *)
theory Rpc_Codec
  imports Socket_Stream C_Text
begin

text \<open>
  \<open>src/reyao/rpc/codec.h\<close>, \<open>codec.cc\<close>, \<open>rpc_server.cc\<close> and the exchange of \<open>rpc_client.h\<close>:
  protobuf messages framed by a length and a type name. The protobuf library is the record
  \<open>'m protobuf\<close> of functions on messages: type name, serialisation, the prototype of a type name
  (\<open>None\<close> for an unknown type) and \<open>ParseFromArray\<close>, which fills a message and reports success.
  \<open>proto_ok\<close> is what the code relies on: the prototype of a message's type parses the message's
  serialisation to that message.

  On the wire: \<open>len\<close> (32 bit, network order), \<open>nameLen\<close> (32 bit), the name with a final NUL, payload;
  \<open>len\<close> counts what follows it.
\<close>

record 'm protobuf =
  GetTypeName :: "'m \<Rightarrow> string"
  Serialize :: "'m \<Rightarrow> byte list"
  Prototype :: "string \<Rightarrow> 'm option"
  ParseFromArray :: "'m \<Rightarrow> byte list \<Rightarrow> 'm \<times> bool"

definition proto_ok :: "'m protobuf \<Rightarrow> 'm \<Rightarrow> bool" where
  "proto_ok P m \<longleftrightarrow> GetTypeName P m \<noteq> [] \<and> CHR 0x00 \<notin> set (GetTypeName P m) \<and>
     (case Prototype P (GetTypeName P m) of
        None \<Rightarrow> False | Some x \<Rightarrow> ParseFromArray P x (Serialize P m) = (m, True))"

datatype ErrorCode =
  kNoError | kInvalidLength | kInvalidNameLength | kUnknownMessageType | kParseError | kServerClosed

definition kHeaderLen :: int where
  "kHeaderLen = 4"

definition kMinMessageLen :: int where
  "kMinMessageLen = kHeaderLen + 2"

definition kMaxMessageLen :: int where
  "kMaxMessageLen = 64 * 1024 * 1024"

text \<open>An \<open>int32_t\<close> from its bit pattern.\<close>

definition i32 :: "32 word \<Rightarrow> int" where
  "i32 w = int_of_size (unat w)"

definition serializeToByteArray :: "int \<Rightarrow> 'm protobuf \<Rightarrow> 'm \<Rightarrow> bytearray \<Rightarrow> bytearray res" where
  "serializeToByteArray bo P msg b =
     (let typeName = GetTypeName P msg;
          nameLen = word_of_nat (length typeName + 1) :: 32 word in
      rbind (writeInt32 bo nameLen b) (\<lambda>b.
      rbind (ba_write typeName b) (\<lambda>b.
      rbind (ba_write [CHR 0x00] b) (\<lambda>b.
      let byteSize = int_of_size (length (Serialize P msg)) in
      rbind (getWriteArea (size_of_int byteSize) b) (\<lambda>b.
      rbind (mem_write (writePos b) (Serialize P msg) (buf b)) (\<lambda>v.
      let b = setWritePos (size_add (writePos b) (size_of_int byteSize)) (b\<lparr>buf := v\<rparr>) in
      if getReadSize b \<noteq> size_add (size_add 4 (size_of_int (i32 nameLen))) (size_of_int byteSize)
      then Inl Assert_fail
      else let len = byteSwapOnLittleEndian bo (word_of_nat (getReadSize b) :: 32 word) in
           writePrepend (to_mem bo len) b))))))"

text \<open>\<open>sent\<close> is the return value of the socket's \<open>send\<close>; the result is what was handed to it.\<close>

definition codec_send :: "int \<Rightarrow> 'm protobuf \<Rightarrow> bool \<Rightarrow> int \<Rightarrow> 'm \<Rightarrow> byte list res" where
  "codec_send bo P connected sent msg =
     rbind (serializeToByteArray bo P msg (ByteArray kInitSize)) (\<lambda>b.
     rbind (ss_write_all connected sent b) (\<lambda>(_, bytes, _). Inr bytes))"

definition codec_Parse :: "int \<Rightarrow> 'm protobuf \<Rightarrow> bytearray \<Rightarrow> int \<Rightarrow> (ErrorCode \<times> 'm option) res" where
  "codec_Parse bo P b len =
     rbind (readInt32 bo b) (\<lambda>(w, b).
     let nameLen = i32 w in
     if nameLen < 2 \<or> nameLen > len - kHeaderLen then Inr (kInvalidNameLength, None)
     else
       rbind (peek (size_of_int (nameLen - 1)) b) (\<lambda>name.
       let b = setReadPos (size_add (readPos b) (size_of_int (nameLen - 1))) b in
       rbind (readInt8 bo b) (\<lambda>(c, b).
       if c \<noteq> 0 then Inr (kParseError, None)
       else case Prototype P name of
           None \<Rightarrow> Inr (kUnknownMessageType, None)
         | Some msg \<Rightarrow>
             rbind (peek (size_of_int (len - kHeaderLen - nameLen)) b) (\<lambda>payload.
             let (msg, ok) = ParseFromArray P msg payload in
             if \<not> ok then Inr (kParseError, Some msg) else Inr (kNoError, Some msg)))))"

text \<open>
  \<open>receive\<close> over the outcomes of the successive reads; with none left the call blocks. The
  header is taken off the buffer before it is known whether the whole message has arrived.
\<close>

fun receive_loop ::
    "int \<Rightarrow> 'm protobuf \<Rightarrow> bool \<Rightarrow> recv_event list \<Rightarrow> bytearray \<Rightarrow> (ErrorCode \<times> 'm option) res option" where
  "receive_loop bo P connected [] b = (if connected then None else Some (Inr (kServerClosed, None)))"
| "receive_loop bo P connected (ev # evs) b =
     (case ss_read_ba connected ev 4096 b of
        Inl e \<Rightarrow> Some (Inl e)
      | Inr (rt, b) \<Rightarrow>
          if \<not> rt > 0 then Some (Inr (kServerClosed, None))
          else if getReadSize b > size_of_int (kHeaderLen + kMinMessageLen)
          then case readInt32 bo b of
              Inl e \<Rightarrow> Some (Inl e)
            | Inr (w, b) \<Rightarrow>
                let len = i32 w in
                if len > kMaxMessageLen \<or> len < kMinMessageLen then Some (Inr (kInvalidLength, None))
                else if size_of_int len \<le> getReadSize b then Some (codec_Parse bo P b len)
                else receive_loop bo P connected evs b
          else receive_loop bo P connected evs b)"

definition codec_receive :: "int \<Rightarrow> 'm protobuf \<Rightarrow> bool \<Rightarrow> recv_event list \<Rightarrow> (ErrorCode \<times> 'm option) res option" where
  "codec_receive bo P connected evs = receive_loop bo P connected evs (ByteArray kInitSize)"

text \<open>
  \<open>RpcServer\<close>: the handlers are keyed by the message descriptor, for which the type name stands.
  The result of \<open>handleClient\<close> is what it hands to \<open>send\<close>, if anything; it then closes the socket.
\<close>

definition registerRpcHandler :: "string \<Rightarrow> ('m \<Rightarrow> 'm) \<Rightarrow> (string, 'm \<Rightarrow> 'm) map \<Rightarrow> (string, 'm \<Rightarrow> 'm) map" where
  "registerRpcHandler descriptor handler handlers = handlers(descriptor \<mapsto> handler)"

definition rpc_handleClient ::
    "int \<Rightarrow> 'm protobuf \<Rightarrow> (string, 'm \<Rightarrow> 'm) map \<Rightarrow> recv_event list \<Rightarrow> byte list option res option" where
  "rpc_handleClient bo P handlers evs =
     (case codec_receive bo P True evs of
        None \<Rightarrow> None
      | Some (Inl e) \<Rightarrow> Some (Inl e)
      | Some (Inr (errcode, m)) \<Rightarrow>
          (case m of
             None \<Rightarrow> Some (Inr None)
           | Some msg \<Rightarrow>
               if errcode \<noteq> kNoError then Some (Inr None)
               else case handlers (GetTypeName P msg) of
                   None \<Rightarrow> Some (Inr None)
                 | Some h \<Rightarrow> Some (rbind (codec_send bo P True 0 (h msg)) (\<lambda>bytes. Inr (Some bytes)))))"

text \<open>\<open>RpcClient::Call\<close> after the connection is up: what is sent, and the message given to the handler.\<close>

definition rpc_Call :: "int \<Rightarrow> 'm protobuf \<Rightarrow> 'm \<Rightarrow> recv_event list \<Rightarrow> (byte list \<times> 'm option) res option" where
  "rpc_Call bo P req evs =
     (case codec_send bo P True 0 req of
        Inl e \<Rightarrow> Some (Inl e)
      | Inr bytes \<Rightarrow>
          (case codec_receive bo P True evs of
             None \<Rightarrow> None
           | Some (Inl e) \<Rightarrow> Some (Inl e)
           | Some (Inr (errcode, rsp)) \<Rightarrow>
               Some (Inr (bytes, if errcode = kNoError then rsp else None))))"

section \<open>Framing\<close>

definition body_len :: "'m protobuf \<Rightarrow> 'm \<Rightarrow> nat" where
  "body_len P m = 4 + (length (GetTypeName P m) + 1) + length (Serialize P m)"

definition rpc_body :: "'m protobuf \<Rightarrow> 'm \<Rightarrow> byte list" where
  "rpc_body P m = be_bytes (word_of_nat (length (GetTypeName P m) + 1) :: 32 word) @ GetTypeName P m @ [CHR 0x00] @ Serialize P m"

definition rpc_wire :: "'m protobuf \<Rightarrow> 'm \<Rightarrow> byte list" where
  "rpc_wire P m = be_bytes (word_of_nat (body_len P m) :: 32 word) @ rpc_body P m"

lemma length_rpc_body: "length (rpc_body P m) = body_len P m"
  by (simp add: rpc_body_def body_len_def)

lemma length_rpc_wire: "length (rpc_wire P m) = 4 + body_len P m"
  by (simp add: rpc_wire_def length_rpc_body)

lemma i32_of_nat: "n < 2147483648 \<Longrightarrow> i32 (word_of_nat n) = int n"
  by (simp add: i32_def unat_of_nat size_simps)

lemma serialize_spec:
  assumes "length (Serialize P m) + length (GetTypeName P m) < 2147480000"
  shows "\<exists>b. serializeToByteArray LITTLE_ENDIAN P m (ByteArray kInitSize) = Inr b \<and> ba_wf b \<and> ba_content b = rpc_wire P m"
proof -
  let ?name = "GetTypeName P m" and ?pay = "Serialize P m" and ?bo = LITTLE_ENDIAN
  let ?nl = "word_of_nat (length ?name + 1) :: 32 word"
  have host: "host_order ?bo" by (simp add: host_order_def)
  have b0: "ba_inv (ByteArray kInitSize)" "ba_content (ByteArray kInitSize) = []" "endian (ByteArray kInitSize) = BIG_ENDIAN"
      "ba_room (4 + (length ?name + (1 + length ?pay))) (ByteArray kInitSize)"
    using assms by (simp_all add: ByteArray_inv ba_consts)
  from int32.wr_spec [OF b0(1,4), of ?bo ?nl] obtain b1 where b1: "writeInt32 ?bo ?nl (ByteArray kInitSize) = Inr b1"
      "ba_inv b1" "ba_room (length ?name + (1 + length ?pay)) b1" "endian b1 = BIG_ENDIAN" "ba_content b1 = be_bytes ?nl"
    using b0 host by (auto simp: word_enc_wire)
  from baq.put_spec [OF b1(2) baq.room_less [OF b1(3)]] obtain b2 where b2: "ba_write ?name b1 = Inr b2" "ba_inv b2"
      "ba_content b2 = be_bytes ?nl @ ?name" by (auto simp: b1(5))
  have r2: "ba_room (1 + length ?pay) b2" by (rule baq.put_room [OF b1(2) b1(3) b2(1)])
  from baq.put_spec [OF b2(2), of "[CHR 0x00]"] baq.room_less [OF r2] obtain b3 where b3: "ba_write [CHR 0x00] b2 = Inr b3"
      "ba_inv b3" "ba_content b3 = be_bytes ?nl @ ?name @ [CHR 0x00]" by (auto simp: b2(3))
  have r3: "ba_room (length ?pay) b3" using baq.put_room [OF b2(2) _ b3(1), of "length ?pay"] r2 by simp
  from write_area_spec [OF b3(2) r3 order_refl] obtain c v where c: "getWriteArea (length ?pay) b3 = Inr c"
      "mem_write (writePos c) ?pay (buf c) = Inr v" "size_add (writePos c) (length ?pay) = writePos c + length ?pay"
      "ba_inv (c\<lparr>buf := v, writePos := writePos c + length ?pay\<rparr>)"
      "ba_content (c\<lparr>buf := v, writePos := writePos c + length ?pay\<rparr>) = rpc_body P m"
    by (auto simp: b3(3) rpc_body_def)
  let ?c = "c\<lparr>buf := v, writePos := writePos c + length ?pay\<rparr>"
  have rs: "getReadSize ?c = body_len P m" using c(4,5) ba_wf_sizes(3) [of ?c] by (simp add: length_rpc_body)
  have small: "size_of_int (int_of_size (length ?pay)) = length ?pay"
      "size_add (size_add 4 (size_of_int (i32 ?nl))) (length ?pay) = body_len P m"
    using assms i32_of_nat [of "length ?name + 1"] by (simp_all add: size_simps body_len_def)
  have "length (to_mem ?bo (byteSwapOnLittleEndian ?bo (word_of_nat (body_len P m) :: 32 word))) \<le> readPos ?c"
    using c(4) by (simp add: ba_inv_def ba_consts)
  from writePrepend_content [OF _ this] c(4,5) obtain b' where b': "writePrepend (to_mem ?bo (byteSwapOnLittleEndian ?bo
      (word_of_nat (body_len P m) :: 32 word))) ?c = Inr b'" "ba_wf b'" "ba_content b' = rpc_wire P m"
    by (auto simp: rpc_wire_def byteSwapOnLittleEndian_swaps [OF host] to_mem_LITTLE_byteSwap)
  have "serializeToByteArray ?bo P m (ByteArray kInitSize) = Inr b'"
    using b1(1) b2(1) b3(1) c(1-3) rs small b'(1) by (simp add: serializeToByteArray_def Let_def setWritePos_def)
  with b' show ?thesis by blast
qed

lemma codec_send_wire:
  assumes "length (Serialize P m) + length (GetTypeName P m) < 2147480000"
  shows "codec_send LITTLE_ENDIAN P True 0 m = Inr (rpc_wire P m)"
proof -
  from serialize_spec [OF assms] obtain b where b: "serializeToByteArray LITTLE_ENDIAN P m (ByteArray kInitSize) = Inr b"
    "ba_wf b" "ba_content b = rpc_wire P m" by blast
  with ss_write_ba_spec [OF b(2), of 0 "getReadSize b"] ba_wf_sizes(3) [OF b(2)] show ?thesis
    by (auto simp: codec_send_def ss_write_all_def)
qed

section \<open>Receiving\<close>

lemma readInt32_be:
  assumes "ba_inv b" "endian b = BIG_ENDIAN" "ba_content b = be_bytes (w :: 32 word) @ rest"
  shows "\<exists>b'. readInt32 LITTLE_ENDIAN b = Inr (w, b') \<and> ba_inv b' \<and> endian b' = BIG_ENDIAN \<and> ba_content b' = rest"
  using int32.rd_spec [OF assms(1), of LITTLE_ENDIAN w rest] assms(2,3)
  by (simp add: word_enc_wire host_order_def)

lemma codec_Parse_body:
  assumes "proto_ok P m" "ba_inv b" "endian b = BIG_ENDIAN" "ba_content b = rpc_body P m @ rest" "body_len P m < 2147483648"
  shows "codec_Parse LITTLE_ENDIAN P b (int (body_len P m)) = Inr (kNoError, Some m)"
proof -
  let ?name = "GetTypeName P m" and ?pay = "Serialize P m"
  let ?nl = "word_of_nat (length ?name + 1) :: 32 word"
  obtain x where x: "Prototype P ?name = Some x" "ParseFromArray P x ?pay = (m, True)" "?name \<noteq> []"
    using assms(1) by (auto simp: proto_ok_def split: option.splits)
  from readInt32_be [OF assms(2,3), of ?nl "?name @ [CHR 0x00] @ ?pay @ rest"] assms(4) obtain b1 where
    b1: "readInt32 LITTLE_ENDIAN b = Inr (?nl, b1)" "ba_inv b1" "ba_content b1 = ?name @ [CHR 0x00] @ ?pay @ rest"
    by (auto simp: rpc_body_def)
  have nl: "i32 ?nl = int (length ?name) + 1" using assms(5) i32_of_nat [of "length ?name + 1"] by (simp add: body_len_def)
  have "length ?name \<le> length (ba_content b1)" by (simp add: b1(3))
  note adv = ba_advance [OF b1(2) this]
  let ?b2 = "b1\<lparr>readPos := readPos b1 + length ?name\<rparr>"
  have "ba_content ?b2 = to_mem LITTLE_ENDIAN (0 :: 8 word) @ ?pay @ rest"
    using adv(2) b1(3) by (simp add: to_mem_def char_of_def)
  from int8.rd_spec [OF adv(1) this] obtain b3 where
    b3: "readInt8 LITTLE_ENDIAN ?b2 = Inr (0, b3)" "ba_inv b3" "ba_content b3 = ?pay @ rest" by blast
  have "length ?pay \<le> length (ba_content b3)" by (simp add: b3(3))
  note pk = ba_advance(4) [OF b3(2) this]
  have sz: "size_of_int (int (length ?name)) = length ?name" "size_of_int (int (length ?pay)) = length ?pay"
    using assms(5) by (simp_all add: size_simps body_len_def)
  show ?thesis
    using b1(1) nl adv(3,4) b1(3) b3(1,3) pk x sz
    by (simp add: codec_Parse_def setReadPos_def kHeaderLen_def body_len_def Suc_le_eq)
qed

definition rpc_size_ok :: "'m protobuf \<Rightarrow> 'm \<Rightarrow> bool" where
  "rpc_size_ok P m \<longleftrightarrow> 6 < body_len P m \<and> int (body_len P m) \<le> kMaxMessageLen"

lemma receive_read:
  assumes "ba_inv b" "endian b = BIG_ENDIAN" "length (buf b) < 1000000000" "length bs \<le> 4096" "bs \<noteq> []"
  shows "\<exists>b'. ss_read_ba True (Recv_bytes bs) 4096 b = Inr (int (length bs), b') \<and> ba_inv b' \<and> endian b' = BIG_ENDIAN \<and>
    ba_content b' = ba_content b @ bs \<and> getReadSize b' = length (ba_content b @ bs) \<and>
    length (buf b') \<le> length (buf b) + length (ba_content b) + 8200"
proof -
  have "ba_room 4096 b" using assms(3) by (simp add: ba_room_def ba_consts)
  from ss_read_ba_spec [OF assms(1) this assms(4)] assms(2) obtain b' where
    "ss_read_ba True (Recv_bytes bs) 4096 b = Inr (int (length bs), b')" "ba_inv b'" "endian b' = BIG_ENDIAN"
    "ba_content b' = ba_content b @ bs" "length (buf b') \<le> max (length (buf b)) (length (ba_content b) + 2 * 4096 + 8)" by auto
  moreover from this have "getReadSize b' = length (ba_content b @ bs)" using ba_wf_sizes(3) [of b'] by simp
  ultimately show ?thesis by auto
qed

lemma fresh_ba: "ba_inv (ByteArray kInitSize)" "endian (ByteArray kInitSize) = BIG_ENDIAN"
    "ba_content (ByteArray kInitSize) = []" "length (buf (ByteArray kInitSize)) = 1032"
  by (simp_all add: ByteArray_inv ba_consts) (simp add: ByteArray_def ba_consts size_simps)

lemma header_threshold: "size_of_int (kHeaderLen + kMinMessageLen) = 10"
  by (simp add: kHeaderLen_def kMinMessageLen_def size_simps)

lemma receive_whole:
  assumes "proto_ok P m" "rpc_size_ok P m" "length (rpc_wire P m @ rest) \<le> 4096"
  shows "codec_receive LITTLE_ENDIAN P True (Recv_bytes (rpc_wire P m @ rest) # evs) = Some (Inr (kNoError, Some m))"
proof -
  let ?bs = "rpc_wire P m @ rest" and ?L = "word_of_nat (body_len P m) :: 32 word"
  have L: "i32 ?L = int (body_len P m)" "body_len P m < 2147483648"
    using assms(3) i32_of_nat [of "body_len P m"] by (simp_all add: length_rpc_wire)
  have "length ?bs \<noteq> 0" by (simp add: length_rpc_wire)
  then have "?bs \<noteq> []" by force
  from receive_read [OF fresh_ba(1,2) _ assms(3) this] obtain b where
    b: "ss_read_ba True (Recv_bytes ?bs) 4096 (ByteArray kInitSize) = Inr (int (length ?bs), b)" "ba_inv b"
      "endian b = BIG_ENDIAN" "ba_content b = ?bs" "getReadSize b = length ?bs"
    by (auto simp: fresh_ba)
  from readInt32_be [OF b(2,3), of ?L "rpc_body P m @ rest"] b(4) obtain b1 where
    b1: "readInt32 LITTLE_ENDIAN b = Inr (?L, b1)" "ba_inv b1" "endian b1 = BIG_ENDIAN" "ba_content b1 = rpc_body P m @ rest"
    by (auto simp: rpc_wire_def)
  have "getReadSize b1 = body_len P m + length rest" using ba_wf_sizes(3) [of b1] b1 by (simp add: length_rpc_body)
  moreover have "size_of_int (int (body_len P m)) = body_len P m" using L(2) by (simp add: size_simps)
  ultimately show ?thesis
    using b(1,5) b1(1) L assms(2) codec_Parse_body [OF assms(1) b1(2-4) L(2)]
    by (simp add: codec_receive_def header_threshold length_rpc_wire rpc_size_ok_def Let_def)
      (simp add: kMinMessageLen_def kHeaderLen_def)
qed


text \<open>A protobuf library for witnesses: messages of one type are byte strings, serialised as they are.\<close>

definition bytes_proto :: "byte list protobuf" where
  "bytes_proto = \<lparr> GetTypeName = (\<lambda>_. ''bytes''), Serialize = (\<lambda>m. m),
     Prototype = (\<lambda>n. if n = ''bytes'' then Some [] else None), ParseFromArray = (\<lambda>_ bs. (bs, True)) \<rparr>"

lemma bytes_proto_ok: "proto_ok bytes_proto m" "body_len bytes_proto m = 10 + length m"
    "GetTypeName bytes_proto m = ''bytes''" "Serialize bytes_proto m = m"
  by (simp_all add: proto_ok_def bytes_proto_def body_len_def)


section \<open>Frames that do not arrive whole\<close>

lemma readInt32_any:
  assumes "ba_inv b" "endian b = BIG_ENDIAN" "ba_content b = c1 # c2 # c3 # c4 # rest" "of_char c1 \<noteq> (0 :: nat)"
  shows "\<exists>w b'. readInt32 LITTLE_ENDIAN b = Inr (w, b') \<and> (i32 w < 0 \<or> i32 w \<ge> 16777216)"
proof -
  let ?bs = "[c4, c3, c2, c1]" and ?w = "word_of_nat (of_le [c4, c3, c2, c1]) :: 32 word"
  have u: "unat ?w = of_le ?bs" by (rule unat_of_le) simp_all
  have "length ?bs = 4" by simp
  then have "le_bytes 4 (of_le ?bs) = ?bs" using le_bytes_of_le [of ?bs] by (simp only:)
  then have "be_bytes ?w = [c1, c2, c3, c4]" unfolding be_bytes_def u by simp
  with readInt32_be [OF assms(1,2), of ?w rest] assms(3) obtain b' where "readInt32 LITTLE_ENDIAN b = Inr (?w, b')"
    by auto
  moreover have ge: "16777216 \<le> of_le ?bs" using assms(4) by simp
  have "i32 ?w < 0 \<or> i32 ?w \<ge> 16777216"
  proof (cases "of_le ?bs < 2147483648")
    case True
    then have "i32 ?w = int (of_le ?bs)" unfolding i32_def u by (rule int_of_size_small)
    with ge show ?thesis by simp
  next
    case False
    have "of_le ?bs < 4294967296" using of_le_less [of ?bs] by simp
    moreover define n where "n = of_le ?bs"
    ultimately have n: "2147483648 \<le> n" "n < 4294967296" using False by simp_all
    then have "(int n + 2147483648) mod 4294967296 = int n + 2147483648 - 4294967296"
      by (intro int_mod_pos_eq) auto
    moreover have "i32 ?w = int_of_size n" by (simp only: i32_def u n_def)
    ultimately have "i32 ?w = int n - 4294967296" by (simp add: int_of_size_def)
    with n show ?thesis by simp
  qed
  ultimately show ?thesis by blast
qed

lemma parse_misaligned:
  assumes "ba_inv b" "endian b = BIG_ENDIAN" "ba_content b = name @ rest" "4 \<le> length name" "CHR 0x00 \<notin> set name" "len \<le> 16777216"
  shows "codec_Parse LITTLE_ENDIAN P b len = Inr (kInvalidNameLength, None)"
proof -
  from assms(4) obtain c1 c2 c3 c4 ns where n: "name = c1 # c2 # c3 # c4 # ns"
    by (auto simp: numeral_eq_Suc Suc_le_length_iff)
  have "c1 \<noteq> CHR 0x00" using assms(5) n by auto
  then have "of_char c1 \<noteq> (of_char (CHR 0x00) :: nat)" by (simp only: of_char_eq_iff not_False_eq_True)
  then have "of_char c1 \<noteq> (0 :: nat)" by simp
  from readInt32_any [OF assms(1,2) _ this, of c2 c3 c4 "ns @ rest"] assms(3) n
  obtain w b' where w: "readInt32 LITTLE_ENDIAN b = Inr (w, b')" "i32 w < 0 \<or> i32 w \<ge> 16777216" by auto
  from w(2) assms(6) have "i32 w < 2 \<or> i32 w > len - kHeaderLen" by (auto simp: kHeaderLen_def)
  with w(1) show ?thesis by (simp add: codec_Parse_def Let_def)
qed

text \<open>After the header was taken: the rest of the frame is read as if it were a new one.\<close>

lemma receive_after_header:
  assumes "proto_ok P m" "length (GetTypeName P m) < 16777000" "ba_inv b" "endian b = BIG_ENDIAN"
    and "ba_content b @ bs = rpc_body P m" "length (buf b) < 1000000000" "length bs \<le> 4096" "bs \<noteq> []"
  shows "\<exists>e. receive_loop LITTLE_ENDIAN P True [Recv_bytes bs, Recv_bytes []] b = Some (Inr (e, None)) \<and> e \<noteq> kNoError"
proof -
  let ?name = "GetTypeName P m" and ?nl = "word_of_nat (length (GetTypeName P m) + 1) :: 32 word"
  let ?pay = "[CHR 0x00] @ Serialize P m"
  have len: "length (ba_content b) + length bs = body_len P m"
    using arg_cong [OF assms(5), of length] by (simp add: length_rpc_body)
  from receive_read [OF assms(3,4,6,7,8)] obtain b1 where b1:
    "ss_read_ba True (Recv_bytes bs) 4096 b = Inr (int (length bs), b1)" "ba_inv b1" "endian b1 = BIG_ENDIAN"
    "ba_content b1 = rpc_body P m" "getReadSize b1 = body_len P m"
    "length (buf b1) \<le> length (buf b) + length (ba_content b) + 8200"
    by (auto simp: assms(5) length_rpc_body)
  have lb: "length (ba_content b) \<le> length (buf b)"
    using ba_wf_sizes(1,3) [of b] assms(3) by (auto simp: ba_inv_def ba_wf_def)
  from readInt32_be [OF b1(2,3), of ?nl "?name @ ?pay"] b1(4) obtain b2 where b2:
    "readInt32 LITTLE_ENDIAN b1 = Inr (?nl, b2)" "ba_inv b2" "endian b2 = BIG_ENDIAN" "ba_content b2 = ?name @ ?pay"
    by (auto simp: rpc_body_def)
  have nl: "i32 ?nl = int (length ?name + 1)" using assms(2) by (intro i32_of_nat) simp
  have fit: "size_of_int (int (length ?name + 1)) \<le> getReadSize b2"
    using ba_wf_sizes(3) [of b2] b2(2,4) assms(2) by (simp add: size_simps)
  have "ba_room 4096 b1" using b1(6) lb assms(6) by (simp add: ba_room_def ba_consts)
  from ss_read_ba_spec [OF b1(2) this, of "[]"] obtain b3 where b3: "ss_read_ba True (Recv_bytes []) 4096 b1 = Inr (0, b3)" by auto
  show ?thesis
  proof (cases "10 < body_len P m")
    case False
    with b1(1,5) b3 assms(8) show ?thesis by (simp add: header_threshold)
  next
    case True
    show ?thesis
    proof (cases "length ?name + 1 < 6")
      case small: True
      with True b1(1,5) b2(1) nl assms(8) show ?thesis
        by (simp add: header_threshold Let_def) (simp add: kMinMessageLen_def kHeaderLen_def)
    next
      case False
      have "codec_Parse LITTLE_ENDIAN P b2 (int (length ?name + 1)) = Inr (kInvalidNameLength, None)"
        using False assms(1,2) by (intro parse_misaligned [OF b2(2,3,4)]) (auto simp: proto_ok_def)
      with True b1(1,5) b2(1) nl fit False assms(2,8) show ?thesis
        by (simp add: header_threshold Let_def)
    qed
  qed
qed

text \<open>
  A frame that arrives in two reads, the first with more than ten bytes, is never
  received: \<open>receive\<close> takes the length off the buffer before it knows that the message is complete,
  and when the rest arrives it reads the name length as the length. Every frame of more than 4096
  bytes is of this kind, because a read asks for 4096 bytes at most.
\<close>

theorem rpc_fragmented_frame_lost:
  assumes "proto_ok P m" "rpc_size_ok P m" "length (GetTypeName P m) < 16777000"
    and "p1 @ p2 = rpc_wire P m" "10 < length p1" "length p1 \<le> 4096" "p2 \<noteq> []" "length p2 \<le> 4096"
  shows "\<exists>e. codec_receive LITTLE_ENDIAN P True [Recv_bytes p1, Recv_bytes p2, Recv_bytes []] = Some (Inr (e, None)) \<and>
    e \<noteq> kNoError"
proof -
  let ?L = "word_of_nat (body_len P m) :: 32 word"
  have len: "length p1 + length p2 = 4 + body_len P m"
    using arg_cong [OF assms(4), of length] by (simp add: length_rpc_wire)
  have L: "i32 ?L = int (body_len P m)" "body_len P m < 2147483648"
    using assms(2) i32_of_nat [of "body_len P m"] by (simp_all add: rpc_size_ok_def kMaxMessageLen_def)
  have "p1 \<noteq> []" using assms(5) by auto
  from receive_read [OF fresh_ba(1,2) _ assms(6) this] obtain b where b:
    "ss_read_ba True (Recv_bytes p1) 4096 (ByteArray kInitSize) = Inr (int (length p1), b)" "ba_inv b" "endian b = BIG_ENDIAN"
    "ba_content b = p1" "getReadSize b = length p1" "length (buf b) \<le> 9232"
    by (auto simp: fresh_ba)
  obtain q where q: "p1 = be_bytes ?L @ q" "q @ p2 = rpc_body P m"
  proof
    show "p1 = be_bytes ?L @ drop 4 p1"
      using arg_cong [OF assms(4), of "take 4"] assms(5) append_take_drop_id [of 4 p1] by (simp add: rpc_wire_def)
    show "drop 4 p1 @ p2 = rpc_body P m"
      using arg_cong [OF assms(4), of "drop 4"] assms(5) by (simp add: rpc_wire_def)
  qed
  from readInt32_be [OF b(2,3), of ?L q] b(4) q(1) obtain b1 where b1:
    "readInt32 LITTLE_ENDIAN b = Inr (?L, b1)" "ba_inv b1" "endian b1 = BIG_ENDIAN" "ba_content b1 = q" by auto
  have "length (buf b1) = length (buf b)"
    using b1(1) by (auto simp: readInt32_def ba_read_def rbind_Inr_iff Let_def split: if_splits)
  with receive_after_header [OF assms(1,3) b1(2,3) _ _ assms(8,7)] q(2) b(6) b1(4)
  obtain e where e: "receive_loop LITTLE_ENDIAN P True [Recv_bytes p2, Recv_bytes []] b1 = Some (Inr (e, None))" "e \<noteq> kNoError"
    by auto
  have "getReadSize b1 < body_len P m"
    using ba_wf_sizes(3) [of b1] b1(2,4) len assms(5,7) q(1) by (cases p2) auto
  then have "\<not> size_of_int (int (body_len P m)) \<le> getReadSize b1" using L(2) by (simp add: size_simps)
  then have "codec_receive LITTLE_ENDIAN P True [Recv_bytes p1, Recv_bytes p2, Recv_bytes []] =
      receive_loop LITTLE_ENDIAN P True [Recv_bytes p2, Recv_bytes []] b1"
    using b(1,5) b1(1) L assms(2,5) \<open>p1 \<noteq> []\<close>
    by (simp add: codec_receive_def header_threshold rpc_size_ok_def Let_def del: receive_loop.simps(1))
      (simp add: kMinMessageLen_def kHeaderLen_def)
  with e show ?thesis by auto
qed

theorem rpc_fragmented_frame_lost_witness:
  "\<exists>e. codec_receive LITTLE_ENDIAN bytes_proto True
      [Recv_bytes (take 12 (rpc_wire bytes_proto ''ping'')), Recv_bytes (drop 12 (rpc_wire bytes_proto ''ping'')), Recv_bytes []] =
      Some (Inr (e, None)) \<and> e \<noteq> kNoError"
proof -
  have "drop 12 (rpc_wire bytes_proto ''ping'') \<noteq> []" by (simp add: length_rpc_wire bytes_proto_ok)
  then show ?thesis
    by (intro rpc_fragmented_frame_lost [where P = bytes_proto and m = "''ping''"])
      (simp_all add: bytes_proto_ok length_rpc_wire rpc_size_ok_def kMaxMessageLen_def)
qed

text \<open>
  The smallest frame the length check admits (one-letter type name, no payload) is not
  processed when it arrives: the buffered size is compared with \<open>>\<close>, so \<open>receive\<close> waits for another
  byte, and reports a closed connection when the peer shuts down instead.
\<close>

theorem rpc_minimal_frame_waits:
  assumes "length (rpc_wire P m) = 10"
  shows "codec_receive LITTLE_ENDIAN P True [Recv_bytes (rpc_wire P m)] = None \<and>
    codec_receive LITTLE_ENDIAN P True [Recv_bytes (rpc_wire P m), Recv_bytes []] = Some (Inr (kServerClosed, None))"
proof -
  let ?bs = "rpc_wire P m"
  have "?bs \<noteq> []" using assms by force
  from receive_read [OF fresh_ba(1,2) _ _ this] assms obtain b where b:
    "ss_read_ba True (Recv_bytes ?bs) 4096 (ByteArray kInitSize) = Inr (10, b)" "ba_inv b" "getReadSize b = 10"
    "length (buf b) \<le> 9232"
    by (auto simp: fresh_ba)
  have "ba_room 4096 b" using b(4) by (simp add: ba_room_def ba_consts)
  from ss_read_ba_spec [OF b(2) this, of "[]"] obtain b' where "ss_read_ba True (Recv_bytes []) 4096 b = Inr (0, b')" by auto
  with b(1,3) show ?thesis by (simp add: codec_receive_def header_threshold)
qed

theorem rpc_minimal_frame_waits_witness:
  "length (rpc_wire (bytes_proto\<lparr>GetTypeName := (\<lambda>_. ''b'')\<rparr>) []) = 10 \<and>
   codec_receive LITTLE_ENDIAN (bytes_proto\<lparr>GetTypeName := (\<lambda>_. ''b'')\<rparr>) True
     [Recv_bytes (rpc_wire (bytes_proto\<lparr>GetTypeName := (\<lambda>_. ''b'')\<rparr>) [])] = None"
  using rpc_minimal_frame_waits [of "bytes_proto\<lparr>GetTypeName := (\<lambda>_. ''b'')\<rparr>" "[]"]
  by (simp add: length_rpc_wire body_len_def bytes_proto_def)

end
