(* ===== verification/Worker_System.thy ===== *)
theory Worker_System
  imports Worker
begin

text \<open>
  A worker with its real surroundings: the poller of \<open>epoller.cc\<close> and the timers of \<open>timer.cc\<close>. User code is
  given as programs built from the calls that block a coroutine: \<open>sleep\<close> as \<open>src/reyao/hook.cc\<close> implements
  it (a timer whose callback puts the coroutine back into the queue), waiting for a descriptor
  (\<open>Worker::AddEvent\<close> and \<open>YieldToSuspend\<close>) and \<open>addTask\<close>. \<open>s_polls\<close> are the outcomes of the coming calls of
  \<open>epoll_wait\<close>: the time, the address of \<open>expiredFunctions\<close>' probe object and the report.
\<close>

section \<open>Programs\<close>

text \<open>The three sleeping calls, with their arguments at their C types: seconds, microseconds, a \<open>timespec\<close>.\<close>

datatype sleep_call = Sleep_s "32 word" | Sleep_us "32 word" | Sleep_ns int int

datatype prog = Finish | Fail | Wake nat | Sleep sleep_call prog | Wait nat bool prog | Spawn prog prog

record surroundings =
  s_ep :: "prog epoller"
  s_tm :: "prog time_manager"
  s_polls :: "(int \<times> nat \<times> ready list) list"
  s_now :: int
  s_next :: nat

text \<open>
  The hooked \<open>sleep\<close>, \<open>usleep\<close> and \<open>nanosleep\<close> set a timer that puts the coroutine back into the queue. \<open>i\<close> is
  the coroutine that sleeps, \<open>s_next\<close> the address of the new timer. \<open>seconds * 1000\<close> is computed in 32 bits.
\<close>

definition sleep_timer :: "int \<Rightarrow> nat \<Rightarrow> surroundings \<Rightarrow> surroundings" where
  "sleep_timer ms i x =
     x\<lparr>s_tm := addTimer (s_now x) (s_next x) ms (Some (Wake i)) False (s_tm x), s_next := s_next x + 1\<rparr>"

definition hook_sleep :: "32 word \<Rightarrow> nat \<Rightarrow> surroundings \<Rightarrow> surroundings" where
  "hook_sleep seconds = sleep_timer (uint (seconds * 1000))"

definition hook_usleep :: "32 word \<Rightarrow> nat \<Rightarrow> surroundings \<Rightarrow> surroundings" where
  "hook_usleep usec = sleep_timer (uint (usec div 1000))"

definition hook_nanosleep :: "int \<Rightarrow> int \<Rightarrow> nat \<Rightarrow> surroundings \<Rightarrow> surroundings" where
  "hook_nanosleep tv_sec tv_nsec = sleep_timer (tv_sec * 1000 + c_div tv_nsec 1000000)"

fun sleeps :: "sleep_call \<Rightarrow> nat \<Rightarrow> surroundings \<Rightarrow> surroundings" where
  "sleeps (Sleep_s n) = hook_sleep n"
| "sleeps (Sleep_us n) = hook_usleep n"
| "sleeps (Sleep_ns s n) = hook_nanosleep s n"

lemmas sleep_defs = hook_sleep_def hook_usleep_def hook_nanosleep_def

text \<open>A sleep of 4294968 seconds ends after 704 milliseconds.\<close>

lemma sleep_wraps: "hook_sleep 4294968 = sleep_timer 704"
  by (simp add: hook_sleep_def)

text \<open>The milliseconds of each call.\<close>

fun sleep_ms :: "sleep_call \<Rightarrow> int" where
  "sleep_ms (Sleep_s n) = uint (n * 1000)"
| "sleep_ms (Sleep_us n) = uint (n div 1000)"
| "sleep_ms (Sleep_ns s n) = s * 1000 + c_div n 1000000"

lemma sleeps_timer: "sleeps c = sleep_timer (sleep_ms c)"
  by (cases c) (simp_all add: sleep_defs)

fun prog_run :: "(prog, surroundings) user_code" where
  "prog_run i Finish x = ((Returns, []), x)"
| "prog_run i Fail x = ((Throws, []), x)"
| "prog_run i (Wake j) x = ((Returns, [Task_co j]), x)"
| "prog_run i (Sleep c p) x = ((Suspends p, []), sleeps c i x)"
| "prog_run i (Wait fd rd p) x =
     (if fd < 2147483648
      then case addEvent fd (if rd then EPOLLIN else EPOLLOUT) None 0 i (s_ep x) of
             Inr (True, E) \<Rightarrow> ((Suspends p, []), x\<lparr>s_ep := E\<rparr>)
           | Inr (False, E) \<Rightarrow> prog_run i p (x\<lparr>s_ep := E\<rparr>)
           | Inl _ \<Rightarrow> ((Throws, []), x)
      else ((Throws, []), x))"
| "prog_run i (Spawn p q) x = (let ((e, ts), x) = prog_run i q x in ((e, Task_func p # ts), x))"

definition sys_expiry :: "surroundings \<Rightarrow> int \<times> surroundings" where
  "sys_expiry x = (let (t, M) = getExpire (s_now x) (s_tm x) in (t, x\<lparr>s_tm := M\<rparr>))"

text \<open>An outcome that is no possible report of the kernel counts as a timeout.\<close>

definition sys_poll :: "int \<Rightarrow> surroundings \<Rightarrow> prog task list \<times> surroundings" where
  "sys_poll timeout x =
     (case s_polls x of
        [] \<Rightarrow> ([], x)
      | (now, p, rs) # polls \<Rightarrow>
          (case ep_wait now p 0 (if reports_ok (s_ep x) rs then rs else []) (s_tm x) (s_ep x) of
             Inl _ \<Rightarrow> ([], x)
           | Inr (M, E) \<Rightarrow>
               (map snd (drop (length (scheduled (s_ep x))) (scheduled E)),
                x\<lparr>s_polls := polls, s_now := now, s_tm := M, s_ep := E\<rparr>)))"

section \<open>References\<close>

fun prog_refs :: "prog \<Rightarrow> nat set" where
  "prog_refs Finish = {}"
| "prog_refs Fail = {}"
| "prog_refs (Wake j) = {j}"
| "prog_refs (Sleep c p) = prog_refs p"
| "prog_refs (Wait fd rd p) = prog_refs p"
| "prog_refs (Spawn p q) = prog_refs p \<union> prog_refs q"

definition tm_funcs :: "'f time_manager \<Rightarrow> 'f set" where
  "tm_funcs M = {c. \<exists>a t. objs M a = Some t \<and> t_func t = Some c}"

definition sys_refs :: "surroundings \<Rightarrow> nat set" where
  "sys_refs x = \<Union> (task_ref prog_refs ` snd ` set_mset (waiting (s_ep x))) \<union> \<Union> (prog_refs ` tm_funcs (s_tm x))"

definition sys_ok :: "surroundings \<Rightarrow> bool" where
  "sys_ok x \<longleftrightarrow> ep_inv (s_ep x)"

lemma fire_funcs: "fire now as M = (fs, M') \<Longrightarrow> {c. Some c \<in> set fs} \<union> tm_funcs M' \<subseteq> tm_funcs M"
proof (induction as arbitrary: M fs M')
  case (Cons a as)
  show ?case
  proof (cases "objs M a")
    case None
    with Cons show ?thesis by simp
  next
    case (Some t)
    define M1 where "M1 = (if recursive t then M\<lparr>objs := (objs M)(a \<mapsto> t\<lparr>expire := now + interval t\<rparr>),
        timers := oset_insert (timer_less ((objs M)(a \<mapsto> t\<lparr>expire := now + interval t\<rparr>))) a (timers M)\<rparr>
      else M\<lparr>objs := (objs M)(a \<mapsto> t\<lparr>t_func := None\<rparr>)\<rparr>)"
    obtain fs1 where f: "fire now as M1 = (fs1, M')" "fs = t_func t # fs1"
      using Cons.prems Some by (auto simp: M1_def Let_def split: prod.splits cong: if_cong)
    have "tm_funcs M1 \<subseteq> tm_funcs M" using Some by (auto simp: M1_def tm_funcs_def split: if_splits)
    moreover have "t_func t = Some c \<Longrightarrow> c \<in> tm_funcs M" for c using Some by (auto simp: tm_funcs_def)
    ultimately show ?thesis using Cons.IH [OF f(1)] f(2) by fastforce
  qed
qed simp

lemma expired_funcs:
  assumes "expiredFunctions now p M = (fs, M')"
  shows "{c. Some c \<in> set fs} \<union> tm_funcs M' \<subseteq> tm_funcs M"
proof (cases "timers M = []")
  case False
  then obtain as ts where "fire now as (M\<lparr>timers := ts\<rparr>) = (fs, M')"
    using assms unfolding expiredFunctions_def Let_def by (simp only: if_False)
  from fire_funcs [OF this] show ?thesis by (simp add: tm_funcs_def)
qed (use assms in \<open>auto simp: expiredFunctions_def\<close>)

lemma timer_tasks_set: "set (timer_tasks w fs) = {(w, Task_func c) |c. Some c \<in> set fs}"
  by (auto simp: timer_tasks_def split: option.splits)

lemma sys_poll_law:
  assumes "sys_ok x" "sys_poll t x = (ts, x')"
  shows "sys_ok x' \<and> task_refs prog_refs ts \<union> sys_refs x' \<subseteq> sys_refs x"
proof (cases "s_polls x")
  case Nil
  with assms show ?thesis by (simp add: sys_poll_def)
next
  case (Cons pl polls)
  obtain now p rs where pl: "pl = (now, p, rs)" by (metis prod_cases3)
  define rs' where "rs' = (if reports_ok (s_ep x) rs then rs else [])"
  have "reports_ok (s_ep x) rs'" by (simp add: rs'_def reports_ok_def)
  from ep_wait_ok [OF assms(1) [unfolded sys_ok_def] this, of now p 0 "s_tm x"] obtain E where
    E: "ep_wait now p 0 rs' (s_tm x) (s_ep x) = Inr (snd (expiredFunctions now p (s_tm x)), E)" "ep_inv E"
    "mset (scheduled E) + waiting E = mset (scheduled (s_ep x)) + waiting (s_ep x) + mset (timer_tasks 0 (fst (expiredFunctions now p (s_tm x))))"
    "\<exists>ts. scheduled E = scheduled (s_ep x) @ timer_tasks 0 (fst (expiredFunctions now p (s_tm x))) @ ts"
    by metis
  define new where "new = drop (length (scheduled (s_ep x))) (scheduled E)"
  have "scheduled E = scheduled (s_ep x) @ new" using E(4) by (auto simp: new_def)
  then have "mset new + waiting E = waiting (s_ep x) + mset (timer_tasks 0 (fst (expiredFunctions now p (s_tm x))))"
    using E(3) by (simp add: ac_simps)
  then have "set_mset (mset new + waiting E) = set_mset (waiting (s_ep x) + mset (timer_tasks 0 (fst (expiredFunctions now p (s_tm x)))))"
    by simp
  then have s: "set new \<union> set_mset (waiting E) = set_mset (waiting (s_ep x)) \<union> {(0, Task_func c) |c. Some c \<in> set (fst (expiredFunctions now p (s_tm x)))}"
    by (simp add: timer_tasks_set)
  have x': "ts = map snd new" "x' = x\<lparr>s_polls := polls, s_now := now, s_tm := snd (expiredFunctions now p (s_tm x)), s_ep := E\<rparr>"
    using assms(2) Cons pl E(1) by (simp_all add: sys_poll_def rs'_def new_def)
  have f: "{c. Some c \<in> set (fst (expiredFunctions now p (s_tm x)))} \<union> tm_funcs (snd (expiredFunctions now p (s_tm x))) \<subseteq> tm_funcs (s_tm x)"
    by (rule expired_funcs) simp
  have w: "task_ref prog_refs (snd u) \<subseteq> sys_refs x" if "u \<in> set new \<union> set_mset (waiting E)" for u
    using that f unfolding s by (fastforce simp: sys_refs_def)
  have "\<Union> (prog_refs ` tm_funcs (s_tm x')) \<subseteq> sys_refs x" using f x'(2) by (auto simp: sys_refs_def)
  with w have "task_refs prog_refs ts \<union> sys_refs x' \<subseteq> sys_refs x"
    unfolding x'(1) task_refs_def by (subst sys_refs_def) (simp add: x'(2), blast)
  then show ?thesis using E(2) x'(2) by (simp add: sys_ok_def)
qed

lemma sys_expiry_eq:
  "sys_expiry x = (fst (getExpire (s_now x) (s_tm x)), x\<lparr>s_tm := (s_tm x)\<lparr>needNotify := False\<rparr>\<rparr>)"
  by (simp add: sys_expiry_def getExpire_def Let_def split: list.split)

lemma sys_expiry_law: "sys_ok x \<Longrightarrow> sys_expiry x = (t, x') \<Longrightarrow> sys_ok x' \<and> sys_refs x' \<subseteq> sys_refs x"
  unfolding sys_expiry_eq by (elim Pair_inject, hypsubst) (simp add: sys_ok_def sys_refs_def tm_funcs_def)

lemma sleep_timer_refs: "sys_refs (sleep_timer ms i x) \<subseteq> insert i (sys_refs x)"
proof -
  have "tm_funcs (s_tm (sleep_timer ms i x)) \<subseteq> insert (Wake i) (tm_funcs (s_tm x))"
    by (auto simp: sleep_timer_def addTimer_def Let_def tm_funcs_def split: if_splits)
  moreover have "s_ep (sleep_timer ms i x) = s_ep x" by (simp add: sleep_timer_def)
  ultimately show ?thesis by (fastforce simp: sys_refs_def)
qed

lemma addEvent_refs:
  assumes "sys_ok x" "addEvent fd (if rd then EPOLLIN else EPOLLOUT) None 0 i (s_ep x) = Inr (b, E)" "fd < 2147483648"
  shows "sys_ok (x\<lparr>s_ep := E\<rparr>) \<and> sys_refs (x\<lparr>s_ep := E\<rparr>) \<subseteq> insert i (sys_refs x)"
proof -
  have t: "io_type (if rd then EPOLLIN else EPOLLOUT)" by (simp add: io_type_def)
  have "fd < length (ioEvents (s_ep x)) \<or> 2 \<le> fd"
    using addEvent_fault [of "s_ep x" fd] assms(2) by (metis Inl_Inr_False not_le)
  from addEvent_ok [OF assms(1) [unfolded sys_ok_def] t this assms(3), of None 0 i] assms(2) have
    "ep_inv E" "waiting E = (if b then add_mset (0, new_task None i) (waiting (s_ep x)) else waiting (s_ep x))"
    by (metis Inr_inject prod.inject)+
  then show ?thesis by (auto simp: sys_ok_def sys_refs_def new_task_def)
qed

lemma prog_run_law:
  "sys_ok x \<Longrightarrow> prog_run i c x = ((e, ts), x') \<Longrightarrow>
   sys_ok x' \<and> task_refs prog_refs ts \<union> ending_refs prog_refs e \<union> sys_refs x' \<subseteq> insert i (prog_refs c \<union> sys_refs x)"
proof (induction i c x arbitrary: e ts x' rule: prog_run.induct)
  case (4 i c p x)
  then show ?case using sleep_timer_refs [of "sleep_ms c" i x] by (auto simp: sleeps_timer sys_ok_def sleep_timer_def)
next
  case (5 i fd rd p x)
  show ?case
  proof (cases "\<exists>b E. fd < 2147483648 \<and> addEvent fd (if rd then EPOLLIN else EPOLLOUT) None 0 i (s_ep x) = Inr (b, E)")
    case True
    then obtain b E where E: "fd < 2147483648" "addEvent fd (if rd then EPOLLIN else EPOLLOUT) None 0 i (s_ep x) = Inr (b, E)"
      by blast
    note x1 = addEvent_refs [OF 5(2) E(2,1)]
    show ?thesis
    proof (cases b)
      case True
      with 5(3) E x1 show ?thesis by auto
    next
      case False
      then have r: "prog_run i p (x\<lparr>s_ep := E\<rparr>) = ((e, ts), x')" using 5(3) E by simp
      have "sys_ok x' \<and> task_refs prog_refs ts \<union> ending_refs prog_refs e \<union> sys_refs x' \<subseteq> insert i (prog_refs p \<union> sys_refs (x\<lparr>s_ep := E\<rparr>))"
        by (rule "5.IH" [OF E(1,2) refl _ _ r]) (use False x1 in auto)
      with x1 show ?thesis by auto
    qed
  next
    case False
    then have "((e, ts), x') = ((Throws, []), x)" using 5(3) by (auto split: sum.splits if_splits)
    with 5(2) show ?thesis by auto
  qed
next
  case (6 i p q x)
  obtain ts1 where r: "prog_run i q x = ((e, ts1), x')" "ts = Task_func p # ts1"
    using 6(3) by (auto split: prod.splits)
  from 6(1) [OF 6(2) r(1)] r(2) show ?case by auto
qed auto

interpretation sys: guest prog_run sys_expiry sys_poll prog_refs sys_refs sys_ok
  by unfold_locales (use prog_run_law sys_expiry_law sys_poll_law in blast)+

section \<open>A worker runs its tasks\<close>

abbreviation sys_step where
  "sys_step \<equiv> run_step (exec prog_run sys_expiry sys_poll)"

abbreviation sys_reach where
  "sys_reach \<equiv> wk_reach (exec prog_run sys_expiry sys_poll) prog_refs"

definition new_surroundings :: "(nat \<Rightarrow> bool) \<Rightarrow> (int \<times> nat \<times> ready list) list \<Rightarrow> surroundings" where
  "new_surroundings p polls =
     \<lparr> s_ep = new_Epoller p, s_tm = new_TimeManager, s_polls = polls, s_now = 0, s_next = 0 \<rparr>"

lemma new_surroundings_ok: "sys_ok (new_surroundings p polls)" "sys_refs (new_surroundings p polls) = {}"
  by (simp_all add: sys_ok_def sys_refs_def new_surroundings_def ep_inv_def new_Epoller_def waiting_def tm_funcs_def new_TimeManager_def)

lemma kStackSize_alloc: "0 < page \<Longrightarrow> StackAlloc page kStackSize \<noteq> 0"
  using StackAlloc_spec [of page kStackSize] by (simp add: kStackSize_def)

lemma sys_reach_inv:
  "0 < page \<Longrightarrow> sys_reach page kStackSize (new_surroundings p polls) V w \<Longrightarrow> wk_inv prog_refs sys_refs sys_ok V w"
  by (rule sys.reach_inv [OF new_surroundings_ok kStackSize_alloc])


definition worker_example :: "prog code co_env \<times> (prog, surroundings) worker" where
  "worker_example = run_start 4096 kStackSize \<lparr>cos = Map.empty, t_curCoroutine = None, s_coroutineId = 0\<rparr>
     (new_Worker (new_surroundings (\<lambda>_. True) []))"

lemma worker_example_reach:
  "sys_reach 4096 kStackSize (new_surroundings (\<lambda>_. True) []) (fst worker_example)
     (addTask (Some (Task_func (Sleep (Sleep_s 5) Finish))) (snd worker_example))"
  by (rule wk_given [OF wk_init [of 0]]) (simp_all add: worker_example_def)

lemma worker_example_state:
  "s_coroutineId (fst worker_example) = 1" "tasks (snd worker_example) = []" "timers (s_tm (outside (snd worker_example))) = []"
  by (simp_all add: worker_example_def run_start_def new_Coroutine_def InitMainCoroutine_def new_Worker_def size_add_def
      new_surroundings_def new_TimeManager_def)


text \<open>The round of the idle coroutine.\<close>

lemma getExpire_none: "fst (getExpire now M) = -1 \<longleftrightarrow> timers M = []"
  by (auto simp: getExpire_def Let_def split: list.split)

lemma sys_idle_round:
  assumes "wk_inv prog_refs sys_refs sys_ok V w" "tasks w = []" "state_of (idleCo w) V \<noteq> DONE"
  obtains V' w' where "sys_step page stackSize V w = Inr (False, V', w')" "idleCo w' = idleCo w"
    "state_of (idleCo w) V' = DONE \<longleftrightarrow> \<not> wk_running w \<and> timers (s_tm (outside w)) = []"
    "state_of (idleCo w) V' = DONE \<Longrightarrow> tasks w' = []"
proof -
  let ?w = "w\<lparr>wk_idle := True\<rparr>"
  obtain t x where t: "sys_expiry (outside w) = (t, x)" by force
  obtain ts x2 where p: "sys_poll (as_int t) x = (ts, x2)" by force
  have inv: "co_inv V" "live (idleCo w) V" "code_of (idleCo w) V = Some Idle" "state_of (idleCo w) V \<noteq> EXCEPT"
    using assms(1,3) by (simp_all add: wk_inv_def wk_base_def)
  then have st: "startable (idleCo w) V" using assms(3) by (simp add: startable_iff)
  have s: "canStop t (?w\<lparr>outside := x\<rparr>) \<longleftrightarrow> \<not> wk_running w \<and> timers (s_tm (outside w)) = []"
    using t assms(2) getExpire_none [of "s_now (outside w)" "s_tm (outside w)"] by (auto simp: canStop_def sys_expiry_eq)
  obtain e w1 where e: "exec prog_run sys_expiry sys_poll (idleCo w) Idle ?w = (e, w1)" by force
  have w1: "e = (if canStop t (?w\<lparr>outside := x\<rparr>) then Returns else Suspends Idle)"
    "canStop t (?w\<lparr>outside := x\<rparr>) \<Longrightarrow> tasks w1 = []"
    using e t p assms(2) by (auto split: if_splits)
  obtain V' where V': "resume (exec prog_run sys_expiry sys_poll (idleCo w)) (idleCo w) V ?w = Inr (V', w1)"
    "state_of (idleCo w) V' = state_after e"
    using resume_spec [where user = "exec prog_run sys_expiry sys_poll (idleCo w)", OF inv(1) st inv(3) e] by metis
  have "idleCo w1 = idleCo w"
    by (rule sys.exec_effect [OF e]) (use assms(1) in \<open>simp_all add: wk_inv_def wk_base_def\<close>)
  then show ?thesis
    using that [of V' "w1\<lparr>wk_idle := False\<rparr>"] V' w1 s assms(2,3) by (simp add: run_step_def pop_task_def run_idle_def)
qed

text \<open>
  C32: how a worker ends. Once it is stopped, with an empty queue and no timer, at most two more rounds of
  \<open>Worker::run\<close> end the loop, even though descriptors may still be registered with the poller.
  Conversely a round with an empty queue lets the idle coroutine finish only if the worker was stopped and
  has no timer, so a worker with a pending timer keeps polling.
\<close>

theorem worker_stops:
  assumes "0 < page" "sys_reach page kStackSize (new_surroundings p polls) V w" "s_coroutineId V < size_mod - 1"
    "tasks w = []"
  shows "(\<not> wk_running w \<and> timers (s_tm (outside w)) = [] \<longrightarrow>
      (\<exists>V' w'. sys_step page kStackSize V w = Inr (True, V', w') \<or>
         sys_step page kStackSize V w = Inr (False, V', w') \<and> sys_step page kStackSize V' w' = Inr (True, V', w'))) \<and>
    (state_of (idleCo w) V \<noteq> DONE \<longrightarrow> wk_running w \<or> timers (s_tm (outside w)) \<noteq> [] \<longrightarrow>
      (\<exists>V' w'. sys_step page kStackSize V w = Inr (False, V', w') \<and> state_of (idleCo w') V' \<noteq> DONE))"
proof (cases "state_of (idleCo w) V = DONE")
  case True
  with assms(4) show ?thesis by (simp add: run_step_def pop_task_def run_idle_def)
next
  case False
  from sys_idle_round [OF sys_reach_inv [OF assms(1,2)] assms(4) False, of page kStackSize] obtain V' w' where
    r: "sys_step page kStackSize V w = Inr (False, V', w')" "idleCo w' = idleCo w"
    "state_of (idleCo w) V' = DONE \<longleftrightarrow> \<not> wk_running w \<and> timers (s_tm (outside w)) = []"
    "state_of (idleCo w) V' = DONE \<Longrightarrow> tasks w' = []" by metis
  then have "state_of (idleCo w) V' = DONE \<Longrightarrow> sys_step page kStackSize V' w' = Inr (True, V', w')"
    by (simp add: run_step_def pop_task_def run_idle_def)
  with r show ?thesis by auto
qed

theorem worker_stops_witness:
  "\<exists>V' w'. sys_step 4096 kStackSize (fst worker_example) (wk_stop (snd worker_example)) = Inr (True, V', w') \<or>
     sys_step 4096 kStackSize (fst worker_example) (wk_stop (snd worker_example)) = Inr (False, V', w') \<and>
     sys_step 4096 kStackSize V' w' = Inr (True, V', w')"
proof -
  have "sys_reach 4096 kStackSize (new_surroundings (\<lambda>_. True) []) (fst worker_example) (wk_stop (snd worker_example))"
    by (rule wk_halted [OF wk_init [of 0]]) (simp_all add: worker_example_def)
  from worker_stops [OF _ this] worker_example_state show ?thesis by (simp add: wk_stop_def wk_notify_def)
qed

end
