(* ===== verification/Worker_Pool.thy ===== *)
theory Worker_Pool
  imports Hook
begin

text \<open>
  Several workers in one scheduler. Each worker thread has a poller of its own, and the static operations of
  \<open>Worker\<close> (\<open>src/reyao/worker.cc\<close>) act on the poller of the thread that calls them; the timers belong to the
  scheduler, and whichever worker leaves \<open>epoll_wait\<close> first runs the callbacks of those that are due. Here the
  blocking half of \<open>do_io\<close> (\<open>src/reyao/hook.cc\<close>) meets both: a coroutine registers with the poller of its worker and
  sets a timer that is to wake it.
\<close>

section \<open>Operations\<close>

text \<open>\<open>AddEvent\<close>, \<open>DelEvent\<close>, \<open>HandleEvent\<close>, \<open>HandleAllEvent\<close>; \<open>t\<close> is the thread's \<open>t_worker\<close>, null outside workers.\<close>

definition on_worker :: "nat option \<Rightarrow> (nat \<Rightarrow> 'f epoller \<Rightarrow> (bool \<times> 'f epoller) res) \<Rightarrow> (nat \<Rightarrow> 'f epoller) \<Rightarrow>
    (bool \<times> (nat \<Rightarrow> 'f epoller)) res" where
  "on_worker t op eps =
     (case t of
        None \<Rightarrow> Inl Memory_fault
      | Some w \<Rightarrow> map_res (\<lambda>(b, E). (b, eps(w := E))) (op w (eps w)))"

definition Worker_AddEvent where
  "Worker_AddEvent t fd type func co = on_worker t (\<lambda>w. addEvent fd type func w co)"

definition Worker_DelEvent where
  "Worker_DelEvent t fd type = on_worker t (\<lambda>w. delEvent fd type)"

definition Worker_HandleEvent where
  "Worker_HandleEvent t fd type = on_worker t (\<lambda>w. handleEvent fd type)"

definition Worker_HandleAllEvent where
  "Worker_HandleAllEvent t fd = on_worker t (\<lambda>w. handleAllEvent fd)"

text \<open>
  \<open>IO_timeout ti fd type\<close> is the callback of the timer a blocking call sets, \<open>mk\<close> makes a task of it; \<open>po_tinfo\<close> are the \<open>timerInfo\<close> objects of
  the calls in progress with their field \<open>cancelled\<close>.
\<close>

datatype io_timer = IO_timeout nat nat "32 word"

record 'f pool =
  po_ep :: "nat \<Rightarrow> 'f epoller"
  po_tm :: "'f time_manager"
  po_tinfo :: "(nat, nat) map"

text \<open>
  \<open>do_io\<close> at \<open>EAGAIN\<close>, up to the switch to the main coroutine: \<open>a\<close> and \<open>ti\<close> are the addresses of the new timer and
  the new \<open>timerInfo\<close>. The result says whether the coroutine \<open>co\<close> waits.
\<close>

definition io_block ::
    "(io_timer \<Rightarrow> 'f) \<Rightarrow> nat \<Rightarrow> nat \<Rightarrow> nat \<Rightarrow> 32 word \<Rightarrow> int \<Rightarrow> int \<Rightarrow> nat \<Rightarrow> nat \<Rightarrow> 'f pool \<Rightarrow> (bool \<times> 'f pool) res" where
  "io_block mk w co fd type timeout now a ti P =
     (let P = P\<lparr>po_tinfo := (po_tinfo P)(ti \<mapsto> 0),
                po_tm := (if timeout \<noteq> -1 then addTimer now a timeout (Some (mk (IO_timeout ti fd type))) False (po_tm P) else po_tm P)\<rparr> in
      map_res
        (\<lambda>(ok, eps).
           if ok then (True, P\<lparr>po_ep := eps\<rparr>)
           else (False, P\<lparr>po_ep := eps, po_tinfo := (po_tinfo P)(ti := None),
                         po_tm := (if timeout \<noteq> -1 then snd (cancel a (po_tm P)) else po_tm P)\<rparr>))
        (Worker_AddEvent (Some w) fd type None co (po_ep P)))"

text \<open>The rest, after the switch back: the call fails with what \<open>cancelled\<close> holds, or is tried again.\<close>

definition io_resume :: "int \<Rightarrow> nat \<Rightarrow> nat \<Rightarrow> 'f pool \<Rightarrow> nat option \<times> 'f pool" where
  "io_resume timeout a ti P =
     (let P = (if timeout \<noteq> -1 then P\<lparr>po_tm := snd (cancel a (po_tm P))\<rparr> else P) in
      case po_tinfo P ti of
        Some c \<Rightarrow> if c \<noteq> 0 then (Some c, P\<lparr>po_tinfo := (po_tinfo P)(ti := None)\<rparr>) else (None, P)
      | None \<Rightarrow> (None, P))"

text \<open>The callback of the timer, run by a task of worker \<open>v\<close>.\<close>

fun io_timeout :: "nat \<Rightarrow> io_timer \<Rightarrow> 'f pool \<Rightarrow> 'f pool res" where
  "io_timeout v (IO_timeout ti fd type) P =
     (case po_tinfo P ti of
        None \<Rightarrow> Inr P
      | Some c \<Rightarrow>
          if c \<noteq> 0 then Inr P
          else let P = P\<lparr>po_tinfo := (po_tinfo P)(ti \<mapsto> ETIMEDOUT)\<rparr>
               in map_res (\<lambda>(_, eps). P\<lparr>po_ep := eps\<rparr>) (Worker_HandleEvent (Some v) fd type (po_ep P)))"

text \<open>Worker \<open>v\<close> leaves \<open>epoll_wait\<close> and takes the callbacks that are due.\<close>

definition pool_wait :: "nat \<Rightarrow> int \<Rightarrow> nat \<Rightarrow> ready list \<Rightarrow> 'f pool \<Rightarrow> 'f pool res" where
  "pool_wait v now p rs P =
     map_res (\<lambda>(M, E). P\<lparr>po_tm := M, po_ep := (po_ep P)(v := E)\<rparr>) (ep_wait now p v rs (po_tm P) (po_ep P v))"

text \<open>\<open>close\<close> called on worker \<open>v\<close>.\<close>

definition pool_close :: "nat \<Rightarrow> int \<Rightarrow> hook_state \<Rightarrow> 'f pool \<Rightarrow> (hook_state \<times> 'f pool) res" where
  "pool_close v fd H P =
     map_res (\<lambda>(H, E). (H, P\<lparr>po_ep := (po_ep P)(v := E)\<rparr>)) (hook_close fd H (po_ep P v))"

section \<open>Who wakes a waiting coroutine\<close>

lemma addEvent_registers:
  assumes "ep_inv E" "io_type type" "fd < 2147483648" "addEvent fd type None w co E = Inr (True, E')"
  shows "ep_inv E' \<and> registered fd type E' \<and> ctx_of type (ioEvents E' ! fd) = new_ctx None w co \<and>
    (w, Task_co co) \<in># waiting E' \<and> scheduled E' = scheduled E"
proof -
  have fd: "fd < length (ioEvents E) \<or> 2 \<le> fd"
  proof (rule ccontr)
    assume "\<not> ?thesis"
    then have "addEvent fd type None w co E = Inl Memory_fault" by (intro addEvent_fault) auto
    with assms(4) show False by simp
  qed
  from addEvent_ok [OF assms(1,2) fd assms(3), of None w co] assms(4)
  have "ep_inv E'" "scheduled E' = scheduled E" "waiting E' = add_mset (w, new_task None co) (waiting E)" "registered fd type E'"
    by auto
  moreover have "ctx_of type (ioEvents E' ! fd) = new_ctx None w co"
    using addEvent_spec [OF assms(1,2) fd assms(3), of None w co] assms(4) grown_inv(2) [OF assms(1) fd assms(3)] assms(2)
    by (auto simp: joined_def ctx_of_def setEventCtx_def io_type_def split: if_splits)
  ultimately show ?thesis by (simp add: new_task_def)
qed

lemma io_block_waits:
  assumes "ep_inv (po_ep P w)" "io_type type" "fd < 2147483648" "io_block mk w co fd type timeout now a ti P = Inr (True, P1)"
  shows "\<exists>E. po_ep P1 = (po_ep P)(w := E) \<and> addEvent fd type None w co (po_ep P w) = Inr (True, E) \<and> po_tinfo P1 ti = Some 0 \<and>
    po_tm P1 = (if timeout \<noteq> -1 then addTimer now a timeout (Some (mk (IO_timeout ti fd type))) False (po_tm P) else po_tm P)"
  using assms(4)
  by (auto simp: io_block_def Worker_AddEvent_def on_worker_def Let_def map_res_Inr_iff split: if_splits)

lemma due_callback:
  fixes f :: 'f and M :: "'f time_manager"
  assumes "tm_inv M" "a \<notin> dom (objs M)" "p \<noteq> a" "p \<notin> dom (objs M)" "now + timeout \<le> t"
  defines "M1 \<equiv> addTimer now a timeout (Some f) False M"
  shows "Some f \<in> set (fst (expiredFunctions t p M1)) \<and> map_option t_func (objs (snd (expiredFunctions t p M1)) a) = Some None"
proof -
  have i: "tm_inv M1" unfolding M1_def by (rule addTimer_inv [OF assms(1,2)])
  have a: "objs M1 a = Some \<lparr> recursive = False, interval = timeout, expire = now + timeout, t_func = Some f \<rparr>"
    "dom (objs M1) = insert a (dom (objs M))" by (simp_all add: M1_def addTimer_def Let_def)
  then have d: "a \<in> set (timers M1)" "expire_of (objs M1) a \<le> t" using i assms(5) by (auto simp: tm_inv_def expire_of_def)
  have "p \<notin> dom (objs M1)" using a(2) assms(3,4) by auto
  note e = expired_pass [OF i this, of t]
  have "a \<in> set (filter (\<lambda>a. expire_of (objs M1) a \<le> t) (timers M1))" using d by simp
  then have "t_func (the (objs M1 a)) \<in> set (fst (expiredFunctions t p M1))" using e by (metis (no_types, lifting) imageI list.set_map)
  with a(1) d e show ?thesis by simp
qed

lemma pool_wait_due:
  assumes "Some f \<in> set (fst (expiredFunctions t p (po_tm P)))"
  shows "\<exists>ts. pool_wait v t p [] P = Inr (P\<lparr>po_tm := snd (expiredFunctions t p (po_tm P)),
      po_ep := (po_ep P)(v := (po_ep P v)\<lparr>polling := False, scheduled := scheduled (po_ep P v) @ ts\<rparr>)\<rparr>) \<and> (v, Task_func f) \<in> set ts"
proof -
  obtain fs M where f: "expiredFunctions t p (po_tm P) = (fs, M)" by force
  let ?ts = "concat (map (\<lambda>f. case f of None \<Rightarrow> [] | Some f \<Rightarrow> [(v, Task_func f)]) fs)"
  have "(v, Task_func f) \<in> set ?ts" using assms f by (auto intro!: bexI [of _ "Some f"])
  with f show ?thesis by (intro exI [of _ ?ts]) (simp add: pool_wait_def ep_wait_def)
qed

lemma ep_queue_fields:
  "ep_inv (E\<lparr>polling := q, scheduled := ts\<rparr>) = ep_inv E" "registered fd type (E\<lparr>polling := q, scheduled := ts\<rparr>) = registered fd type E"
  "waiting (E\<lparr>polling := q, scheduled := ts\<rparr>) = waiting E"
  by (simp_all add: ep_inv_def registered_def waiting_def cong: if_cong)

lemma io_timeout_runs:
  assumes "ep_inv (po_ep P v)" "io_type type" "po_tinfo P ti = Some 0"
  shows "io_timeout v (IO_timeout ti fd type) P =
    Inr (P\<lparr>po_tinfo := (po_tinfo P)(ti \<mapsto> ETIMEDOUT),
      po_ep := if registered fd type (po_ep P v) then (po_ep P)(v := trigger_one fd type (po_ep P v)) else po_ep P\<rparr>)"
  using handleEvent_ok [OF assms(1,2), of fd] assms(3)
  by (simp add: Worker_HandleEvent_def on_worker_def Let_def)

text \<open>
  C6: the timeout of a blocking call works only on the worker that made the call. A coroutine of worker \<open>w\<close> blocks on
  a descriptor with a timeout. Whichever worker \<open>v\<close> next leaves \<open>epoll_wait\<close> after the deadline gets the timer's callback
  into its queue, and the timer is spent. If \<open>v\<close> is \<open>w\<close>, running the callback hands the coroutine to \<open>w\<close>. If not, and \<open>v\<close>
  has no waiter of its own for the descriptor, the callback looks into the wrong poller: no poller changes, the
  coroutine goes on waiting, and the call is marked as timed out, so that it fails with \<open>ETIMEDOUT\<close> even when data wakes
  it later.
\<close>

theorem io_timeout_worker:
  assumes "\<And>v. ep_inv (po_ep P v)" "tm_inv (po_tm P)" "a \<notin> dom (objs (po_tm P))" "p \<noteq> a" "p \<notin> dom (objs (po_tm P))"
    "io_type type" "fd < 2147483648" "timeout \<noteq> -1" "now + timeout \<le> t"
    "io_block mk w co fd type timeout now a ti P = Inr (True, P1)"
  shows "\<exists>P2 P3 ts. pool_wait v t p [] P1 = Inr P2 \<and>
    scheduled (po_ep P2 v) = scheduled (po_ep P1 v) @ ts \<and> (v, Task_func (mk (IO_timeout ti fd type))) \<in> set ts \<and>
    map_option t_func (objs (po_tm P2) a) = Some None \<and>
    io_timeout v (IO_timeout ti fd type) P2 = Inr P3 \<and> fst (io_resume timeout a ti P3) = Some ETIMEDOUT \<and>
    (if v = w then scheduled (po_ep P3 w) = scheduled (po_ep P2 w) @ [(w, Task_co co)]
     else registered fd type (po_ep P v) \<or> po_ep P3 = po_ep P2 \<and> (w, Task_co co) \<in># waiting (po_ep P3 w))"
proof -
  let ?cb = "IO_timeout ti fd type"
  obtain E where E: "po_ep P1 = (po_ep P)(w := E)" "addEvent fd type None w co (po_ep P w) = Inr (True, E)" "po_tinfo P1 ti = Some 0"
    "po_tm P1 = addTimer now a timeout (Some (mk ?cb)) False (po_tm P)"
    using io_block_waits [OF assms(1,6,7,10)] assms(8) by auto
  note r = addEvent_registers [OF assms(1,6,7) E(2)]
  note d = due_callback [OF assms(2,3,4,5,9), of "mk ?cb", folded E(4)]
  obtain ts where W: "pool_wait v t p [] P1 = Inr (P1\<lparr>po_tm := snd (expiredFunctions t p (po_tm P1)),
      po_ep := (po_ep P1)(v := (po_ep P1 v)\<lparr>polling := False, scheduled := scheduled (po_ep P1 v) @ ts\<rparr>)\<rparr>)"
    "(v, Task_func (mk ?cb)) \<in> set ts"
    using pool_wait_due [OF conjunct1 [OF d]] by blast
  define P2 where "P2 = P1\<lparr>po_tm := snd (expiredFunctions t p (po_tm P1)),
      po_ep := (po_ep P1)(v := (po_ep P1 v)\<lparr>polling := False, scheduled := scheduled (po_ep P1 v) @ ts\<rparr>)\<rparr>"
  have v: "ep_inv (po_ep P2 v)" "po_tinfo P2 ti = Some 0" "scheduled (po_ep P2 v) = scheduled (po_ep P1 v) @ ts"
    using r assms(1) E by (auto simp: P2_def ep_queue_fields)
  define P3 where "P3 = P2\<lparr>po_tinfo := (po_tinfo P2)(ti \<mapsto> ETIMEDOUT),
      po_ep := if registered fd type (po_ep P2 v) then (po_ep P2)(v := trigger_one fd type (po_ep P2 v)) else po_ep P2\<rparr>"
  have P3: "io_timeout v ?cb P2 = Inr P3" unfolding P3_def by (rule io_timeout_runs [OF v(1) assms(6) v(2)])
  have t: "fst (io_resume timeout a ti P3) = Some ETIMEDOUT" by (simp add: io_resume_def P3_def ETIMEDOUT_def Let_def)
  have "if v = w then scheduled (po_ep P3 w) = scheduled (po_ep P2 w) @ [(w, Task_co co)]
     else registered fd type (po_ep P v) \<or> po_ep P3 = po_ep P2 \<and> (w, Task_co co) \<in># waiting (po_ep P3 w)"
  proof (cases "v = w")
    case True
    then have e: "po_ep P2 w = E\<lparr>polling := False, scheduled := scheduled E @ ts\<rparr>" by (simp add: P2_def E(1))
    then have "ctx_of type (ioEvents (po_ep P2 w) ! fd) = new_ctx None w co" "registered fd type (po_ep P2 w)"
      using r by (simp_all add: ep_queue_fields)
    then show ?thesis using True by (simp add: P3_def trigger_one_def new_ctx_def ctx_task_def)
  next
    case False
    then show ?thesis using r by (auto simp: P3_def P2_def E(1) ep_queue_fields)
  qed
  with W v(3) d P3 t show ?thesis
    unfolding P2_def [symmetric] by (intro exI [of _ P2] exI [of _ P3] exI [of _ ts]) (simp add: P2_def)
qed

definition pool_example :: "io_timer pool" where
  "pool_example = \<lparr> po_ep = \<lambda>_. new_Epoller (\<lambda>_. True), po_tm = new_TimeManager, po_tinfo = Map.empty \<rparr>"

theorem io_timeout_worker_witness:
  "\<exists>P1 P2 P3. io_block id 1 3 5 EPOLLIN 100 0 10 0 pool_example = Inr (True, P1) \<and> pool_wait 2 100 11 [] P1 = Inr P2 \<and>
     io_timeout 2 (IO_timeout 0 5 EPOLLIN) P2 = Inr P3 \<and> (1, Task_co 3) \<in># waiting (po_ep P3 1) \<and>
     fst (io_resume 100 10 0 P3) = Some ETIMEDOUT"
proof -
  have i: "ep_inv (po_ep pool_example v)" for v
    using ep_reach_conserve [OF ep_init] by (auto simp: pool_example_def)
  have m: "tm_inv (po_tm pool_example)" "dom (objs (po_tm pool_example)) = {}"
    by (simp_all add: pool_example_def tm_inv_def new_TimeManager_def)
  have "\<exists>P1. io_block id 1 3 5 EPOLLIN 100 0 10 0 pool_example = Inr (True, P1)"
    by (simp add: io_block_def Worker_AddEvent_def on_worker_def pool_example_def addEvent_def new_Epoller_def ep_resize_def
        new_IOEvent_def getEventCtx_def empty_ctx_def epoll_bits Let_def)
  then obtain P1 where P1: "io_block id 1 3 5 EPOLLIN 100 0 10 0 pool_example = Inr (True, P1)" by blast
  have "\<not> registered 5 EPOLLIN (po_ep pool_example 2)" by (simp add: registered_def pool_example_def new_Epoller_def)
  moreover have "io_type EPOLLIN" by (simp add: io_type_def)
  ultimately show ?thesis
    using io_timeout_worker [OF i m(1) _ _ _ _ _ _ _ P1, of 11 100 2] m(2) P1 by (auto simp: ETIMEDOUT_def)
qed

text \<open>
  The same holds for \<open>close\<close> and the operations that cancel a wait: on another worker they leave the waiting coroutine where
  it is, while the descriptor's context is gone.
\<close>

theorem close_other_worker:
  assumes "ep_reach A D (po_ep P v)" "t_hookEnable H" "ctx_at fd H = Some c" "v \<noteq> w"
  shows "\<exists>H' P'. pool_close v fd H P = Inr (H', P') \<and> ctx_at fd H' = None \<and> po_ep P' w = po_ep P w"
  using hook_close_wakes [OF assms(1-3)] assms(4) by (auto simp: pool_close_def)

end
