(* ===== verification/Worker_Team.thy ===== *)
theory Worker_Team
  imports Worker
begin

text \<open>
  Several workers in one process: each has its queue and its coroutines, and they share the timers, the scheduler and the
  counter of coroutine identifiers. Their rounds interleave in any order; a round of one worker can put tasks into the
  queues of others, which \<open>out x\<close> collects during the round. As in \<open>Worker\<close>, user code, \<open>Scheduler::getExpire\<close> and
  \<open>Epoller::wait\<close> are arguments, now with the number of the worker they run on.
\<close>

section \<open>Operations\<close>

record ('c, 'x) team =
  te_envs :: "nat \<Rightarrow> 'c code co_env"
  te_workers :: "nat \<Rightarrow> ('c, 'x) worker"
  te_shared :: 'x
  te_ids :: nat

definition member_env :: "nat \<Rightarrow> ('c, 'x) team \<Rightarrow> 'c code co_env" where
  "member_env v S = (te_envs S v)\<lparr>s_coroutineId := te_ids S\<rparr>"

definition member :: "nat \<Rightarrow> ('c, 'x) team \<Rightarrow> ('c, 'x) worker" where
  "member v S = (te_workers S v)\<lparr>outside := te_shared S\<rparr>"

definition give :: "nat \<times> 'c task \<Rightarrow> ('c, 'x) team \<Rightarrow> ('c, 'x) team" where
  "give p S = S\<lparr>te_workers := (te_workers S)(fst p := addTask (Some (snd p)) (te_workers S (fst p)))\<rparr>"

definition put_member :: "nat \<Rightarrow> 'c code co_env \<Rightarrow> ('c, 'x) worker \<Rightarrow> ('c, 'x) team \<Rightarrow> ('c, 'x) team" where
  "put_member v V w S =
     S\<lparr>te_envs := (te_envs S)(v := V), te_workers := (te_workers S)(v := w), te_shared := outside w, te_ids := s_coroutineId V\<rparr>"

text \<open>Worker \<open>v\<close> enters \<open>run\<close>, and one round of its loop.\<close>

definition team_start :: "nat \<Rightarrow> nat \<Rightarrow> nat \<Rightarrow> ('c, 'x) team \<Rightarrow> ('c, 'x) team" where
  "team_start page stackSize v S =
     (let (V, w) = run_start page stackSize (member_env v S) (member v S) in put_member v V w S)"

definition team_round ::
    "(nat \<Rightarrow> nat \<Rightarrow> 'c code \<Rightarrow> ('c, 'x) worker \<Rightarrow> 'c code ending \<times> ('c, 'x) worker) \<Rightarrow> ('x \<Rightarrow> (nat \<times> 'c task) list) \<Rightarrow> ('x \<Rightarrow> 'x) \<Rightarrow>
     nat \<Rightarrow> nat \<Rightarrow> nat \<Rightarrow> ('c, 'x) team \<Rightarrow> (bool \<times> ('c, 'x) team) res" where
  "team_round ex out clear page stackSize v S =
     map_res
       (\<lambda>(b, V, w). let S = put_member v V w S in (b, fold give (out (te_shared S)) (S\<lparr>te_shared := clear (te_shared S)\<rparr>)))
       (run_step (ex v) page stackSize (member_env v S) (member v S))"

definition new_team :: "nat \<Rightarrow> nat \<Rightarrow> nat \<Rightarrow> 'x \<Rightarrow> nat \<Rightarrow> ('c, 'x) team" where
  "new_team page stackSize n x s =
     fold (team_start page stackSize) [0..<n]
       \<lparr> te_envs = \<lambda>_. \<lparr>cos = Map.empty, t_curCoroutine = None, s_coroutineId = s\<rparr>,
         te_workers = \<lambda>_. new_Worker x, te_shared = x, te_ids = s \<rparr>"

text \<open>The coroutines of the team: number of the worker and identifier.\<close>

definition team_cos :: "nat \<Rightarrow> ('c, 'x) team \<Rightarrow> (nat \<times> nat) set" where
  "team_cos n S = {(v, j). v < n \<and> j \<in> known (te_envs S v) (te_workers S v)}"

fun task_pairs :: "('c \<Rightarrow> (nat \<times> nat) set) \<Rightarrow> nat \<times> 'c task \<Rightarrow> (nat \<times> nat) set" where
  "task_pairs prefs (v, Task_co j) = {(v, j)}"
| "task_pairs prefs (v, Task_func c) = prefs c"

fun ending_pairs :: "('c \<Rightarrow> (nat \<times> nat) set) \<Rightarrow> 'c ending \<Rightarrow> (nat \<times> nat) set" where
  "ending_pairs prefs (Suspends c) = prefs c"
| "ending_pairs prefs Returns = {}"
| "ending_pairs prefs Throws = {}"

text \<open>Rounds of the workers in any order, tasks given by other threads, and stopped workers.\<close>

inductive team_reach ::
    "(nat \<Rightarrow> nat \<Rightarrow> 'c code \<Rightarrow> ('c, 'x) worker \<Rightarrow> 'c code ending \<times> ('c, 'x) worker) \<Rightarrow> ('x \<Rightarrow> (nat \<times> 'c task) list) \<Rightarrow> ('x \<Rightarrow> 'x) \<Rightarrow>
     ('c \<Rightarrow> (nat \<times> nat) set) \<Rightarrow> nat \<Rightarrow> nat \<Rightarrow> nat \<Rightarrow> 'x \<Rightarrow> ('c, 'x) team \<Rightarrow> bool"
  for ex out clear prefs page stackSize n x where
  te_init: "s + n < size_mod - 1 \<Longrightarrow> team_reach ex out clear prefs page stackSize n x (new_team page stackSize n x s)"
| te_round: "team_reach ex out clear prefs page stackSize n x S \<Longrightarrow> v < n \<Longrightarrow> te_ids S < size_mod - 1 \<Longrightarrow>
    team_round ex out clear page stackSize v S = Inr (False, S') \<Longrightarrow> team_reach ex out clear prefs page stackSize n x S'"
| te_given: "team_reach ex out clear prefs page stackSize n x S \<Longrightarrow> task_pairs prefs (v, t) \<subseteq> team_cos n S \<Longrightarrow>
    team_reach ex out clear prefs page stackSize n x (give (v, t) S)"
| te_halted: "team_reach ex out clear prefs page stackSize n x S \<Longrightarrow>
    team_reach ex out clear prefs page stackSize n x (S\<lparr>te_workers := (te_workers S)(v := wk_stop (te_workers S v))\<rparr>)"

lemma starts_shared: "te_shared (fold (team_start page stackSize) vs S) = te_shared S"
  by (induction vs arbitrary: S) (simp_all add: team_start_def run_start_def put_member_def member_def split: prod.splits)

lemma new_team_shared: "te_shared (new_team page stackSize n x s) = x"
  by (simp add: new_team_def starts_shared)

section \<open>References of one member\<close>

text \<open>
  To a member \<open>v\<close>, a set of references is its own coroutines among them; a reference to a coroutine of another worker
  that does not exist counts as the identifier 0, which no coroutine has.
\<close>

definition member_refs :: "nat \<Rightarrow> (nat \<times> nat) set \<Rightarrow> (nat \<times> nat) set \<Rightarrow> nat set" where
  "member_refs v K P = {j. (v, j) \<in> P} \<union> {j. j = 0 \<and> (\<exists>p\<in>P. fst p \<noteq> v \<and> p \<notin> K)}"

lemma member_refs_mono: "P \<subseteq> insert (v, i) Q \<Longrightarrow> member_refs v K P \<subseteq> insert i (member_refs v K Q)"
  by (auto simp: member_refs_def)

lemma member_refs_mono0: "P \<subseteq> Q \<Longrightarrow> member_refs v K P \<subseteq> member_refs v K Q"
  by (auto simp: member_refs_def)

lemma member_refs_anti: "K \<subseteq> K' \<Longrightarrow> member_refs v K' P \<subseteq> member_refs v K P"
  by (auto simp: member_refs_def)

lemma member_refs_Un: "member_refs v K (P \<union> Q) = member_refs v K P \<union> member_refs v K Q"
  by (auto simp: member_refs_def)

lemma member_refs_empty [simp]: "member_refs v K {} = {}"
  by (simp add: member_refs_def)

lemma task_ref_member: "task_ref (\<lambda>c. member_refs v K (prefs c)) t = member_refs v K (task_pairs prefs (v, t))"
  by (cases t) (auto simp: member_refs_def)

lemma task_refs_member:
  "task_refs (\<lambda>c. member_refs v K (prefs c)) ts = member_refs v K (\<Union>t\<in>set ts. task_pairs prefs (v, t))"
  by (induction ts) (simp_all add: task_ref_member member_refs_Un)

lemma ending_refs_member: "ending_refs (\<lambda>c. member_refs v K (prefs c)) e = member_refs v K (ending_pairs prefs e)"
  by (cases e) auto

lemma member_refs_known:
  "member_refs v K P \<subseteq> known V w \<longleftrightarrow> (\<forall>p\<in>P. if fst p = v then snd p \<in> known V w else p \<in> K)"
proof -
  have "0 \<notin> known V w" by (simp add: known_def live_def)
  then show ?thesis by (auto simp: member_refs_def split: if_splits)
qed

lemma known_ids [simp]: "known (V\<lparr>s_coroutineId := s\<rparr>) w = known V w" "known V (w\<lparr>outside := x\<rparr>) = known V w"
  by (auto simp: known_def live_def)

lemma member_refs_cos:
  "v < n \<Longrightarrow> member_refs v (team_cos n S) P \<subseteq> known (te_envs S v) (te_workers S v) \<longleftrightarrow> P \<subseteq> team_cos n S"
  unfolding member_refs_known by (auto simp: team_cos_def split: if_splits)

lemma known_give: "known V (te_workers (give p S) v) = known V (te_workers S v)"
  by (simp add: give_def known_def addTask_def addTaskNoLock_def wk_notify_def split: option.split)

lemma team_cos_give [simp]: "team_cos n (give p S) = team_cos n S"
  by (auto simp: team_cos_def known_give) (simp_all add: give_def)

section \<open>Invariant\<close>

text \<open>An invariant of one worker that survives what the others do: they add coroutines and change the shared state.\<close>

lemma wk_inv_others:
  assumes "wk_inv crefs refs ok V w" "\<And>c. crefs' c \<subseteq> crefs c" "refs' x \<subseteq> known V w" "ok x" "s_coroutineId V \<le> s"
  shows "wk_inv crefs' refs' ok (V\<lparr>s_coroutineId := s\<rparr>) (w\<lparr>outside := x\<rparr>)"
proof -
  have b: "wk_base crefs refs ok V w" "slot_ok V w" using assms(1) by (simp_all add: wk_inv_def)
  have same: "live i (V\<lparr>s_coroutineId := s\<rparr>) = live i V" "state_of i (V\<lparr>s_coroutineId := s\<rparr>) = state_of i V"
    "code_of i (V\<lparr>s_coroutineId := s\<rparr>) = code_of i V" for i
    by (simp_all add: live_def state_of_def code_of_def)
  have t: "task_refs crefs' ts \<subseteq> task_refs crefs ts" for ts
  proof (induction ts)
    case (Cons t ts)
    have "task_ref crefs' t \<subseteq> task_ref crefs t" using assms(2) by (cases t) auto
    with Cons show ?case by auto
  qed simp
  have "co_inv (V\<lparr>s_coroutineId := s\<rparr>)" using b(1) assms(5) co_inv_ids [of V s] by (simp add: wk_base_def)
  moreover have "task_refs crefs' (tasks w) \<subseteq> known V w" using b(1) t [of "tasks w"] by (auto simp: wk_base_def)
  moreover have "code_of i V = Some (User c) \<Longrightarrow> crefs' c \<subseteq> known V w" for i c
    using b(1) assms(2) [of c] unfolding wk_base_def by blast
  ultimately show ?thesis
    using b assms(3,4) unfolding wk_inv_def wk_base_def slot_ok_def same known_ids by simp
qed

definition team_inv ::
    "('c \<Rightarrow> (nat \<times> nat) set) \<Rightarrow> ('x \<Rightarrow> (nat \<times> nat) set) \<Rightarrow> ('x \<Rightarrow> bool) \<Rightarrow> nat \<Rightarrow> ('c, 'x) team \<Rightarrow> bool" where
  "team_inv prefs xrefs ok n S \<longleftrightarrow>
     (\<forall>v<n. wk_inv (\<lambda>c. member_refs v (team_cos n S) (prefs c)) (\<lambda>x. member_refs v (team_cos n S) (xrefs x)) ok
        (member_env v S) (member v S)) \<and>
     (\<forall>u<n. \<forall>v<n. \<forall>j. live j (te_envs S u) \<and> live j (te_envs S v) \<longrightarrow> u = v)"

lemma live_ids [simp]: "live j (V\<lparr>s_coroutineId := s\<rparr>) = live j V"
  by (simp add: live_def)

lemma team_invD:
  assumes "team_inv prefs xrefs ok n S" "v < n"
  shows "ok (te_shared S)" "xrefs (te_shared S) \<subseteq> team_cos n S" "live j (te_envs S v) \<Longrightarrow> j \<le> te_ids S"
proof -
  have b: "wk_base (\<lambda>c. member_refs v (team_cos n S) (prefs c)) (\<lambda>x. member_refs v (team_cos n S) (xrefs x)) ok (member_env v S) (member v S)"
    using assms by (simp add: team_inv_def wk_inv_def)
  show "ok (te_shared S)" using b by (simp add: wk_base_def member_def)
  show "xrefs (te_shared S) \<subseteq> team_cos n S"
    using b member_refs_cos [OF assms(2), of S "xrefs (te_shared S)"] by (simp add: wk_base_def member_def member_env_def)
  have "co_inv (member_env v S)" using b by (simp add: wk_base_def)
  then show "live j (te_envs S v) \<Longrightarrow> j \<le> te_ids S"
    using co_inv_ok [of "member_env v S" j] by (auto simp: live_def member_env_def)
qed

lemma team_inv_home:
  "team_inv prefs xrefs ok n S \<Longrightarrow> u < n \<Longrightarrow> v < n \<Longrightarrow> live j (te_envs S u) \<Longrightarrow> live j (te_envs S v) \<Longrightarrow> u = v"
  unfolding team_inv_def by blast

lemma team_inv_give:
  assumes "team_inv prefs xrefs ok n S" "task_pairs prefs p \<subseteq> team_cos n S"
  shows "team_inv prefs xrefs ok n (give p S)"
proof -
  let ?c = "\<lambda>v c. member_refs v (team_cos n S) (prefs c)" and ?r = "\<lambda>v x. member_refs v (team_cos n S) (xrefs x)"
  have e: "member_env v (give p S) = member_env v S" "te_envs (give p S) = te_envs S" for v by (simp_all add: member_env_def give_def)
  have "wk_inv (?c v) (?r v) ok (member_env v S) (member v (give p S))" if "v < n" for v
  proof (cases "fst p = v")
    case True
    have m: "member v (give p S) = addTask (Some (snd p)) (member v S)"
      using True by (simp add: member_def give_def addTask_def addTaskNoLock_def wk_notify_def)
    have "task_ref (?c v) (snd p) \<subseteq> known (member_env v S) (member v S)"
      using member_refs_cos [OF that, of S "task_pairs prefs p"] assms(2) True
      by (cases p) (simp add: task_ref_member member_def member_env_def)
    with assms(1) that wk_inv_addTask show ?thesis unfolding m team_inv_def by blast
  qed (use assms(1) that in \<open>simp add: team_inv_def member_def give_def\<close>)
  then show ?thesis using assms(1) by (simp add: team_inv_def e)
qed

lemma team_inv_gives:
  "team_inv prefs xrefs ok n S \<Longrightarrow> (\<Union>p\<in>set ps. task_pairs prefs p) \<subseteq> team_cos n S \<Longrightarrow>
   team_inv prefs xrefs ok n (fold give ps S) \<and> team_cos n (fold give ps S) = team_cos n S"
  by (induction ps arbitrary: S) (simp_all add: team_inv_give)

text \<open>A step of worker \<open>v\<close> on its own part and the shared state, as seen by the whole team.\<close>

lemma team_inv_put:
  assumes "team_inv prefs xrefs ok n S" "v < n"
    and w: "wk_inv (\<lambda>c. member_refs v (team_cos n S) (prefs c)) (\<lambda>x. member_refs v (team_cos n S) (xrefs x)) ok V w"
    and g: "grows (member_env v S) (member v S) V w" and x: "ok x" "xrefs x \<subseteq> xrefs (outside w)"
  shows "team_inv prefs xrefs ok n ((put_member v V w S)\<lparr>te_shared := x\<rparr>) \<and> xrefs (outside w) \<subseteq> team_cos n (put_member v V w S)"
proof -
  let ?S = "(put_member v V w S)\<lparr>te_shared := x\<rparr>" and ?K = "team_cos n S"
  have id: "te_ids S \<le> s_coroutineId V" "known (te_envs S v) (te_workers S v) \<subseteq> known V w"
    using g grows_known [OF g] by (simp_all add: grows_def member_env_def member_def)
  have K: "?K \<subseteq> team_cos n ?S" "team_cos n ?S = team_cos n (put_member v V w S)"
    using id(2) by (auto simp: team_cos_def put_member_def)
  have "member_refs v ?K (xrefs (outside w)) \<subseteq> known V w" using w by (simp add: wk_inv_def wk_base_def)
  then have X: "xrefs (outside w) \<subseteq> team_cos n ?S"
    unfolding member_refs_known using K(1) assms(2) by (auto simp: team_cos_def put_member_def split: if_splits)
  have "wk_inv (\<lambda>c. member_refs u (team_cos n ?S) (prefs c)) (\<lambda>x. member_refs u (team_cos n ?S) (xrefs x)) ok (member_env u ?S) (member u ?S)"
    if u: "u < n" for u
  proof (cases "u = v")
    case True
    have r: "member_refs v (team_cos n ?S) (xrefs x) \<subseteq> known V w"
      using member_refs_cos [OF assms(2), of ?S "xrefs x"] X x(2) by (simp add: put_member_def)
    have "member_env v ?S = V\<lparr>s_coroutineId := s_coroutineId V\<rparr>" "member v ?S = w\<lparr>outside := x\<rparr>"
      by (simp_all add: member_env_def member_def put_member_def)
    with wk_inv_others [where refs' = "\<lambda>x. member_refs v (team_cos n ?S) (xrefs x)", OF w member_refs_anti [OF K(1)] r x(1) order_refl] True
    show ?thesis by simp
  next
    case False
    have r: "member_refs u (team_cos n ?S) (xrefs x) \<subseteq> known (member_env u S) (member u S)"
      using member_refs_cos [OF u, of ?S "xrefs x"] X x(2) False by (simp add: put_member_def member_env_def member_def)
    have o: "wk_inv (\<lambda>c. member_refs u ?K (prefs c)) (\<lambda>x. member_refs u ?K (xrefs x)) ok (member_env u S) (member u S)"
      using assms(1) u by (simp add: team_inv_def)
    have "s_coroutineId (member_env u S) \<le> s_coroutineId V" using id(1) by (simp add: member_env_def)
    from wk_inv_others [where refs' = "\<lambda>x. member_refs u (team_cos n ?S) (xrefs x)", OF o member_refs_anti [OF K(1)] r x(1) this] False
    show ?thesis by (simp add: member_env_def member_def put_member_def)
  qed
  moreover have "u = u'" if "u < n" "u' < n" "live j (te_envs ?S u)" "live j (te_envs ?S u')" for u u' j
  proof -
    have "live j (te_envs S u) \<or> u = v \<and> te_ids S < j" "live j (te_envs S u') \<or> u' = v \<and> te_ids S < j"
      using that g by (auto simp: put_member_def grows_def member_env_def split: if_splits)
    with that(1,2) team_invD(3) [OF assms(1)] team_inv_home [OF assms(1)] show ?thesis by (metis linorder_not_less)
  qed
  ultimately show ?thesis using X K(2) by (auto simp: team_inv_def)
qed

section \<open>What the team relies on\<close>

text \<open>
  \<open>prefs c\<close> are the coroutines, with their workers, that the code \<open>c\<close> can hand to a queue, \<open>xrefs x\<close> those the shared state holds.
  Code that runs as coroutine \<open>i\<close> of worker \<open>v\<close> may hold on to itself, to those it was given and to those in the shared state.
\<close>

locale team_guest =
  fixes user :: "nat \<Rightarrow> ('c, 'x) user_code" and expiry :: "nat \<Rightarrow> 'x \<Rightarrow> int \<times> 'x" and poll :: "nat \<Rightarrow> int \<Rightarrow> 'x \<Rightarrow> 'c task list \<times> 'x"
    and out :: "'x \<Rightarrow> (nat \<times> 'c task) list" and clear :: "'x \<Rightarrow> 'x"
    and prefs :: "'c \<Rightarrow> (nat \<times> nat) set" and xrefs :: "'x \<Rightarrow> (nat \<times> nat) set" and ok :: "'x \<Rightarrow> bool"
  assumes user_pairs: "ok x \<Longrightarrow> user v i c x = ((e, ts), x') \<Longrightarrow>
      ok x' \<and> (\<Union>t\<in>set ts. task_pairs prefs (v, t)) \<union> ending_pairs prefs e \<union> xrefs x' \<subseteq> insert (v, i) (prefs c \<union> xrefs x)"
    and expiry_pairs: "ok x \<Longrightarrow> expiry v x = (t, x') \<Longrightarrow> ok x' \<and> xrefs x' \<subseteq> xrefs x"
    and poll_pairs: "ok x \<Longrightarrow> poll v t x = (ts, x') \<Longrightarrow> ok x' \<and> (\<Union>t\<in>set ts. task_pairs prefs (v, t)) \<union> xrefs x' \<subseteq> xrefs x"
    and out_pairs: "(\<Union>p\<in>set (out x). task_pairs prefs p) \<subseteq> xrefs x"
    and clear_pairs: "ok x \<Longrightarrow> ok (clear x) \<and> xrefs (clear x) \<subseteq> xrefs x"
begin

sublocale one: guest "user v" "expiry v" "poll v" "\<lambda>c. member_refs v K (prefs c)" "\<lambda>x. member_refs v K (xrefs x)" ok for v K
proof
  show "ok x' \<and> task_refs (\<lambda>c. member_refs v K (prefs c)) ts \<union> ending_refs (\<lambda>c. member_refs v K (prefs c)) e \<union> member_refs v K (xrefs x')
      \<subseteq> insert i (member_refs v K (prefs c) \<union> member_refs v K (xrefs x))"
    if "ok x" "user v i c x = ((e, ts), x')" for i c x e ts x'
    using user_pairs [OF that] unfolding task_refs_member ending_refs_member member_refs_Un [symmetric] by (simp add: member_refs_mono)
  show "ok x' \<and> member_refs v K (xrefs x') \<subseteq> member_refs v K (xrefs x)" if "ok x" "expiry v x = (t, x')" for x t x'
    using expiry_pairs [OF that] by (simp add: member_refs_mono0)
  show "ok x' \<and> task_refs (\<lambda>c. member_refs v K (prefs c)) ts \<union> member_refs v K (xrefs x') \<subseteq> member_refs v K (xrefs x)"
    if "ok x" "poll v t x = (ts, x')" for x t ts x'
    using poll_pairs [OF that] unfolding task_refs_member member_refs_Un [symmetric] by (simp add: member_refs_mono0)
qed

text \<open>A round in a state with the invariant takes the oldest task of its worker and fails no assertion.\<close>

lemma round_ok:
  assumes "team_inv prefs xrefs ok n S" "v < n" "te_ids S < size_mod - 1" "StackAlloc page stackSize \<noteq> 0"
  shows "\<exists>b V w S'. run_step (exec (user v) (expiry v) (poll v)) page stackSize (member_env v S) (member v S) = Inr (b, V, w) \<and>
    team_round (\<lambda>v. exec (user v) (expiry v) (poll v)) out clear page stackSize v S = Inr (b, S') \<and>
    ran w = ran (te_workers S v) @ (case tasks (te_workers S v) of [] \<Rightarrow> [] | t # ts \<Rightarrow> [t]) \<and>
    S' = fold give (out (outside w)) ((put_member v V w S)\<lparr>te_shared := clear (outside w)\<rparr>) \<and> team_inv prefs xrefs ok n S'"
proof -
  have i: "wk_inv (\<lambda>c. member_refs v (team_cos n S) (prefs c)) (\<lambda>x. member_refs v (team_cos n S) (xrefs x)) ok (member_env v S) (member v S)"
    using assms(1,2) by (simp add: team_inv_def)
  have s: "s_coroutineId (member_env v S) < size_mod - 1" using assms(3) by (simp add: member_env_def)
  obtain b V w where r: "run_step (exec (user v) (expiry v) (poll v)) page stackSize (member_env v S) (member v S) = Inr (b, V, w)"
    "wk_inv (\<lambda>c. member_refs v (team_cos n S) (prefs c)) (\<lambda>x. member_refs v (team_cos n S) (xrefs x)) ok V w"
    "ran w = ran (member v S) @ (case tasks (member v S) of [] \<Rightarrow> [] | t # ts \<Rightarrow> [t])" "grows (member_env v S) (member v S) V w"
    using one.run_step_ok [OF i s assms(4)] by metis
  have c: "ok (clear (outside w))" "xrefs (clear (outside w)) \<subseteq> xrefs (outside w)"
    using clear_pairs [of "outside w"] r(2) by (simp_all add: wk_inv_def wk_base_def)
  let ?S = "(put_member v V w S)\<lparr>te_shared := clear (outside w)\<rparr>"
  note p = team_inv_put [OF assms(1,2) r(2,4) c]
  then have "(\<Union>p\<in>set (out (outside w)). task_pairs prefs p) \<subseteq> team_cos n ?S"
    using out_pairs [of "outside w"] by (fastforce simp: team_cos_def put_member_def)
  with p team_inv_gives have "team_inv prefs xrefs ok n (fold give (out (outside w)) ?S)" by blast
  with r(1,3) show ?thesis by (simp add: team_round_def member_def put_member_def Let_def)
qed

text \<open>The effect of a round with a function next in the queue, and of one that polls.\<close>

lemma round_func:
  assumes "team_inv prefs xrefs ok n S" "v < n" "te_ids S < size_mod - 1" "StackAlloc page stackSize \<noteq> 0"
    "tasks (te_workers S v) = Task_func f # rest"
  obtains i V w e ts x' where "user v i f (te_shared S) = ((e, ts), x')" "tasks w = rest @ ts" "state_of i V = state_after e"
    "\<And>c. e = Suspends c \<Longrightarrow> code_of i V = Some (User c)"
    "team_round (\<lambda>v. exec (user v) (expiry v) (poll v)) out clear page stackSize v S =
       Inr (False, fold give (out x') ((put_member v V w S)\<lparr>te_shared := clear x'\<rparr>))"
proof -
  have "wk_inv (\<lambda>c. member_refs v (team_cos n S) (prefs c)) (\<lambda>x. member_refs v (team_cos n S) (xrefs x)) ok (member_env v S) (member v S)"
    "s_coroutineId (member_env v S) < size_mod - 1" "tasks (member v S) = Task_func f # rest"
    using assms(1-3,5) by (simp_all add: team_inv_def member_env_def member_def)
  then obtain i V w e ts x' where
    "run_step (exec (user v) (expiry v) (poll v)) page stackSize (member_env v S) (member v S) = Inr (False, V, w)"
    "user v i f (outside (member v S)) = ((e, ts), x')" "tasks w = rest @ ts" "outside w = x'" "state_of i V = state_after e"
    "\<And>c. e = Suspends c \<Longrightarrow> code_of i V = Some (User c)"
    by (rule one.run_step_func [OF _ _ assms(4)]) (rule that)
  with that show ?thesis by (simp add: team_round_def member_def put_member_def Let_def)
qed

lemma round_idle:
  assumes "team_inv prefs xrefs ok n S" "v < n" "tasks (te_workers S v) = []" "state_of (idleCo (te_workers S v)) (te_envs S v) \<noteq> DONE"
    "expiry v (te_shared S) = (t, x1)" "t \<noteq> -1" "poll v (as_int t) x1 = (ts, x')"
  obtains V w where "tasks w = ts"
    "team_round (\<lambda>v. exec (user v) (expiry v) (poll v)) out clear page stackSize v S =
       Inr (False, fold give (out x') ((put_member v V w S)\<lparr>te_shared := clear x'\<rparr>))"
proof -
  have "wk_inv (\<lambda>c. member_refs v (team_cos n S) (prefs c)) (\<lambda>x. member_refs v (team_cos n S) (xrefs x)) ok (member_env v S) (member v S)"
    "tasks (member v S) = []" "state_of (idleCo (member v S)) (member_env v S) \<noteq> DONE" "expiry v (outside (member v S)) = (t, x1)"
    using assms(1-5) by (simp_all add: team_inv_def member_env_def member_def state_of_def)
  from one.run_step_idle [OF this assms(6,7)] obtain V w where
    "run_step (exec (user v) (expiry v) (poll v)) page stackSize (member_env v S) (member v S) = Inr (False, V, w)"
    "tasks w = ts" "outside w = x'" by metis
  with that show ?thesis by (simp add: team_round_def put_member_def Let_def)
qed

lemma start_all:
  assumes "ok x" "xrefs x = {}" "StackAlloc page stackSize \<noteq> 0" "s + n < size_mod - 1" "k \<le> n"
  defines "S \<equiv> \<lambda>k. new_team page stackSize k x s"
  shows "team_inv prefs xrefs ok k (S k) \<and> te_shared (S k) = x \<and> te_ids (S k) = s + k \<and> team_cos k (S k) = {} \<and>
    (\<forall>v\<ge>k. te_envs (S k) v = \<lparr>cos = Map.empty, t_curCoroutine = None, s_coroutineId = s\<rparr> \<and> te_workers (S k) v = new_Worker x)"
  using assms(5)
proof (induction k)
  case 0
  show ?case by (simp add: S_def new_team_def team_inv_def team_cos_def)
next
  case (Suc k)
  then have IH: "team_inv prefs xrefs ok k (S k)" "te_shared (S k) = x" "te_ids (S k) = s + k" "team_cos k (S k) = {}"
    "\<And>v. k \<le> v \<Longrightarrow> te_envs (S k) v = \<lparr>cos = Map.empty, t_curCoroutine = None, s_coroutineId = s\<rparr> \<and> te_workers (S k) v = new_Worker x"
    by auto
  obtain V w where r: "run_start page stackSize (member_env k (S k)) (member k (S k)) = (V, w)" by force
  have S: "S (Suc k) = put_member k V w (S k)" using r by (simp add: S_def new_team_def team_start_def)
  have "s_coroutineId (member_env k (S k)) < size_mod - 1" using IH(3) assms(4) Suc.prems by (simp add: member_env_def)
  from one.start_inv [OF _ this assms(3) r, of k "{}"] IH assms(1,2)
  have w: "wk_inv (\<lambda>c. member_refs k {} (prefs c)) (\<lambda>x. member_refs k {} (xrefs x)) ok V w" "s_coroutineId V = s + k + 1" "known V w = {}"
    "outside w = x" "\<And>j. live j V \<longleftrightarrow> j = s + k + 1"
    by (simp_all add: member_env_def member_def new_Worker_def)
  have c: "team_cos (Suc k) (S (Suc k)) = {}" using IH(4) w(3) by (auto simp: team_cos_def S put_member_def less_Suc_eq)
  have "wk_inv (\<lambda>c. member_refs v {} (prefs c)) (\<lambda>x. member_refs v {} (xrefs x)) ok (member_env v (S (Suc k))) (member v (S (Suc k)))"
    if "v < Suc k" for v
  proof (cases "v = k")
    case True
    then show ?thesis using w(1) by (simp add: S member_env_def member_def put_member_def)
  next
    case False
    then have "wk_inv (\<lambda>c. member_refs v {} (prefs c)) (\<lambda>x. member_refs v {} (xrefs x)) ok (member_env v (S k)) (member v (S k))"
      using IH(1,4) that by (simp add: team_inv_def)
    from wk_inv_ids [OF this, of "s + k + 1"] False IH(2,3) w(2,4) show ?thesis by (simp add: S member_env_def member_def put_member_def)
  qed
  moreover have "u = v" if "u < Suc k" "v < Suc k" "live j (te_envs (S (Suc k)) u)" "live j (te_envs (S (Suc k)) v)" for u v j
  proof -
    have "if z = k then j = s + k + 1 else live j (te_envs (S k) z) \<and> j \<le> s + k" if "z < Suc k" "live j (te_envs (S (Suc k)) z)" for z
      using that w(5) team_invD(3) [OF IH(1), of z j] IH(3) by (auto simp: S put_member_def split: if_splits)
    from this [OF that(1,3)] this [OF that(2,4)] that(1,2) team_inv_home [OF IH(1), of u v j] show ?thesis
      by (auto split: if_splits)
  qed
  ultimately have "team_inv prefs xrefs ok (Suc k) (S (Suc k))" unfolding team_inv_def c by blast
  with IH(5) w(2,4) c show ?case unfolding S put_member_def by simp
qed

lemma reach_team_inv:
  assumes "ok x" "xrefs x = {}" "StackAlloc page stackSize \<noteq> 0"
    and "team_reach (\<lambda>v. exec (user v) (expiry v) (poll v)) out clear prefs page stackSize n x S"
  shows "team_inv prefs xrefs ok n S"
  using assms(4)
proof (induction rule: team_reach.induct)
  case (te_init s)
  from start_all [OF assms(1-3) te_init order_refl] show ?case by simp
next
  case (te_round S v S')
  from round_ok [OF te_round(5,2,3) assms(3)] te_round(4) show ?case by auto
next
  case (te_given S v t)
  then show ?case by (simp add: team_inv_give)
next
  case (te_halted S v)
  let ?S = "S\<lparr>te_workers := (te_workers S)(v := wk_stop (te_workers S v))\<rparr>"
  have "known V (te_workers ?S u) = known V (te_workers S u)" for V u by (simp add: known_def wk_stop_def wk_notify_def)
  then have "team_cos n ?S = team_cos n S" by (simp add: team_cos_def)
  moreover have "member u ?S = (if u = v then wk_stop (member v S) else member u S)" "member_env u ?S = member_env u S" for u
    by (simp_all add: member_def member_env_def wk_stop_def wk_notify_def)
  ultimately show ?case using te_halted(2) by (auto simp: team_inv_def intro: wk_inv_stop)
qed

end

end
