(* ===== verification/Team_System.thy ===== *)
theory Team_System
  imports Worker_Team Worker_Pool Worker_System Scheduler
begin

text \<open>
  The workers of a scheduler with their real surroundings: each has the poller of \<open>epoller.cc\<close>, all share the timers of
  \<open>timer.cc\<close>, the \<open>timerInfo\<close> objects of \<open>do_io\<close> and the turn of \<open>scheduler.cc\<close>. User code is given as programs of the calls
  that involve other workers: sleeping (a timer that puts the coroutine back into the queue of its worker, from whichever
  worker finds the timer due), the blocking loop of \<open>do_io\<close> with its timeout, and \<open>Scheduler::addTask\<close>.
\<close>

section \<open>Programs\<close>

text \<open>
  \<open>J_io fd rd timeout k p q\<close> is a transfer on \<open>fd\<close> that fails \<open>k\<close> times with \<open>EAGAIN\<close> before it succeeds; then \<open>p\<close> goes on, or \<open>q\<close>
  when it fails or times out. \<open>J_back\<close> is \<open>do_io\<close> after the switch back, with the addresses of its timer and its \<open>timerInfo\<close>;
  \<open>J_wake\<close> and \<open>J_timeout\<close> are the callbacks of the timers.
\<close>

datatype job =
    J_end | J_fail | J_wake nat nat | J_sleep sleep_call job | J_io nat bool int nat job job
  | J_back nat nat nat bool int nat job job | J_timeout nat nat bool | J_spawn job job

record shared =
  sh_pool :: "job pool"
  sh_sched :: scheduler
  sh_polls :: "nat \<Rightarrow> (int \<times> ready list) list"
  sh_now :: int
  sh_next :: nat
  sh_out :: "(nat \<times> job task) list"

text \<open>Tasks for worker \<open>v\<close> itself, and for others.\<close>

definition send :: "nat \<Rightarrow> (nat \<times> job task) list \<Rightarrow> shared \<Rightarrow> job task list \<times> shared" where
  "send v ps x = (map snd (filter (\<lambda>p. fst p = v) ps), x\<lparr>sh_out := sh_out x @ filter (\<lambda>p. fst p \<noteq> v) ps\<rparr>)"

definition clear_out :: "shared \<Rightarrow> shared" where
  "clear_out x = x\<lparr>sh_out := []\<rparr>"

definition event_type :: "bool \<Rightarrow> 32 word" where
  "event_type rd = (if rd then EPOLLIN else EPOLLOUT)"

fun job_timer :: "io_timer \<Rightarrow> job" where
  "job_timer (IO_timeout ti fd type) = J_timeout ti fd (type = EPOLLIN)"

definition job_sleep :: "nat \<Rightarrow> nat \<Rightarrow> int \<Rightarrow> shared \<Rightarrow> shared" where
  "job_sleep v i ms x =
     x\<lparr>sh_pool := (sh_pool x)\<lparr>po_tm := addTimer (sh_now x) (sh_next x) ms (Some (J_wake v i)) False (po_tm (sh_pool x))\<rparr>,
       sh_next := sh_next x + 1\<rparr>"

text \<open>\<open>do_io\<close> at \<open>EAGAIN\<close>: the coroutine waits, or registering fails and the call returns -1.\<close>

definition job_block ::
    "nat \<Rightarrow> nat \<Rightarrow> nat \<Rightarrow> nat \<Rightarrow> bool \<Rightarrow> int \<Rightarrow> nat \<Rightarrow> job \<Rightarrow> job \<Rightarrow> shared \<Rightarrow> job ending \<times> shared + shared" where
  "job_block v i ti fd rd timeout k p q x =
     (if fd < 2147483648
      then case io_block job_timer v i fd (event_type rd) timeout (sh_now x) (sh_next x) ti (sh_pool x) of
             Inr (True, P) \<Rightarrow>
               Inl (Suspends (J_back (sh_next x) ti fd rd timeout k p q), x\<lparr>sh_pool := P, sh_next := sh_next x + 1\<rparr>)
           | Inr (False, P) \<Rightarrow> Inr (x\<lparr>sh_pool := P, sh_next := sh_next x + 1\<rparr>)
           | Inl _ \<Rightarrow> Inl (Throws, x)
      else Inl (Throws, x))"

definition io_return :: "nat \<Rightarrow> shared \<Rightarrow> shared" where
  "io_return ti x = x\<lparr>sh_pool := (sh_pool x)\<lparr>po_tinfo := (po_tinfo (sh_pool x))(ti := None)\<rparr>\<rparr>"

fun job_run :: "nat \<Rightarrow> (job, shared) user_code" where
  "job_run v i J_end x = ((Returns, []), x)"
| "job_run v i J_fail x = ((Throws, []), x)"
| "job_run v i (J_wake u j) x = (let (ts, x) = send v [(u, Task_co j)] x in ((Returns, ts), x))"
| "job_run v i (J_sleep c p) x = ((Suspends p, []), job_sleep v i (sleep_ms c) x)"
| "job_run v i (J_io fd rd timeout k p q) x =
     (case k of
        0 \<Rightarrow> job_run v i p x
      | Suc k \<Rightarrow>
          (case job_block v i (sh_next x) fd rd timeout k p q (x\<lparr>sh_next := sh_next x + 1\<rparr>) of
             Inl (e, x) \<Rightarrow> ((e, []), x)
           | Inr x \<Rightarrow> job_run v i q x))"
| "job_run v i (J_back a ti fd rd timeout k p q) x =
     (case io_resume timeout a ti (sh_pool x) of
        (Some e, P) \<Rightarrow> job_run v i q (x\<lparr>sh_pool := P\<rparr>)
      | (None, P) \<Rightarrow>
          (case k of
             0 \<Rightarrow> job_run v i p (io_return ti (x\<lparr>sh_pool := P\<rparr>))
           | Suc k \<Rightarrow>
               (case job_block v i ti fd rd timeout k p q (x\<lparr>sh_pool := P\<rparr>) of
                  Inl (e, x) \<Rightarrow> ((e, []), x)
                | Inr x \<Rightarrow> job_run v i q x)))"
| "job_run v i (J_timeout ti fd rd) x =
     (case io_timeout v (IO_timeout ti fd (event_type rd)) (sh_pool x) of
        Inl _ \<Rightarrow> ((Throws, []), x)
      | Inr P \<Rightarrow>
          let (ts, x) = send v (drop (length (scheduled (po_ep (sh_pool x) v))) (scheduled (po_ep P v))) (x\<lparr>sh_pool := P\<rparr>)
          in ((Returns, ts), x))"
| "job_run v i (J_spawn p q) x =
     (case sch_addTask (-1) (sh_sched x) of
        Inr (Some u, C) \<Rightarrow>
          let (us, x) = send v [(u, Task_func p)] (x\<lparr>sh_sched := C\<rparr>);
              ((e, ts), x) = job_run v i q x
          in ((e, us @ ts), x)
      | _ \<Rightarrow> ((Throws, []), x))"

definition team_expiry :: "nat \<Rightarrow> shared \<Rightarrow> int \<times> shared" where
  "team_expiry v x =
     (let (t, M) = getExpire (sh_now x) (po_tm (sh_pool x)) in (t, x\<lparr>sh_pool := (sh_pool x)\<lparr>po_tm := M\<rparr>\<rparr>))"

text \<open>As for a single worker, an outcome that is no possible report of the kernel counts as a timeout.\<close>

definition team_poll :: "nat \<Rightarrow> int \<Rightarrow> shared \<Rightarrow> job task list \<times> shared" where
  "team_poll v timeout x =
     (case sh_polls x v of
        [] \<Rightarrow> ([], x)
      | (now, rs) # polls \<Rightarrow>
          (let E = po_ep (sh_pool x) v in
           case pool_wait v now (sh_next x) (if reports_ok E rs then rs else []) (sh_pool x) of
             Inl _ \<Rightarrow> ([], x)
           | Inr P \<Rightarrow>
               send v (drop (length (scheduled E)) (scheduled (po_ep P v)))
                 (x\<lparr>sh_polls := (sh_polls x)(v := polls), sh_now := now, sh_pool := P\<rparr>)))"

section \<open>References\<close>

fun job_refs :: "job \<Rightarrow> (nat \<times> nat) set" where
  "job_refs (J_wake u j) = {(u, j)}"
| "job_refs (J_sleep c p) = job_refs p"
| "job_refs (J_io fd rd timeout k p q) = job_refs p \<union> job_refs q"
| "job_refs (J_back a ti fd rd timeout k p q) = job_refs p \<union> job_refs q"
| "job_refs (J_spawn p q) = job_refs p \<union> job_refs q"
| "job_refs _ = {}"

abbreviation tasks_refs :: "(nat \<times> job task) set \<Rightarrow> (nat \<times> nat) set" where
  "tasks_refs ps \<equiv> \<Union> (task_pairs job_refs ` ps)"

definition pool_refs :: "job pool \<Rightarrow> (nat \<times> nat) set" where
  "pool_refs P = (\<Union>w. tasks_refs (set_mset (waiting (po_ep P w)))) \<union> \<Union> (job_refs ` tm_funcs (po_tm P))"

definition shared_refs :: "shared \<Rightarrow> (nat \<times> nat) set" where
  "shared_refs x = pool_refs (sh_pool x) \<union> tasks_refs (set (sh_out x))"

text \<open>The timers are in order, and their addresses are below the next free one.\<close>

definition tm_fresh :: "nat \<Rightarrow> 'f time_manager \<Rightarrow> bool" where
  "tm_fresh n M \<longleftrightarrow> tm_inv M \<and> dom (objs M) \<subseteq> {..<n}"

definition shared_ok :: "shared \<Rightarrow> bool" where
  "shared_ok x \<longleftrightarrow> (\<forall>w. ep_inv (po_ep (sh_pool x) w)) \<and> tm_fresh (sh_next x) (po_tm (sh_pool x))"

lemma event_type_io [simp]: "io_type (event_type rd)"
  by (simp add: event_type_def io_type_def)

lemma send_refs:
  "send v ps x = (ts, x') \<Longrightarrow> (\<Union>t\<in>set ts. task_pairs job_refs (v, t)) \<union> shared_refs x' \<subseteq> tasks_refs (set ps) \<union> shared_refs x"
  by (auto simp: send_def shared_refs_def)

lemma send_pool: "send v ps x = (ts, x') \<Longrightarrow> sh_pool x' = sh_pool x \<and> sh_next x' = sh_next x"
  by (auto simp: send_def)

lemma addTimer_funcs: "tm_funcs (addTimer now a ms (Some f) r M) \<subseteq> insert f (tm_funcs M)"
  by (auto simp: addTimer_def Let_def tm_funcs_def split: if_splits)

lemma cancel_funcs: "tm_funcs (snd (cancel a M)) \<subseteq> tm_funcs M"
  by (auto simp: cancel_def Let_def tm_funcs_def split: option.splits if_splits)

lemma fresh_add: "tm_fresh n M \<Longrightarrow> tm_fresh (n + 1) (addTimer now n ms (Some f) False M)"
  using addTimer_inv [of M n now ms f False] by (auto simp: tm_fresh_def addTimer_def Let_def less_Suc_eq)

lemma fresh_cancel: "tm_fresh n M \<Longrightarrow> tm_fresh n (snd (cancel a M))"
proof -
  have "dom (objs (snd (cancel a M))) = dom (objs M)" by (auto simp: cancel_def Let_def split: option.splits if_splits)
  then show "tm_fresh n M \<Longrightarrow> tm_fresh n (snd (cancel a M))" by (simp add: tm_fresh_def cancel_inv)
qed

lemma fresh_le: "tm_fresh n M \<Longrightarrow> n \<le> m \<Longrightarrow> tm_fresh m M"
  by (auto simp: tm_fresh_def)

lemma fresh_expired: "tm_fresh n M \<Longrightarrow> tm_fresh n (snd (expiredFunctions now n M))"
proof -
  assume f: "tm_fresh n M"
  then have "n \<notin> dom (objs M)" by (auto simp: tm_fresh_def)
  with f have e: "tm_inv (snd (expiredFunctions now n M))" "objs (snd (expiredFunctions now n M)) a = None \<longleftrightarrow> objs M a = None" for a
    using expired_pass [of M n now] by (simp_all add: tm_fresh_def)
  with f show ?thesis by (simp add: tm_fresh_def dom_def)
qed

lemma pool_refs_change:
  assumes "po_ep P' = (po_ep P)(v := E)" "tasks_refs (set_mset (waiting E)) \<subseteq> A \<union> pool_refs P"
    "\<Union> (job_refs ` tm_funcs (po_tm P')) \<subseteq> A \<union> pool_refs P"
  shows "pool_refs P' \<subseteq> A \<union> pool_refs P"
proof -
  have "tasks_refs (set_mset (waiting (po_ep P w))) \<subseteq> pool_refs P" for w unfolding pool_refs_def by blast
  then have "tasks_refs (set_mset (waiting (po_ep P' w))) \<subseteq> A \<union> pool_refs P" for w using assms(1,2) by (cases "w = v") auto
  with assms(3) show ?thesis by (subst pool_refs_def) blast
qed

lemma pool_refs_parts:
  "tasks_refs (set_mset (waiting (po_ep P v))) \<subseteq> pool_refs P" "\<Union> (job_refs ` tm_funcs (po_tm P)) \<subseteq> pool_refs P"
  unfolding pool_refs_def by blast+

lemma pool_refs_tm: "tm_funcs M \<subseteq> tm_funcs (po_tm P) \<Longrightarrow> pool_refs (P\<lparr>po_tm := M\<rparr>) \<subseteq> pool_refs P"
  by (auto simp: pool_refs_def)

lemma pool_refs_tinfo [simp]: "pool_refs (P\<lparr>po_tinfo := t\<rparr>) = pool_refs P"
  by (simp add: pool_refs_def)

lemma io_resume_refs:
  "io_resume timeout a ti P = (r, P') \<Longrightarrow> po_ep P' = po_ep P \<and> pool_refs P' \<subseteq> pool_refs P \<and> (tm_fresh n (po_tm P) \<longrightarrow> tm_fresh n (po_tm P'))"
  using pool_refs_tm [OF cancel_funcs, of a P] fresh_cancel [of n "po_tm P" a] by (auto simp: io_resume_def Let_def split: option.splits if_splits)

lemma io_block_refs:
  assumes "\<forall>w. ep_inv (po_ep P w)" "fd < 2147483648" "io_block job_timer v i fd (event_type rd) timeout now a ti P = Inr (b, P')"
  shows "(\<forall>w. ep_inv (po_ep P' w)) \<and> pool_refs P' \<subseteq> insert (v, i) (pool_refs P) \<and> (tm_fresh a (po_tm P) \<longrightarrow> tm_fresh (a + 1) (po_tm P'))"
proof -
  define f where "f = job_timer (IO_timeout ti fd (event_type rd))"
  define M where "M = (if timeout \<noteq> -1 then addTimer now a timeout (Some f) False (po_tm P) else po_tm P)"
  obtain E where E: "addEvent fd (event_type rd) None v i (po_ep P v) = Inr (b, E)" "po_ep P' = (po_ep P)(v := E)"
    "po_tm P' = (if b \<or> timeout = -1 then M else snd (cancel a M))"
    using assms(3) unfolding M_def f_def
    by (auto simp: io_block_def Worker_AddEvent_def on_worker_def Let_def map_res_Inr_iff split: if_splits)
  have "fd < length (ioEvents (po_ep P v)) \<or> 2 \<le> fd"
    using addEvent_fault [of "po_ep P v" fd] E(1) by (metis Inl_Inr_False not_le)
  from addEvent_ok [OF assms(1) [rule_format] event_type_io this assms(2), of rd None v i] E(1) have
    e: "ep_inv E" "waiting E = (if b then add_mset (v, new_task None i) (waiting (po_ep P v)) else waiting (po_ep P v))"
    by (metis Inr_inject prod.inject)+
  have "tm_funcs M \<subseteq> insert f (tm_funcs (po_tm P))" 
    unfolding M_def using addTimer_funcs [of now a timeout f False "po_tm P"] by auto
  then have t: "tm_funcs (po_tm P') \<subseteq> insert f (tm_funcs (po_tm P))" using cancel_funcs [of a M] E(3) by (simp split: if_splits) blast
  moreover have "job_refs f = {}" by (simp add: f_def)
  ultimately have "\<Union> (job_refs ` tm_funcs (po_tm P')) \<subseteq> {(v, i)} \<union> pool_refs P" using pool_refs_parts(2) [of P] by fastforce
  moreover have "tasks_refs (set_mset (waiting E)) \<subseteq> {(v, i)} \<union> pool_refs P"
    using e(2) pool_refs_parts(1) [where P = P and v = v] by (auto simp: new_task_def split: if_splits)
  ultimately have "pool_refs P' \<subseteq> {(v, i)} \<union> pool_refs P" using pool_refs_change [OF E(2)] by blast
  moreover have "tm_fresh a (po_tm P) \<Longrightarrow> tm_fresh (a + 1) (po_tm P')"
    using E(3) fresh_add [of a "po_tm P" now timeout f] fresh_cancel [of "a + 1" M a] fresh_le [of a "po_tm P" "a + 1"]
    by (auto simp: M_def split: if_splits)
  ultimately show ?thesis using assms(1) E(2) e(1) by simp
qed

lemma job_block_refs:
  assumes "shared_ok x"
  shows "job_block v i ti fd rd timeout k p q x = Inl (e, x') \<Longrightarrow> shared_ok x' \<and>
      ending_pairs job_refs e \<union> shared_refs x' \<subseteq> insert (v, i) (job_refs p \<union> job_refs q \<union> shared_refs x)"
    "job_block v i ti fd rd timeout k p q x = Inr x' \<Longrightarrow> shared_ok x' \<and> shared_refs x' \<subseteq> insert (v, i) (shared_refs x)"
  using io_block_refs [OF conjunct1 [OF assms [unfolded shared_ok_def]], of fd v i rd timeout "sh_now x" "sh_next x" ti] assms
  by (fastforce simp: job_block_def shared_ok_def shared_refs_def split: if_splits sum.splits prod.splits bool.splits)+

lemma io_timeout_refs:
  assumes "\<forall>w. ep_inv (po_ep P w)" "io_timeout v (IO_timeout ti fd (event_type rd)) P = Inr P'"
  shows "(\<forall>w. ep_inv (po_ep P' w)) \<and> po_tm P' = po_tm P \<and>
    tasks_refs (set (drop (length (scheduled (po_ep P v))) (scheduled (po_ep P' v)))) \<union> pool_refs P' \<subseteq> pool_refs P"
proof (cases "po_tinfo P ti = Some 0 \<and> registered fd (event_type rd) (po_ep P v)")
  case True
  let ?E = "trigger_one fd (event_type rd) (po_ep P v)"
  let ?p = "(the (ctx_worker (ctx_of (event_type rd) (ioEvents (po_ep P v) ! fd))), ctx_task (ctx_of (event_type rd) (ioEvents (po_ep P v) ! fd)))"
  have P': "P' = P\<lparr>po_tinfo := (po_tinfo P)(ti \<mapsto> ETIMEDOUT), po_ep := (po_ep P)(v := ?E)\<rparr>"
    using io_timeout_runs [of P v "event_type rd" ti fd] True assms by simp
  note t = removal_ok [OF assms(1) [rule_format] conjunct2 [OF True] event_type_io]
  have s: "tasks_refs (insert ?p (set_mset (waiting ?E))) \<subseteq> pool_refs P"
    using pool_refs_parts(1) [of P v] unfolding t(3) by simp
  then have "pool_refs P' \<subseteq> {} \<union> pool_refs P" using pool_refs_parts(2) [of P] by (intro pool_refs_change [of P' P v ?E]) (auto simp: P')
  with s t(1) assms(1) show ?thesis by (simp add: P' trigger_one_def)
next
  case False
  then have "po_ep P' = po_ep P" "pool_refs P' = pool_refs P" "po_tm P' = po_tm P"
    using assms io_timeout_runs [of P v "event_type rd" ti fd] by (auto split: option.splits if_splits)
  with assms(1) show ?thesis by simp
qed

lemma job_sleep_refs: "shared_ok x \<Longrightarrow> shared_ok (job_sleep v i ms x) \<and> shared_refs (job_sleep v i ms x) \<subseteq> insert (v, i) (shared_refs x)"
  using addTimer_funcs [of "sh_now x" "sh_next x" ms "J_wake v i" False "po_tm (sh_pool x)"]
    fresh_add [of "sh_next x" "po_tm (sh_pool x)" "sh_now x" ms "J_wake v i"]
  by (fastforce simp: job_sleep_def shared_ok_def shared_refs_def pool_refs_def)

lemma io_return_refs [simp]: "shared_refs (io_return ti x) = shared_refs x" "shared_ok (io_return ti x) = shared_ok x"
  by (simp_all add: io_return_def shared_refs_def shared_ok_def)

lemma shared_fields [simp]:
  "shared_refs (x\<lparr>sh_next := n\<rparr>) = shared_refs x" "shared_ok x \<Longrightarrow> shared_ok (x\<lparr>sh_next := Suc (sh_next x)\<rparr>)"
  "shared_refs (x\<lparr>sh_sched := C\<rparr>) = shared_refs x" "shared_ok (x\<lparr>sh_sched := C\<rparr>) = shared_ok x"
  by (auto simp: shared_refs_def shared_ok_def fresh_le)

lemma shared_pool:
  assumes "shared_ok x" "po_ep P = po_ep (sh_pool x) \<and> pool_refs P \<subseteq> pool_refs (sh_pool x) \<and> (tm_fresh (sh_next x) (po_tm (sh_pool x)) \<longrightarrow> tm_fresh (sh_next x) (po_tm P))"
  shows "shared_ok (x\<lparr>sh_pool := P\<rparr>) \<and> shared_refs (x\<lparr>sh_pool := P\<rparr>) \<subseteq> shared_refs x"
  using assms by (auto simp: shared_ok_def shared_refs_def)

text \<open>What a piece of code does with references, for the parts that come one after the other.\<close>

definition keeps :: "nat \<Rightarrow> nat \<Rightarrow> (nat \<times> nat) set \<Rightarrow> shared \<Rightarrow> (job ending \<times> job task list) \<times> shared \<Rightarrow> bool" where
  "keeps v i A x r \<longleftrightarrow> (case r of ((e, ts), x') \<Rightarrow> shared_ok x' \<and>
     (\<Union>t\<in>set ts. task_pairs job_refs (v, t)) \<union> ending_pairs job_refs e \<union> shared_refs x' \<subseteq> insert (v, i) (A \<union> shared_refs x))"

lemma keeps_from: "keeps v i A x r \<Longrightarrow> A \<subseteq> B \<Longrightarrow> shared_refs x \<subseteq> insert (v, i) (shared_refs y) \<Longrightarrow> keeps v i B y r"
  unfolding keeps_def by (cases r) (auto split: prod.splits)

lemma job_block_keeps:
  assumes "shared_ok x" "\<And>x'. shared_ok x' \<Longrightarrow> keeps v i (job_refs q) x' (job_run v i q x')"
  shows "keeps v i (job_refs p \<union> job_refs q) x
    (case job_block v i ti fd rd timeout k p q x of Inl (e, x) \<Rightarrow> ((e, []), x) | Inr x \<Rightarrow> job_run v i q x)"
proof (cases "job_block v i ti fd rd timeout k p q x")
  case (Inl r)
  obtain e x' where "r = (e, x')" by force
  with Inl job_block_refs(1) [OF assms(1)] show ?thesis by (simp add: keeps_def)
next
  case (Inr x')
  with job_block_refs(2) [OF assms(1) Inr] assms(2) keeps_from show ?thesis by (metis (no_types, lifting) old.sum.simps(6) sup_ge2)
qed

lemma back_keeps:
  assumes "shared_ok x" "\<And>x. shared_ok x \<Longrightarrow> keeps v i (job_refs p) x (job_run v i p x)"
    "\<And>x. shared_ok x \<Longrightarrow> keeps v i (job_refs q) x (job_run v i q x)"
  shows "keeps v i (job_refs p \<union> job_refs q) x (job_run v i (J_back a ti fd rd timeout k p q) x)"
proof -
  obtain r P where r: "io_resume timeout a ti (sh_pool x) = (r, P)" by force
  note x1 = shared_pool [OF assms(1) io_resume_refs [OF r]]
  note k = keeps_from [OF _ _ subset_insertI2 [OF conjunct2 [OF x1]]]
  show ?thesis
  proof (cases r)
    case None
    show ?thesis
    proof (cases k)
      case 0
      have "keeps v i (job_refs p) (io_return ti (x\<lparr>sh_pool := P\<rparr>)) (job_run v i p (io_return ti (x\<lparr>sh_pool := P\<rparr>)))"
        by (rule assms(2)) (use x1 in simp)
      then have "keeps v i (job_refs p \<union> job_refs q) x (job_run v i p (io_return ti (x\<lparr>sh_pool := P\<rparr>)))"
        by (rule keeps_from) (use x1 in auto)
      with 0 None r show ?thesis by simp
    next
      case (Suc k')
      from k [OF job_block_keeps [OF conjunct1 [OF x1] assms(3)] order_refl] Suc None r show ?thesis by simp
    qed
  next
    case (Some e)
    from k [OF assms(3) [OF conjunct1 [OF x1]] sup_ge2] Some r show ?thesis by simp
  qed
qed

lemma timeout_keeps:
  assumes "shared_ok x"
  shows "keeps v i {} x (job_run v i (J_timeout ti fd rd) x)"
proof (cases "io_timeout v (IO_timeout ti fd (event_type rd)) (sh_pool x)")
  case (Inr P)
  note p = io_timeout_refs [OF conjunct1 [OF assms [unfolded shared_ok_def]] Inr]
  let ?ps = "drop (length (scheduled (po_ep (sh_pool x) v))) (scheduled (po_ep P v))"
  obtain ts x' where s: "send v ?ps (x\<lparr>sh_pool := P\<rparr>) = (ts, x')" by force
  have "shared_refs (x\<lparr>sh_pool := P\<rparr>) \<subseteq> shared_refs x" "tasks_refs (set ?ps) \<subseteq> shared_refs x"
    using p by (auto simp: shared_refs_def)
  with send_refs [OF s] have "(\<Union>t\<in>set ts. task_pairs job_refs (v, t)) \<union> shared_refs x' \<subseteq> shared_refs x" by blast
  moreover have "shared_ok x'" using send_pool [OF s] p assms by (simp add: shared_ok_def)
  ultimately show ?thesis using Inr s by (auto simp: keeps_def)
qed (use assms in \<open>auto simp: keeps_def\<close>)

lemma job_run_keeps: "shared_ok x \<Longrightarrow> keeps v i (job_refs c) x (job_run v i c x)"
proof (induction c arbitrary: x)
  case (J_wake u j)
  obtain ts x' where s: "send v [(u, Task_co j)] x = (ts, x')" by force
  from send_refs [OF s] send_pool [OF s] J_wake s show ?case by (auto simp: keeps_def shared_ok_def)
next
  case (J_sleep c p)
  then show ?case using job_sleep_refs [of x v i "sleep_ms c"] by (auto simp: keeps_def)
next
  case (J_io fd rd timeout k p q)
  show ?case
  proof (cases k)
    case 0
    from J_io.IH(1) [OF J_io.prems] 0 show ?thesis by (auto intro: keeps_from)
  next
    case (Suc k')
    have "keeps v i (job_refs p \<union> job_refs q) (x\<lparr>sh_next := sh_next x + 1\<rparr>)
      (case job_block v i (sh_next x) fd rd timeout k' p q (x\<lparr>sh_next := sh_next x + 1\<rparr>) of Inl (e, x) \<Rightarrow> ((e, []), x) | Inr x \<Rightarrow> job_run v i q x)"
      by (rule job_block_keeps) (use J_io in simp_all)
    from keeps_from [OF this order_refl, of x] Suc show ?thesis by auto
  qed
next
  case (J_back a ti fd rd timeout k p q)
  then show ?case by (simp only: job_refs.simps back_keeps)
next
  case (J_timeout ti fd rd)
  then show ?case by (simp only: job_refs.simps timeout_keeps)
next
  case (J_spawn p q)
  show ?case
  proof (cases "\<exists>u C. sch_addTask (-1) (sh_sched x) = Inr (Some u, C)")
    case True
    then obtain u C where u: "sch_addTask (-1) (sh_sched x) = Inr (Some u, C)" by blast
    obtain us x1 where s: "send v [(u, Task_func p)] (x\<lparr>sh_sched := C\<rparr>) = (us, x1)" by force
    have o: "shared_ok x1" using send_pool [OF s] J_spawn.prems by (simp add: shared_ok_def)
    obtain e ts x' where q: "job_run v i q x1 = ((e, ts), x')" by (metis surj_pair)
    from send_refs [OF s] J_spawn.IH(2) [OF o] q u s show ?thesis by (fastforce simp: keeps_def)
  next
    case False
    then have "job_run v i (J_spawn p q) x = ((Throws, []), x)" by (auto split: sum.splits option.splits)
    with J_spawn.prems show ?thesis by (auto simp: keeps_def)
  qed
qed (auto simp: keeps_def)

lemma team_poll_eq:
  assumes "shared_ok x" "sh_polls x v = (now, rs) # polls"
  obtains E new where "ep_inv E" "\<exists>us. new = timer_tasks v (fst (expiredFunctions now (sh_next x) (po_tm (sh_pool x)))) @ us"
    "mset new + waiting E = waiting (po_ep (sh_pool x) v) + mset (timer_tasks v (fst (expiredFunctions now (sh_next x) (po_tm (sh_pool x)))))"
    "team_poll v t x = send v new (x\<lparr>sh_polls := (sh_polls x)(v := polls), sh_now := now,
       sh_pool := (sh_pool x)\<lparr>po_tm := snd (expiredFunctions now (sh_next x) (po_tm (sh_pool x))), po_ep := (po_ep (sh_pool x))(v := E)\<rparr>\<rparr>)"
proof -
  let ?P = "sh_pool x" and ?E = "po_ep (sh_pool x) v" and ?p = "sh_next x"
  let ?fs = "expiredFunctions now ?p (po_tm ?P)"
  define rs' where "rs' = (if reports_ok ?E rs then rs else [])"
  have "reports_ok ?E rs'" by (simp add: rs'_def reports_ok_def)
  from ep_wait_ok [OF conjunct1 [OF assms(1) [unfolded shared_ok_def], rule_format] this, of now ?p v "po_tm ?P"] obtain E where
    E: "ep_wait now ?p v rs' (po_tm ?P) ?E = Inr (snd ?fs, E)" "ep_inv E"
    "mset (scheduled E) + waiting E = mset (scheduled ?E) + waiting ?E + mset (timer_tasks v (fst ?fs))"
    "\<exists>ts. scheduled E = scheduled ?E @ timer_tasks v (fst ?fs) @ ts" by metis
  then obtain us where us: "scheduled E = scheduled ?E @ timer_tasks v (fst ?fs) @ us" by blast
  have "mset (timer_tasks v (fst ?fs) @ us) + waiting E = waiting ?E + mset (timer_tasks v (fst ?fs))"
    using E(3) unfolding us by (simp add: ac_simps)
  with that [of E "timer_tasks v (fst ?fs) @ us"] E(1,2) us assms(2) show ?thesis
    by (simp add: team_poll_def pool_wait_def rs'_def Let_def)
qed

lemma team_poll_refs:
  assumes "shared_ok x" "team_poll v t x = (ts, x')"
  shows "shared_ok x' \<and> (\<Union>t\<in>set ts. task_pairs job_refs (v, t)) \<union> shared_refs x' \<subseteq> shared_refs x"
proof (cases "sh_polls x v")
  case Nil
  with assms show ?thesis by (simp add: team_poll_def)
next
  case (Cons pl polls)
  obtain now rs where pl: "pl = (now, rs)" by force
  let ?P = "sh_pool x" and ?E = "po_ep (sh_pool x) v" and ?p = "sh_next x"
  let ?fs = "expiredFunctions now ?p (po_tm ?P)"
  obtain E new where E: "ep_inv E" "mset new + waiting E = waiting ?E + mset (timer_tasks v (fst ?fs))"
    "team_poll v t x = send v new (x\<lparr>sh_polls := (sh_polls x)(v := polls), sh_now := now,
       sh_pool := ?P\<lparr>po_tm := snd ?fs, po_ep := (po_ep ?P)(v := E)\<rparr>\<rparr>)"
    by (rule team_poll_eq [OF assms(1) Cons [unfolded pl], of t]) (rule that)
  define P where "P = ?P\<lparr>po_tm := snd ?fs, po_ep := (po_ep ?P)(v := E)\<rparr>"
  define y where "y = x\<lparr>sh_polls := (sh_polls x)(v := polls), sh_now := now, sh_pool := P\<rparr>"
  have s: "send v new y = (ts, x')" using assms(2) E(3) by (simp add: y_def P_def)
  from E(2) have "set_mset (mset new + waiting E) = set_mset (waiting ?E + mset (timer_tasks v (fst ?fs)))" by simp
  then have n: "set new \<union> set_mset (waiting E) = set_mset (waiting ?E) \<union> {(v, Task_func c) |c. Some c \<in> set (fst ?fs)}"
    by (simp add: timer_tasks_set)
  have f: "{c. Some c \<in> set (fst ?fs)} \<union> tm_funcs (snd ?fs) \<subseteq> tm_funcs (po_tm ?P)" by (rule expired_funcs) simp
  have "task_pairs job_refs u \<subseteq> pool_refs ?P" if "u \<in> {(v, Task_func c) |c. Some c \<in> set (fst ?fs)}" for u
  proof -
    from that obtain c where c: "u = (v, Task_func c)" "Some c \<in> set (fst ?fs)" by blast
    then have "c \<in> tm_funcs (po_tm ?P)" using f by blast
    then show ?thesis using c(1) pool_refs_parts(2) [of ?P] by auto
  qed
  then have "tasks_refs (set_mset (waiting ?E) \<union> {(v, Task_func c) |c. Some c \<in> set (fst ?fs)}) \<subseteq> pool_refs ?P"
    using pool_refs_parts(1) [of ?P v] unfolding image_Un Union_Un_distrib by blast
  then have r: "tasks_refs (set new) \<subseteq> pool_refs ?P" "tasks_refs (set_mset (waiting E)) \<subseteq> {} \<union> pool_refs ?P" unfolding n [symmetric] by auto
  have "\<Union> (job_refs ` tm_funcs (po_tm P)) \<subseteq> {} \<union> pool_refs ?P" using f pool_refs_parts(2) [of ?P] by (auto simp: P_def)
  from pool_refs_change [OF _ r(2) this, of v] have "pool_refs P \<subseteq> pool_refs ?P" by (simp add: P_def)
  then have "shared_refs y \<subseteq> shared_refs x" "tasks_refs (set new) \<subseteq> shared_refs x" using r(1) by (auto simp: y_def shared_refs_def)
  moreover have "shared_ok x'" using send_pool [OF s] assms(1) E(1) by (simp add: y_def P_def shared_ok_def fresh_expired)
  ultimately show ?thesis using send_refs [OF s] by blast
qed

lemma team_expiry_refs:
  assumes "shared_ok x" "team_expiry v x = (t, x')"
  shows "shared_ok x' \<and> shared_refs x' \<subseteq> shared_refs x"
proof -
  let ?M = "(po_tm (sh_pool x))\<lparr>needNotify := False\<rparr>"
  have "snd (getExpire (sh_now x) (po_tm (sh_pool x))) = ?M" by (simp add: getExpire_def Let_def split: list.split)
  then have x': "x' = x\<lparr>sh_pool := (sh_pool x)\<lparr>po_tm := ?M\<rparr>\<rparr>" using assms(2) by (auto simp: team_expiry_def split: prod.splits)
  have "tm_funcs ?M \<subseteq> tm_funcs (po_tm (sh_pool x))" by (simp add: tm_funcs_def)
  from shared_pool [OF assms(1), of "(sh_pool x)\<lparr>po_tm := ?M\<rparr>"] pool_refs_tm [OF this] show ?thesis by (simp add: x' tm_fresh_def)
qed

interpretation jobs: team_guest job_run team_expiry team_poll sh_out clear_out job_refs shared_refs shared_ok
proof
  show "shared_ok x' \<and> (\<Union>t\<in>set ts. task_pairs job_refs (v, t)) \<union> ending_pairs job_refs e \<union> shared_refs x'
      \<subseteq> insert (v, i) (job_refs c \<union> shared_refs x)" if "shared_ok x" "job_run v i c x = ((e, ts), x')" for x v i c e ts x'
    using job_run_keeps [OF that(1), of v i c] that(2) by (simp add: keeps_def)
  show "shared_ok (clear_out x) \<and> shared_refs (clear_out x) \<subseteq> shared_refs x" if "shared_ok x" for x
    using that by (simp add: clear_out_def shared_ok_def shared_refs_def)
  show "tasks_refs (set (sh_out x)) \<subseteq> shared_refs x" for x by (simp add: shared_refs_def)
qed (rule team_expiry_refs team_poll_refs; assumption)+

section \<open>The workers of a scheduler\<close>

definition new_shared :: "scheduler \<Rightarrow> (nat \<Rightarrow> bool) \<Rightarrow> (nat \<Rightarrow> (int \<times> ready list) list) \<Rightarrow> shared" where
  "new_shared C p polls =
     \<lparr> sh_pool = \<lparr> po_ep = \<lambda>_. new_Epoller p, po_tm = new_TimeManager, po_tinfo = Map.empty \<rparr>, sh_sched = C, sh_polls = polls,
       sh_now = 0, sh_next = 0, sh_out = [] \<rparr>"

abbreviation job_exec where
  "job_exec \<equiv> \<lambda>v. exec (job_run v) (team_expiry v) (team_poll v)"

abbreviation jobs_round where
  "jobs_round page \<equiv> team_round job_exec sh_out clear_out page kStackSize"

abbreviation jobs_reach where
  "jobs_reach page \<equiv> team_reach job_exec sh_out clear_out job_refs page kStackSize"

lemma new_shared_ok: "shared_ok (new_shared C p polls)" "shared_refs (new_shared C p polls) = {}"
  by (simp_all add: shared_ok_def shared_refs_def pool_refs_def new_shared_def ep_inv_def new_Epoller_def waiting_def tm_funcs_def
      new_TimeManager_def tm_fresh_def tm_inv_def)

lemma jobs_reach_inv:
  "0 < page \<Longrightarrow> jobs_reach page n (new_shared C p polls) S \<Longrightarrow> team_inv job_refs shared_refs shared_ok n S"
  by (rule jobs.reach_team_inv [OF new_shared_ok kStackSize_alloc])


definition shared_example :: shared where
  "shared_example = new_shared
     \<lparr> workerMap = Map.empty, workers = [0, 1], threads = [1], threadNum = 2, sch_index = 0, sch_running = True \<rparr> (\<lambda>_. True) (\<lambda>_. [])"

definition team_example :: "(job, shared) team" where
  "team_example = give (1, Task_func (J_sleep (Sleep_s 1) J_end)) (new_team 4096 kStackSize 2 shared_example 0)"

lemma team_example_state:
  "tasks (te_workers team_example 1) = [Task_func (J_sleep (Sleep_s 1) J_end)]" "ran (te_workers team_example 1) = []" "te_ids team_example = 2"
  by (simp_all add: team_example_def new_team_def team_start_def run_start_def put_member_def member_def member_env_def give_def
      new_Worker_def addTask_def addTaskNoLock_def wk_notify_def upt_conv_Cons numeral_2_eq_2 new_Coroutine_def InitMainCoroutine_def size_add_def)

lemma team_example_reach: "jobs_reach 4096 2 shared_example team_example" "te_shared team_example = shared_example"
proof -
  have "jobs_reach 4096 2 shared_example (new_team 4096 kStackSize 2 shared_example 0)" by (rule te_init) simp
  from te_given [OF this, of 1 "Task_func (J_sleep (Sleep_s 1) J_end)"] show "jobs_reach 4096 2 shared_example team_example"
    by (simp add: team_example_def)
  show "te_shared team_example = shared_example" by (simp add: team_example_def give_def new_team_shared)
qed


section \<open>Sleeping\<close>

lemma give_tasks: "tasks (te_workers (give p S) w) = tasks (te_workers S w) @ (if fst p = w then [snd p] else [])"
  by (simp add: give_def addTask_def addTaskNoLock_def wk_notify_def)

lemma gives_tasks: "tasks (te_workers (fold give ps S) w) = tasks (te_workers S w) @ map snd (filter (\<lambda>p. fst p = w) ps)"
  by (induction ps arbitrary: S) (simp_all add: give_tasks)

lemma gives_shared: "te_shared (fold give ps S) = te_shared S" "te_envs (fold give ps S) = te_envs S"
  by (induction ps arbitrary: S) (simp_all add: give_def)

lemma jobs_out_empty: "jobs_reach page n (new_shared C p polls) S \<Longrightarrow> sh_out (te_shared S) = []"
proof (induction rule: team_reach.induct)
  case (te_init s)
  show ?case by (simp add: new_team_shared new_shared_def)
next
  case (te_round S v S')
  then show ?case by (auto simp: team_round_def map_res_Inr_iff Let_def gives_shared clear_out_def)
next
  case (te_given S v t)
  then show ?case by (simp add: give_def)
qed simp

lemma sleep_starts:
  assumes "0 < page" "jobs_reach page n (new_shared C p polls) S" "v < n" "te_ids S < size_mod - 1"
    "tasks (te_workers S v) = Task_func (J_sleep c q) # rest"
  shows "\<exists>i a S' t. jobs_round page v S = Inr (False, S') \<and> tasks (te_workers S' v) = rest \<and> code_of i (te_envs S' v) = Some (User q) \<and>
    state_of i (te_envs S' v) = SUSPEND \<and> objs (po_tm (sh_pool (te_shared S'))) a = Some t \<and> t_func t = Some (J_wake v i) \<and>
    expire t = sh_now (te_shared S) + sleep_ms c"
proof -
  obtain i V w e ts x' where r: "job_run v i (J_sleep c q) (te_shared S) = ((e, ts), x')" "tasks w = rest @ ts" "state_of i V = state_after e"
    "\<And>c. e = Suspends c \<Longrightarrow> code_of i V = Some (User c)"
    "jobs_round page v S = Inr (False, fold give (sh_out x') ((put_member v V w S)\<lparr>te_shared := clear_out x'\<rparr>))"
    by (rule jobs.round_func [OF jobs_reach_inv [OF assms(1,2)] assms(3,4) kStackSize_alloc [OF assms(1)] assms(5)]) (rule that)
  then have e: "e = Suspends q" "ts = []" "x' = job_sleep v i (sleep_ms c) (te_shared S)" by simp_all
  define S' where "S' = fold give (sh_out x') ((put_member v V w S)\<lparr>te_shared := clear_out x'\<rparr>)"
  have "tasks (te_workers S' v) = rest" "te_envs S' v = V" "te_shared S' = clear_out x'"
    using r(2) e jobs_out_empty [OF assms(2)] by (simp_all add: S'_def gives_tasks gives_shared put_member_def job_sleep_def)
  moreover have "objs (po_tm (sh_pool (clear_out x'))) (sh_next (te_shared S)) =
      Some \<lparr> recursive = False, interval = sleep_ms c, expire = sh_now (te_shared S) + sleep_ms c, t_func = Some (J_wake v i) \<rparr>"
    by (simp add: e(3) clear_out_def job_sleep_def addTimer_def new_Timer_def Let_def)
  moreover have "state_of i V = SUSPEND" "code_of i V = Some (User q)" using r(3,4) e(1) by simp_all
  ultimately have "jobs_round page v S = Inr (False, S') \<and> tasks (te_workers S' v) = rest \<and> code_of i (te_envs S' v) = Some (User q) \<and>
    state_of i (te_envs S' v) = SUSPEND \<and> objs (po_tm (sh_pool (te_shared S'))) (sh_next (te_shared S)) =
      Some \<lparr> recursive = False, interval = sleep_ms c, expire = sh_now (te_shared S) + sleep_ms c, t_func = Some (J_wake v i) \<rparr>"
    using r(5) by (simp add: S'_def)
  then show ?thesis by force
qed

lemma sleep_polled:
  assumes "0 < page" "jobs_reach page n (new_shared C p polls) S" "v < n" "tasks (te_workers S v) = []"
    "state_of (idleCo (te_workers S v)) (te_envs S v) \<noteq> DONE" "sh_polls (te_shared S) v = (now, rs) # ps"
    "objs (po_tm (sh_pool (te_shared S))) a = Some t" "t_func t = Some f" "expire t \<le> now"
  shows "\<exists>S'. jobs_round page v S = Inr (False, S') \<and> Task_func f \<in> set (tasks (te_workers S' v))"
proof -
  note inv = jobs_reach_inv [OF assms(1,2)]
  define x where "x = te_shared S"
  have ok: "shared_ok x" unfolding x_def by (rule team_invD(1) [OF inv assms(3)])
  let ?M = "po_tm (sh_pool x)"
  obtain d x1 where d: "team_expiry v x = (d, x1)" by force
  have x1: "shared_ok x1" "sh_polls x1 = sh_polls x" "objs (po_tm (sh_pool x1)) = objs ?M" "timers (po_tm (sh_pool x1)) = timers ?M"
    using team_expiry_refs [OF ok d] d by (auto simp: team_expiry_def getExpire_def Let_def split: list.splits)
  have "a \<in> set (timers ?M)" using ok assms(7,8) by (auto simp: shared_ok_def tm_fresh_def tm_inv_def x_def)
  then have "d \<noteq> -1" using d by (cases "timers ?M") (auto simp: team_expiry_def getExpire_def Let_def split: if_splits)
  obtain ts x' where ts: "team_poll v (as_int d) x1 = (ts, x')" by force
  obtain E new where new: "\<exists>us. new = timer_tasks v (fst (expiredFunctions now (sh_next x1) (po_tm (sh_pool x1)))) @ us"
    "team_poll v (as_int d) x1 = send v new (x1\<lparr>sh_polls := (sh_polls x1)(v := ps), sh_now := now,
       sh_pool := (sh_pool x1)\<lparr>po_tm := snd (expiredFunctions now (sh_next x1) (po_tm (sh_pool x1))), po_ep := (po_ep (sh_pool x1))(v := E)\<rparr>\<rparr>)"
    by (rule team_poll_eq [OF x1(1), of v now rs ps "as_int d"]) (simp add: x1(2) x_def assms(6), rule that)
  have "tm_inv (po_tm (sh_pool x1))" "sh_next x1 \<notin> dom (objs (po_tm (sh_pool x1)))" using x1(1) by (auto simp: shared_ok_def tm_fresh_def)
  from expired_pass [OF this, of now] \<open>a \<in> set (timers ?M)\<close> assms(7-9)
  have "Some f \<in> set (fst (expiredFunctions now (sh_next x1) (po_tm (sh_pool x1))))"
    by (force simp: x1(3,4) x_def expire_of_def)
  then have "(v, Task_func f) \<in> set new" using new(1) by (auto simp: timer_tasks_set)
  moreover have "ts = map snd (filter (\<lambda>p. fst p = v) new)" using ts unfolding new(2) by (simp add: send_def)
  ultimately have f: "Task_func f \<in> set ts" by force
  obtain V w where "tasks w = ts"
    "jobs_round page v S = Inr (False, fold give (sh_out x') ((put_member v V w S)\<lparr>te_shared := clear_out x'\<rparr>))"
    by (rule jobs.round_idle [OF inv assms(3-5) d [unfolded x_def] \<open>d \<noteq> -1\<close> ts]) (rule that)
  with f show ?thesis by (simp add: gives_tasks put_member_def)
qed

lemma sleep_woken:
  assumes "0 < page" "jobs_reach page n (new_shared C p polls) S" "v < n" "te_ids S < size_mod - 1"
    "tasks (te_workers S v) = Task_func (J_wake w i) # rest"
  shows "\<exists>S'. jobs_round page v S = Inr (False, S') \<and>
    tasks (te_workers S' w) = (if w = v then rest else tasks (te_workers S w)) @ [Task_co i]"
proof -
  obtain k V w' e ts x' where r: "job_run v k (J_wake w i) (te_shared S) = ((e, ts), x')" "tasks w' = rest @ ts"
    "jobs_round page v S = Inr (False, fold give (sh_out x') ((put_member v V w' S)\<lparr>te_shared := clear_out x'\<rparr>))"
    by (rule jobs.round_func [OF jobs_reach_inv [OF assms(1,2)] assms(3,4) kStackSize_alloc [OF assms(1)] assms(5)]) (rule that)
  have ts: "ts = (if w = v then [Task_co i] else [])" "sh_out x' = (if w = v then [] else [(w, Task_co i)])"
    using r(1) jobs_out_empty [OF assms(2)] by (cases "w = v"; clarsimp simp: send_def)+
  show ?thesis unfolding r(3) by (cases "w = v") (simp_all add: give_tasks put_member_def r(2) ts)
qed

text \<open>
  C16: sleeping on a team of workers. A worker that starts a function which sleeps sets a timer to wake the coroutine it runs
  in, and suspends it where it goes on. Whichever worker next polls at or after the deadline with an empty queue gets the
  callback of the timer as a task. And the worker that has this callback at the head of its queue puts the coroutine into the
  queue of the worker it came from, itself or another.
\<close>

theorem sleep_wakes_home:
  assumes "0 < page" "jobs_reach page n (new_shared C p polls) S" "v < n" "te_ids S < size_mod - 1"
  shows "(\<forall>c q rest. tasks (te_workers S v) = Task_func (J_sleep c q) # rest \<longrightarrow>
      (\<exists>i a S' t. jobs_round page v S = Inr (False, S') \<and> tasks (te_workers S' v) = rest \<and> code_of i (te_envs S' v) = Some (User q) \<and>
         state_of i (te_envs S' v) = SUSPEND \<and> objs (po_tm (sh_pool (te_shared S'))) a = Some t \<and> t_func t = Some (J_wake v i) \<and>
         expire t = sh_now (te_shared S) + sleep_ms c)) \<and>
    (\<forall>w i a t now rs ps. objs (po_tm (sh_pool (te_shared S))) a = Some t \<and> t_func t = Some (J_wake w i) \<and> expire t \<le> now \<and>
       sh_polls (te_shared S) v = (now, rs) # ps \<and> tasks (te_workers S v) = [] \<and>
       state_of (idleCo (te_workers S v)) (te_envs S v) \<noteq> DONE \<longrightarrow>
      (\<exists>S'. jobs_round page v S = Inr (False, S') \<and> Task_func (J_wake w i) \<in> set (tasks (te_workers S' v)))) \<and>
    (\<forall>w i rest. tasks (te_workers S v) = Task_func (J_wake w i) # rest \<longrightarrow>
      (\<exists>S'. jobs_round page v S = Inr (False, S') \<and>
         tasks (te_workers S' w) = (if w = v then rest else tasks (te_workers S w)) @ [Task_co i]))"
  using sleep_starts [OF assms] sleep_polled [OF assms(1-3)] sleep_woken [OF assms] by blast

theorem sleep_wakes_home_witness:
  "\<exists>i a S' t. jobs_round 4096 1 team_example = Inr (False, S') \<and> objs (po_tm (sh_pool (te_shared S'))) a = Some t \<and>
     t_func t = Some (J_wake 1 i) \<and> expire t = 1000"
proof -
  have "sh_now (te_shared team_example) = 0" by (simp add: team_example_reach(2) shared_example_def new_shared_def)
  then show ?thesis
    using sleep_wakes_home [OF _ team_example_reach(1) [unfolded shared_example_def], of 1] team_example_state by (simp, blast)
qed

end
