(* ===== verification/Transitions.thy ===== *)
theory Transitions
  imports Main
begin

text \<open>
  Step relations, shared by the theories that let threads interleave: an invariant of the steps holds along
  every run, and a rank that each step lowers makes every run end.
\<close>

locale inv_steps =
  fixes step :: "'s \<Rightarrow> 's \<Rightarrow> bool" and inv :: "'s \<Rightarrow> bool"
  assumes step_inv: "step s s' \<Longrightarrow> inv s \<Longrightarrow> inv s'"
begin

lemma steps_inv: "step\<^sup>*\<^sup>* s s' \<Longrightarrow> inv s \<Longrightarrow> inv s'"
  by (induction rule: rtranclp_induct) (auto intro: step_inv)

end

locale ranked_steps = inv_steps step inv for step :: "'s \<Rightarrow> 's \<Rightarrow> bool" and inv +
  fixes rank :: "'s \<Rightarrow> nat"
  assumes step_rank: "step s s' \<Longrightarrow> inv s \<Longrightarrow> rank s' < rank s"
begin

lemma run_ends: "inv s \<Longrightarrow> \<exists>s'. step\<^sup>*\<^sup>* s s' \<and> (\<nexists>s''. step s' s'')"
proof (induction "rank s" arbitrary: s rule: less_induct)
  case less
  show ?case
  proof (cases "\<exists>s1. step s s1")
    case True
    then obtain s1 where "step s s1" by blast
    with less step_inv step_rank show ?thesis by (meson converse_rtranclp_into_rtranclp)
  qed blast
qed

lemma no_endless_run:
  assumes "inv (f 0)"
  shows "\<exists>i. \<not> step (f i) (f (Suc i))"
proof (rule ccontr)
  assume "\<nexists>i. \<not> step (f i) (f (Suc i))"
  then have f: "step (f i) (f (Suc i))" for i by blast
  have "inv (f i) \<and> rank (f i) + i \<le> rank (f 0)" for i
  proof (induction i)
    case (Suc i)
    with step_rank [OF f, of i] step_inv [OF f, of i] show ?case by auto
  qed (use assms in simp)
  from this [of "Suc (rank (f 0))"] show False by simp
qed

end

end
