(* ===== verification/Scheduler_Life.thy ===== *)
theory Scheduler_Life
  imports Scheduler Transitions
begin

text \<open>
  The life of a scheduler: \<open>Scheduler::startAsync\<close>, \<open>init\<close>, \<open>stop\<close>, \<open>joinThread\<close> and \<open>wait\<close> with the threads they start
  (\<open>src/reyao/scheduler.cc\<close>, \<open>workerthread.cc\<close>, \<open>thread.cc\<close>) and the flag \<open>running_\<close> that \<open>Worker::run\<close> sets on entry and
  \<open>Worker::stop\<close> clears (\<open>worker.cc\<close>). \<open>n\<close> is the number of worker threads; \<open>a\<close> says that \<open>workers_\<close> also holds the main
  worker, which is so for a scheduler made for one thread. What the workers do in their loops is left out:
  a worker whose flag is cleared, and which has no task and no timer, leaves its loop.
\<close>

section \<open>Steps\<close>

text \<open>Where the thread of \<open>init\<close>, a worker thread, and the caller of \<open>stop\<close> are.\<close>

datatype init_pc = Not_started | Creating | Latched | In_loop | Left
datatype worker_pc = Started | Running | Finished
datatype stop_pc = No_stop | Stopping "nat option list" | Joining nat | Stopped

record life =
  lc_init :: init_pc
  lc_threads :: "worker_pc list"
  lc_main :: bool
  lc_flags :: "bool list"
  lc_running :: bool
  lc_initLatch :: int
  lc_quitLatch :: int
  lc_stop :: stop_pc

definition new_life :: life where
  "new_life = \<lparr> lc_init = Not_started, lc_threads = [], lc_main = False, lc_flags = [], lc_running = False,
     lc_initLatch = 1, lc_quitLatch = 1, lc_stop = No_stop \<rparr>"

text \<open>
  \<open>workers_\<close> in the order \<open>stop\<close> goes through it; \<open>None\<close> is the main worker. It is the list the scheduler's own
  \<open>stop\<close> goes through after \<open>init\<close>.
\<close>

definition stop_order :: "nat \<Rightarrow> bool \<Rightarrow> nat option list" where
  "stop_order n a = (if a then [None] else []) @ map Some [0..<n]"

lemma stop_order_workers:
  assumes "new_Scheduler tid k = Inr S" "length tids = threadNum S"
  shows "fst (sch_stop (sch_init tids S)) = 0 # map (case_option 0 Suc) (stop_order (threadNum S) (k = 1))"
proof -
  have "map (case_option 0 Suc) (map Some [0..<threadNum S]) = [1..<threadNum S + 1]"
    by (simp add: map_Suc_upt comp_def)
  with assms init_loop_spec [of 0 tids S] show ?thesis
    by (auto simp: new_Scheduler_def sch_stop_def sch_init_def stop_order_def split: if_splits)
qed

fun clear_flag :: "nat option \<Rightarrow> life \<Rightarrow> life" where
  "clear_flag None R = R\<lparr>lc_main := False\<rparr>"
| "clear_flag (Some i) R = R\<lparr>lc_flags := (lc_flags R)[i := False]\<rparr>"

inductive life_step :: "nat \<Rightarrow> bool \<Rightarrow> life \<Rightarrow> life \<Rightarrow> bool" for n a where
  startAsync: "lc_init R = Not_started \<Longrightarrow> life_step n a R (R\<lparr>lc_init := Creating\<rparr>)"
| init_create: "lc_init R = Creating \<Longrightarrow> length (lc_threads R) < n \<Longrightarrow>
    life_step n a R (R\<lparr>lc_threads := lc_threads R @ [Started], lc_flags := lc_flags R @ [False]\<rparr>)"
| init_latch: "lc_init R = Creating \<Longrightarrow> length (lc_threads R) = n \<Longrightarrow>
    life_step n a R (R\<lparr>lc_init := Latched, lc_running := True, lc_initLatch := lc_initLatch R - 1\<rparr>)"
| main_run: "lc_init R = Latched \<Longrightarrow> life_step n a R (R\<lparr>lc_init := In_loop, lc_main := True\<rparr>)"
| main_leave: "lc_init R = In_loop \<Longrightarrow> \<not> lc_main R \<Longrightarrow> life_step n a R (R\<lparr>lc_init := Left\<rparr>)"
| worker_run: "i < length (lc_threads R) \<Longrightarrow> lc_threads R ! i = Started \<Longrightarrow>
    life_step n a R (R\<lparr>lc_threads := (lc_threads R)[i := Running], lc_flags := (lc_flags R)[i := True]\<rparr>)"
| worker_leave: "i < length (lc_threads R) \<Longrightarrow> lc_threads R ! i = Running \<Longrightarrow> \<not> lc_flags R ! i \<Longrightarrow>
    life_step n a R (R\<lparr>lc_threads := (lc_threads R)[i := Finished]\<rparr>)"
| stop_begin: "lc_stop R = No_stop \<Longrightarrow> lc_initLatch R \<le> 0 \<Longrightarrow> lc_running R \<Longrightarrow>
    life_step n a R (R\<lparr>lc_running := False, lc_main := False, lc_stop := Stopping (stop_order n a)\<rparr>)"
| stop_worker: "lc_stop R = Stopping (w # ws) \<Longrightarrow> life_step n a R ((clear_flag w R)\<lparr>lc_stop := Stopping ws\<rparr>)"
| join_init: "lc_stop R = Stopping [] \<Longrightarrow> lc_init R = Left \<Longrightarrow> life_step n a R (R\<lparr>lc_stop := Joining 0\<rparr>)"
| join_thread: "lc_stop R = Joining k \<Longrightarrow> k < length (lc_threads R) \<Longrightarrow> lc_threads R ! k = Finished \<Longrightarrow>
    life_step n a R (R\<lparr>lc_stop := Joining (k + 1)\<rparr>)"
| quit: "lc_stop R = Joining k \<Longrightarrow> k = length (lc_threads R) \<Longrightarrow>
    life_step n a R (R\<lparr>lc_stop := Stopped, lc_quitLatch := lc_quitLatch R - 1\<rparr>)"

definition life_reach :: "nat \<Rightarrow> bool \<Rightarrow> life \<Rightarrow> bool" where
  "life_reach n a R \<longleftrightarrow> (life_step n a)\<^sup>*\<^sup>* new_life R"

section \<open>Every run ends\<close>

fun init_rank :: "init_pc \<Rightarrow> nat" where
  "init_rank Not_started = 4" | "init_rank Creating = 3" | "init_rank Latched = 2" | "init_rank In_loop = 1" | "init_rank Left = 0"

fun worker_rank :: "worker_pc \<Rightarrow> nat" where
  "worker_rank Started = 2" | "worker_rank Running = 1" | "worker_rank Finished = 0"

fun stop_rank :: "nat \<Rightarrow> stop_pc \<Rightarrow> nat" where
  "stop_rank n No_stop = 2 * n + 5"
| "stop_rank n (Stopping ws) = n + 3 + length ws"
| "stop_rank n (Joining k) = n + 2 - k"
| "stop_rank n Stopped = 0"

definition life_rank :: "nat \<Rightarrow> life \<Rightarrow> nat" where
  "life_rank n R = init_rank (lc_init R) + 3 * (n - length (lc_threads R)) +
     sum_list (map worker_rank (lc_threads R)) + stop_rank n (lc_stop R)"

definition life_inv :: "nat \<Rightarrow> life \<Rightarrow> bool" where
  "life_inv n R \<longleftrightarrow>
     length (lc_flags R) = length (lc_threads R) \<and> length (lc_threads R) \<le> n \<and>
     (lc_init R \<notin> {Not_started, Creating} \<longrightarrow> length (lc_threads R) = n) \<and>
     lc_initLatch R = (if lc_init R \<in> {Not_started, Creating} then 1 else 0) \<and>
     (lc_stop R \<noteq> No_stop \<longrightarrow> lc_init R \<notin> {Not_started, Creating}) \<and>
     (lc_main R \<longrightarrow> lc_init R = In_loop) \<and>
     (\<forall>i<length (lc_threads R). lc_flags R ! i \<longrightarrow> lc_threads R ! i = Running) \<and>
     (\<forall>k. lc_stop R = Joining k \<longrightarrow> k \<le> n \<and> lc_init R = Left \<and> (\<forall>i<k. lc_threads R ! i = Finished)) \<and>
     lc_quitLatch R = (if lc_stop R = Stopped then 0 else 1)"

lemma life_inv_new: "life_inv n new_life"
  by (simp add: life_inv_def new_life_def)

lemma nth_update_False: "xs[i := False] ! j \<Longrightarrow> j < length xs \<Longrightarrow> j \<noteq> i \<and> xs ! j"
  by (cases "i = j") auto

lemma life_step_inv:
  assumes "life_step n a R R'" "life_inv n R"
  shows "life_inv n R'"
  using assms(1)
proof cases
  case (stop_worker w ws)
  with assms(2) show ?thesis by (cases w) (auto simp: life_inv_def dest: nth_update_False)
next
  case (join_thread k)
  with assms(2) show ?thesis by (auto simp: life_inv_def less_Suc_eq)
qed (use assms(2) in \<open>auto simp: life_inv_def nth_append nth_list_update split: if_splits\<close>)

lemma sum_list_update: "i < length xs \<Longrightarrow> sum_list (map f (xs[i := y])) + f (xs ! i) = sum_list (map f xs) + (f y :: nat)"
proof (induction xs arbitrary: i)
  case (Cons x xs)
  then show ?case by (cases i) auto
qed simp

lemma life_step_rank:
  assumes "life_step n a R R'" "life_inv n R"
  shows "life_rank n R' < life_rank n R"
  using assms(1)
proof cases
  case (init_create)
  with assms(2) show ?thesis by (simp add: life_rank_def life_inv_def)
next
  case (worker_run i)
  with sum_list_update [OF worker_run(2), of worker_rank Running] show ?thesis by (simp add: life_rank_def)
next
  case (worker_leave i)
  with sum_list_update [OF worker_leave(2), of worker_rank Finished] show ?thesis by (simp add: life_rank_def)
next
  case (stop_worker w ws)
  then show ?thesis by (cases w) (simp_all add: life_rank_def)
qed (use assms(2) in \<open>auto simp: life_rank_def life_inv_def stop_order_def\<close>)


interpretation life: ranked_steps "life_step n a" "life_inv n" "life_rank n" for n a
  by unfold_locales (blast intro: life_step_inv life_step_rank)+

lemma life_reach_inv: "life_reach n a R \<Longrightarrow> life_inv n R"
  using life.steps_inv life_inv_new unfolding life_reach_def by blast

section \<open>Stopping in time and too late\<close>

text \<open>Some thread has not yet entered its loop, or has entered it after its flag was cleared.\<close>

definition late :: "life \<Rightarrow> bool" where
  "late R \<longleftrightarrow> lc_main R \<or> lc_init R = Latched \<or>
     (\<exists>i<length (lc_threads R). lc_flags R ! i \<or> lc_threads R ! i = Started)"

fun all_told :: "stop_pc \<Rightarrow> bool" where
  "all_told (Stopping ws) = (ws = [])"
| "all_told (Joining k) = True"
| "all_told p = False"

lemma worker_leave_late:
  assumes "i < length (lc_threads R)" "lc_threads R ! i = Running"
  shows "late (R\<lparr>lc_threads := (lc_threads R)[i := Finished]\<rparr>) = late R"
proof -
  have "(lc_threads R)[i := Finished] ! j = Started \<longleftrightarrow> lc_threads R ! j = Started" for j
    using assms by (cases "i = j") auto
  then show ?thesis by (simp add: late_def)
qed

lemma late_step:
  assumes "life_step n a R R'" "life_inv n R" "all_told (lc_stop R)" "late R"
  shows "all_told (lc_stop R') \<and> late R'"
  using assms(1)
proof cases
  case (worker_run i)
  with assms(2,3) show ?thesis by (auto simp: late_def life_inv_def)
next
  case (worker_leave i)
  with assms(3,4) show ?thesis by (simp add: worker_leave_late)
next
  case (quit k)
  with assms(2,4) show ?thesis by (fastforce simp: late_def life_inv_def)
qed (use assms(2-4) in \<open>auto simp: late_def life_inv_def\<close>)

lemma in_time_step:
  assumes "life_step n a R R'" "life_inv n R" "all_told (lc_stop R) \<or> lc_stop R = Stopped" "\<not> late R"
  shows "(all_told (lc_stop R') \<or> lc_stop R' = Stopped) \<and> \<not> late R'"
  using assms(1)
proof cases
  case (worker_leave i)
  with assms(3,4) show ?thesis by (simp add: worker_leave_late)
qed (use assms(2-4) in \<open>auto simp: late_def life_inv_def\<close>)

lemma in_time_progress:
  assumes "life_inv n R" "all_told (lc_stop R)" "\<not> late R"
  shows "\<exists>R'. life_step n a R R'"
proof (cases "lc_init R = In_loop \<or> (\<exists>i<length (lc_threads R). lc_threads R ! i = Running)")
  case True
  with assms(3) show ?thesis by (fastforce simp: late_def intro: main_leave worker_leave)
next
  case False
  have f: "lc_threads R ! i = Finished" if "i < length (lc_threads R)" for i
    using that False assms(3) by (cases "lc_threads R ! i") (auto simp: late_def)
  have l: "lc_init R = Left" using False assms by (cases "lc_init R"; cases "lc_stop R") (auto simp: life_inv_def late_def)
  show ?thesis
  proof (cases "lc_stop R")
    case (Stopping ws)
    with assms(2) l show ?thesis by (auto intro: join_init)
  next
    case (Joining k)
    with assms(1) l have "k \<le> length (lc_threads R)" by (simp add: life_inv_def)
    with Joining f [of k] show ?thesis by (cases "k < length (lc_threads R)") (auto intro: join_thread quit)
  qed (use assms(2) in auto)
qed

interpretation late: inv_steps "life_step n a" "\<lambda>R. life_inv n R \<and> all_told (lc_stop R) \<and> late R" for n a
  by unfold_locales (blast dest: late_step life_step_inv)

interpretation in_time: ranked_steps "life_step n a"
  "\<lambda>R. life_inv n R \<and> (all_told (lc_stop R) \<or> lc_stop R = Stopped) \<and> \<not> late R" "life_rank n" for n a
  by unfold_locales (blast dest: in_time_step life_step_inv life_step_rank)+

lemma stop_outcome:
  assumes "life_reach n a R" "lc_stop R = Stopping []"
  shows "if late R then \<forall>R'. (life_step n a)\<^sup>*\<^sup>* R R' \<longrightarrow> lc_quitLatch R' = 1
    else (\<nexists>f. f 0 = R \<and> (\<forall>i. life_step n a (f i) (f (Suc i)))) \<and>
      (\<forall>R'. (life_step n a)\<^sup>*\<^sup>* R R' \<longrightarrow> lc_stop R' = Stopped \<and> lc_quitLatch R' = 0 \<or> (\<exists>R''. life_step n a R' R''))"
proof (cases "late R")
  case True
  from late.steps_inv [of n a R] life_reach_inv [OF assms(1)] True assms(2)
  have "life_inv n R' \<and> all_told (lc_stop R')" if "(life_step n a)\<^sup>*\<^sup>* R R'" for R' using that by simp
  with True show ?thesis by (fastforce simp: life_inv_def)
next
  case False
  note i = life_reach_inv [OF assms(1)]
  from in_time.no_endless_run [of n _ a] i False assms(2) have "\<nexists>f. f 0 = R \<and> (\<forall>i. life_step n a (f i) (f (Suc i)))"
    by (metis all_told.simps(1))
  moreover from in_time.steps_inv [of n a R] i False assms(2)
  have "life_inv n R' \<and> (all_told (lc_stop R') \<or> lc_stop R' = Stopped) \<and> \<not> late R'" if "(life_step n a)\<^sup>*\<^sup>* R R'" for R'
    using that by simp
  ultimately show ?thesis using False in_time_progress by (fastforce simp: life_inv_def)
qed

text \<open>Every thread is in its loop. From there on no flag is set again, so \<open>stop\<close> clears each of them for good.\<close>

definition entered :: "life \<Rightarrow> bool" where
  "entered R \<longleftrightarrow> lc_init R \<in> {In_loop, Left} \<and> Started \<notin> set (lc_threads R)"

fun to_tell :: "nat \<Rightarrow> stop_pc \<Rightarrow> nat set" where
  "to_tell n No_stop = {..<n}"
| "to_tell n (Stopping ws) = {i. Some i \<in> set ws}"
| "to_tell n p = {}"

definition heard :: "nat \<Rightarrow> life \<Rightarrow> bool" where
  "heard n R \<longleftrightarrow> entered R \<and> (lc_stop R \<noteq> No_stop \<longrightarrow> \<not> lc_main R) \<and>
     (\<forall>i<length (lc_threads R). lc_flags R ! i \<longrightarrow> i \<in> to_tell n (lc_stop R))"

lemma heard_step:
  assumes "life_step n a R R'" "life_inv n R" "heard n R"
  shows "heard n R'"
  using assms(1)
proof cases
  case (worker_leave i)
  with assms(3) set_update_subset_insert [of "lc_threads R" i Finished] show ?thesis by (auto simp: heard_def entered_def)
next
  case (stop_worker w ws)
  with assms(2,3) show ?thesis by (cases w) (auto simp: heard_def entered_def life_inv_def dest: nth_update_False)
qed (use assms(2,3) in \<open>auto simp: heard_def entered_def life_inv_def stop_order_def dest: nth_mem\<close>)

interpretation heard: inv_steps "life_step n a" "\<lambda>R. life_inv n R \<and> heard n R" for n a
  by unfold_locales (blast dest: heard_step life_step_inv)

lemma entered_in_time:
  assumes "life_inv n S" "lc_stop S = No_stop" "entered S" "(life_step n a)\<^sup>*\<^sup>* S R" "lc_stop R = Stopping []"
  shows "\<not> late R"
proof -
  have "heard n S" using assms(1-3) by (auto simp: heard_def life_inv_def)
  with heard.steps_inv [OF assms(4)] assms(1) have "heard n R" by blast
  with assms(5) show ?thesis by (auto simp: heard_def entered_def late_def dest: nth_mem)
qed


text \<open>
  Both happen. When \<open>stop\<close> follows \<open>startAsync\<close> at once, the threads may all still be on their way to
  \<open>Worker::run\<close>: \<open>startAsync\<close> waits for \<open>initLatch_\<close>, which \<open>init\<close> counts down before it enters its own loop.
\<close>

definition before_run :: "nat \<Rightarrow> life" where
  "before_run n = \<lparr> lc_init = Latched, lc_threads = replicate n Started, lc_main = False, lc_flags = replicate n False,
     lc_running = False, lc_initLatch = 0, lc_quitLatch = 1, lc_stop = Stopping [] \<rparr>"

lemma life_creates:
  "k \<le> n \<Longrightarrow> (life_step n a)\<^sup>*\<^sup>* new_life
     (new_life\<lparr>lc_init := Creating, lc_threads := replicate k Started, lc_flags := replicate k False\<rparr>)"
proof (induction k)
  case 0
  have "life_step n a new_life (new_life\<lparr>lc_init := Creating\<rparr>)" by (rule startAsync) (simp add: new_life_def)
  then show ?case by (simp add: new_life_def r_into_rtranclp)
next
  case (Suc k)
  let ?R = "new_life\<lparr>lc_init := Creating, lc_threads := replicate k Started, lc_flags := replicate k False\<rparr>"
  have "life_step n a ?R (?R\<lparr>lc_threads := lc_threads ?R @ [Started], lc_flags := lc_flags ?R @ [False]\<rparr>)"
    by (rule init_create) (use Suc.prems in simp_all)
  with Suc show ?case by (simp add: replicate_append_same rtranclp.rtrancl_into_rtrancl)
qed

lemma life_tells:
  assumes "lc_main R = False" "lc_flags R = replicate n False"
  shows "(life_step n a)\<^sup>*\<^sup>* (R\<lparr>lc_stop := Stopping ws\<rparr>) (R\<lparr>lc_stop := Stopping []\<rparr>)"
proof (induction ws)
  case (Cons w ws)
  have "(replicate n False)[i := False] = replicate n False" for i
    by (rule nth_equalityI) (auto dest: nth_update_False)
  then have "(clear_flag w (R\<lparr>lc_stop := Stopping (w # ws)\<rparr>))\<lparr>lc_stop := Stopping ws\<rparr> = R\<lparr>lc_stop := Stopping ws\<rparr>"
    using assms by (cases w; cases R) simp_all
  then have "life_step n a (R\<lparr>lc_stop := Stopping (w # ws)\<rparr>) (R\<lparr>lc_stop := Stopping ws\<rparr>)"
    using stop_worker [of "R\<lparr>lc_stop := Stopping (w # ws)\<rparr>" w ws] by simp
  with Cons show ?case by (rule converse_rtranclp_into_rtranclp [rotated])
qed simp

theorem stop_too_early: "life_reach n a (before_run n) \<and> late (before_run n)"
proof -
  let ?C = "new_life\<lparr>lc_init := Creating, lc_threads := replicate n Started, lc_flags := replicate n False\<rparr>"
  let ?L = "?C\<lparr>lc_init := Latched, lc_running := True, lc_initLatch := lc_initLatch ?C - 1\<rparr>"
  have "(life_step n a)\<^sup>*\<^sup>* new_life ?C" by (rule life_creates) simp
  also have "life_step n a ?C ?L" by (rule init_latch) simp_all
  also have "life_step n a ?L (?L\<lparr>lc_running := False, lc_main := False, lc_stop := Stopping (stop_order n a)\<rparr>)"
    by (rule stop_begin) (simp_all add: new_life_def)
  also have "(life_step n a)\<^sup>*\<^sup>* \<dots> (?L\<lparr>lc_running := False, lc_main := False, lc_stop := Stopping []\<rparr>)"
    using life_tells [of "?L\<lparr>lc_running := False, lc_main := False\<rparr>" n a "stop_order n a"] by simp
  also have "\<dots> = before_run n" by (simp add: before_run_def new_life_def)
  finally show ?thesis by (simp add: life_reach_def late_def before_run_def)
qed

text \<open>With one worker thread that is in its loop like the main worker when \<open>stop\<close> is called, the stop is in time.\<close>

definition after_run :: "worker_pc \<Rightarrow> stop_pc \<Rightarrow> life" where
  "after_run p s = \<lparr> lc_init = In_loop, lc_threads = [p], lc_main = False, lc_flags = [False],
     lc_running = False, lc_initLatch = 0, lc_quitLatch = 1, lc_stop = s \<rparr>"

definition in_loops :: life where
  "in_loops = \<lparr> lc_init = In_loop, lc_threads = [Running], lc_main = True, lc_flags = [True],
     lc_running = True, lc_initLatch = 0, lc_quitLatch = 1, lc_stop = No_stop \<rparr>"

lemma in_loops_reach: "life_reach 1 False in_loops"
proof -
  let ?C = "new_life\<lparr>lc_init := Creating, lc_threads := [Started], lc_flags := [False]\<rparr>"
  let ?L = "?C\<lparr>lc_init := Latched, lc_running := True, lc_initLatch := lc_initLatch ?C - 1\<rparr>"
  let ?M = "?L\<lparr>lc_init := In_loop, lc_main := True\<rparr>"
  have "(life_step 1 False)\<^sup>*\<^sup>* new_life ?C" using life_creates [of 1 1 False] by simp
  also have "life_step 1 False ?C ?L" by (rule init_latch) simp_all
  also have "life_step 1 False ?L ?M" by (rule main_run) simp
  also have "life_step 1 False ?M in_loops"
    using worker_run [of 0 ?M 1 False] by (simp add: in_loops_def new_life_def)
  finally show ?thesis unfolding life_reach_def .
qed

lemma in_loops_told: "(life_step 1 False)\<^sup>*\<^sup>* in_loops (after_run Running (Stopping []))"
proof -
  let ?S = "in_loops\<lparr>lc_running := False, lc_main := False, lc_stop := Stopping (stop_order 1 False)\<rparr>"
  have "life_step 1 False in_loops ?S" by (rule stop_begin) (simp_all add: in_loops_def)
  then have "(life_step 1 False)\<^sup>*\<^sup>* in_loops ?S" by (rule r_into_rtranclp)
  also have "life_step 1 False ?S (after_run Running (Stopping []))"
    using stop_worker [of ?S "Some 0" "[]" 1 False] by (simp add: stop_order_def after_run_def in_loops_def)
  finally show ?thesis .
qed


end
