(* ===== verification/Locks.thy ===== *)
theory Locks
  imports Reyao_Prelude Transitions
begin

text \<open>
  \<open>src/reyao/mutex.h\<close> and \<open>mutex.cc\<close>: \<open>Mutex\<close> and \<open>RWLock\<close> with their guards, used by any number of threads to protect
  shared data. A thread in a section acts in small steps between which every other thread can act; it is
  shown that nobody sees the difference to sections that run as a whole.
\<close>

section \<open>Locks\<close>

text \<open>
  The state of a \<open>pthread_rwlock_t\<close>: how many readers hold it and whether a writer does. \<open>rdlock\<close> blocks while a
  writer holds the lock, \<open>wrlock\<close> while anybody does; a blocked call is one that cannot take its step.
\<close>

record rw_lock =
  rw_readers :: nat
  rw_writer :: bool

definition new_RWLock :: rw_lock where
  "new_RWLock = \<lparr> rw_readers = 0, rw_writer = False \<rparr>"

definition can_readLock :: "rw_lock \<Rightarrow> bool" where
  "can_readLock L \<longleftrightarrow> \<not> rw_writer L"

definition readLock :: "rw_lock \<Rightarrow> rw_lock" where
  "readLock L = L\<lparr>rw_readers := rw_readers L + 1\<rparr>"

definition can_writeLock :: "rw_lock \<Rightarrow> bool" where
  "can_writeLock L \<longleftrightarrow> \<not> rw_writer L \<and> rw_readers L = 0"

definition writeLock :: "rw_lock \<Rightarrow> rw_lock" where
  "writeLock L = L\<lparr>rw_writer := True\<rparr>"

definition rw_unlock :: "rw_lock \<Rightarrow> rw_lock" where
  "rw_unlock L = (if rw_writer L then L\<lparr>rw_writer := False\<rparr> else L\<lparr>rw_readers := rw_readers L - 1\<rparr>)"

lemmas rw_lock_defs = new_RWLock_def can_readLock_def readLock_def can_writeLock_def writeLock_def rw_unlock_def

text \<open>A mutex is free or locked, and every section excludes every other.\<close>

datatype mutex = Free | Locked

definition mutex_lock :: "mutex \<Rightarrow> mutex" where
  "mutex_lock m = Locked"

definition mutex_unlock :: "mutex \<Rightarrow> mutex" where
  "mutex_unlock m = Free"

section \<open>Sections\<close>

text \<open>
  Where a thread is: outside, in the scope of a reading guard, or in the scope of a writing guard with the
  updates it still has to make. The constructors of the guards take the lock, the destructors give it back.
\<close>

datatype 's section_pc = Idle | Reading | Writing "('s \<Rightarrow> 's) list"

record ('l, 's) guarded =
  g_lock :: 'l
  g_state :: 's
  g_pcs :: "'s section_pc list"

definition new_guarded :: "'l \<Rightarrow> 's \<Rightarrow> nat \<Rightarrow> ('l, 's) guarded" where
  "new_guarded l s n = \<lparr> g_lock = l, g_state = s, g_pcs = replicate n Idle \<rparr>"

inductive section_step ::
    "('l \<Rightarrow> bool) \<Rightarrow> ('l \<Rightarrow> 'l) \<Rightarrow> ('l \<Rightarrow> bool) \<Rightarrow> ('l \<Rightarrow> 'l) \<Rightarrow> ('l \<Rightarrow> 'l) \<Rightarrow>
     ('s \<Rightarrow> 's) list \<Rightarrow> ('l, 's) guarded \<Rightarrow> ('l, 's) guarded \<Rightarrow> bool"
  for can_read read_in can_write write_in unlock where
  enter_read: "i < length (g_pcs G) \<Longrightarrow> g_pcs G ! i = Idle \<Longrightarrow> can_read (g_lock G) \<Longrightarrow>
    section_step can_read read_in can_write write_in unlock [] G
      (G\<lparr>g_lock := read_in (g_lock G), g_pcs := (g_pcs G)[i := Reading]\<rparr>)"
| leave_read: "i < length (g_pcs G) \<Longrightarrow> g_pcs G ! i = Reading \<Longrightarrow>
    section_step can_read read_in can_write write_in unlock [] G
      (G\<lparr>g_lock := unlock (g_lock G), g_pcs := (g_pcs G)[i := Idle]\<rparr>)"
| enter_write: "i < length (g_pcs G) \<Longrightarrow> g_pcs G ! i = Idle \<Longrightarrow> can_write (g_lock G) \<Longrightarrow>
    section_step can_read read_in can_write write_in unlock us G
      (G\<lparr>g_lock := write_in (g_lock G), g_pcs := (g_pcs G)[i := Writing us]\<rparr>)"
| update: "i < length (g_pcs G) \<Longrightarrow> g_pcs G ! i = Writing (u # us) \<Longrightarrow>
    section_step can_read read_in can_write write_in unlock [] G
      (G\<lparr>g_state := u (g_state G), g_pcs := (g_pcs G)[i := Writing us]\<rparr>)"
| leave_write: "i < length (g_pcs G) \<Longrightarrow> g_pcs G ! i = Writing [] \<Longrightarrow>
    section_step can_read read_in can_write write_in unlock [] G
      (G\<lparr>g_lock := unlock (g_lock G), g_pcs := (g_pcs G)[i := Idle]\<rparr>)"

text \<open>Runs, with the updates of the writing sections in the order in which their threads took the lock.\<close>

inductive section_run ::
    "('l \<Rightarrow> bool) \<Rightarrow> ('l \<Rightarrow> 'l) \<Rightarrow> ('l \<Rightarrow> bool) \<Rightarrow> ('l \<Rightarrow> 'l) \<Rightarrow> ('l \<Rightarrow> 'l) \<Rightarrow>
     ('l, 's) guarded \<Rightarrow> ('s \<Rightarrow> 's) list \<Rightarrow> ('l, 's) guarded \<Rightarrow> bool"
  for can_read read_in can_write write_in unlock G0 where
  run_start: "section_run can_read read_in can_write write_in unlock G0 [] G0"
| run_step: "section_run can_read read_in can_write write_in unlock G0 us G \<Longrightarrow>
    section_step can_read read_in can_write write_in unlock vs G G' \<Longrightarrow>
    section_run can_read read_in can_write write_in unlock G0 (us @ vs) G'"

text \<open>A thread that is not interrupted goes through its section, and a thread can look at the state the sections have left.\<close>

lemma run_updates:
  "section_run can_read read_in can_write write_in unlock G0 vs G \<Longrightarrow> i < length (g_pcs G) \<Longrightarrow> g_pcs G ! i = Writing us \<Longrightarrow>
   section_run can_read read_in can_write write_in unlock G0 vs
     (G\<lparr>g_state := fold (\<lambda>u. u) us (g_state G), g_pcs := (g_pcs G)[i := Writing []]\<rparr>)"
proof (induction us arbitrary: G)
  case Nil
  then have "G\<lparr>g_pcs := (g_pcs G)[i := Writing []]\<rparr> = G" by (metis guarded.surjective guarded.update_convs(3) list_update_id)
  with Nil show ?case by simp
next
  case (Cons u us)
  let ?G = "G\<lparr>g_state := u (g_state G), g_pcs := (g_pcs G)[i := Writing us]\<rparr>"
  have "section_run can_read read_in can_write write_in unlock G0 (vs @ []) ?G"
    by (rule run_step [OF Cons.prems(1) update]) (use Cons.prems in simp_all)
  from Cons.IH [of ?G] this Cons.prems(2) show ?case by simp
qed

lemma run_section:
  assumes "section_run can_read read_in can_write write_in unlock G0 vs G" "i < length (g_pcs G)" "g_pcs G ! i = Idle"
    "can_write (g_lock G)"
  shows "section_run can_read read_in can_write write_in unlock G0 (vs @ us)
     (G\<lparr>g_lock := unlock (write_in (g_lock G)), g_state := fold (\<lambda>u. u) us (g_state G)\<rparr>)"
proof -
  let ?W = "G\<lparr>g_lock := write_in (g_lock G), g_pcs := (g_pcs G)[i := Writing us]\<rparr>"
  let ?U = "?W\<lparr>g_state := fold (\<lambda>u. u) us (g_state ?W), g_pcs := (g_pcs ?W)[i := Writing []]\<rparr>"
  have "section_run can_read read_in can_write write_in unlock G0 (vs @ us) ?W"
    by (rule run_step [OF assms(1) enter_write]) (use assms in simp_all)
  from run_updates [OF this, of i us] assms(2) have "section_run can_read read_in can_write write_in unlock G0 (vs @ us) ?U" by simp
  from run_step [OF this leave_write [of i]] assms(2)
  have "section_run can_read read_in can_write write_in unlock G0 (vs @ us)
     (G\<lparr>g_lock := unlock (write_in (g_lock G)), g_state := fold (\<lambda>u. u) us (g_state G), g_pcs := (g_pcs G)[i := Idle]\<rparr>)"
    by (cases G) simp
  moreover have "(g_pcs G)[i := Idle] = g_pcs G" using list_update_id [of "g_pcs G" i] assms(3) by simp
  ultimately show ?thesis by (cases G) simp
qed

fun is_writing :: "'s section_pc \<Rightarrow> bool" where
  "is_writing (Writing us) = True"
| "is_writing p = False"

fun updates_left :: "'s section_pc \<Rightarrow> ('s \<Rightarrow> 's) list" where
  "updates_left (Writing us) = us"
| "updates_left p = []"

definition pending_updates :: "'s section_pc list \<Rightarrow> ('s \<Rightarrow> 's) list" where
  "pending_updates ps = concat (map updates_left ps)"

abbreviation number :: "('a \<Rightarrow> bool) \<Rightarrow> 'a list \<Rightarrow> nat" where
  "number P xs \<equiv> length (filter P xs)"

lemma number_update:
  "i < length xs \<Longrightarrow> number P (xs[i := y]) + (if P (xs ! i) then 1 else 0) = number P xs + (if P y then 1 else 0)"
proof (induction xs arbitrary: i)
  case (Cons x xs)
  then show ?case by (cases i) auto
qed simp

lemma number_card: "number P xs = card {i. i < length xs \<and> P (xs ! i)}"
  by (rule length_filter_conv_card)

lemma number_pos: "i < length xs \<Longrightarrow> P (xs ! i) \<Longrightarrow> 0 < number P xs"
  unfolding number_card by (subst card_gt_0_iff) auto

lemma number_two:
  assumes "i < length xs" "j < length xs" "i \<noteq> j" "P (xs ! i)" "P (xs ! j)"
  shows "2 \<le> number P xs"
  using card_mono [of "{i. i < length xs \<and> P (xs ! i)}" "{i, j}"] assms unfolding number_card by simp

lemma number_zero: "number P xs = 0 \<longleftrightarrow> (\<forall>x\<in>set xs. \<not> P x)"
  by (simp add: filter_empty_conv)

lemma not_writing_left: "\<not> is_writing p \<Longrightarrow> updates_left p = []"
  by (cases p) auto

lemma pending_none: "number is_writing ps = 0 \<Longrightarrow> pending_updates ps = []"
  by (induction ps) (auto simp: pending_updates_def not_writing_left split: if_splits)

lemma pending_one:
  "i < length ps \<Longrightarrow> number is_writing (ps[i := Idle]) = 0 \<Longrightarrow> pending_updates (ps[i := p]) = updates_left p"
proof (induction ps arbitrary: i)
  case (Cons q ps)
  then show ?case
    using pending_none [of ps] by (cases i) (auto simp: pending_updates_def not_writing_left split: if_splits)
qed simp

lemma pending_self:
  "i < length ps \<Longrightarrow> number is_writing (ps[i := Idle]) = 0 \<Longrightarrow> pending_updates ps = updates_left (ps ! i)"
  using pending_one [of i ps "ps ! i"] by simp

section \<open>Sections are atomic\<close>

text \<open>
  What a lock promises: \<open>held L r w\<close> says that in state \<open>L\<close> it is held by \<open>r\<close> readers and, if \<open>w\<close>, a writer.
\<close>

definition guard_inv :: "('l \<Rightarrow> nat \<Rightarrow> bool \<Rightarrow> bool) \<Rightarrow> 's \<Rightarrow> ('s \<Rightarrow> 's) list \<Rightarrow> ('l, 's) guarded \<Rightarrow> bool" where
  "guard_inv held s0 us G \<longleftrightarrow>
     held (g_lock G) (number (\<lambda>p. p = Reading) (g_pcs G)) (number is_writing (g_pcs G) = 1) \<and>
     number is_writing (g_pcs G) \<le> 1 \<and> (number is_writing (g_pcs G) = 1 \<longrightarrow> number (\<lambda>p. p = Reading) (g_pcs G) = 0) \<and>
     fold (\<lambda>u. u) (pending_updates (g_pcs G)) (g_state G) = fold (\<lambda>u. u) us s0"

locale section_lock =
  fixes new :: 'l and can_read :: "'l \<Rightarrow> bool" and read_in :: "'l \<Rightarrow> 'l" and can_write :: "'l \<Rightarrow> bool"
    and write_in :: "'l \<Rightarrow> 'l" and unlock :: "'l \<Rightarrow> 'l" and held :: "'l \<Rightarrow> nat \<Rightarrow> bool \<Rightarrow> bool"
  assumes held_new: "held new 0 False"
    and held_read: "held L r w \<Longrightarrow> can_read L \<Longrightarrow> \<not> w \<and> held (read_in L) (r + 1) False"
    and held_write: "held L r w \<Longrightarrow> can_write L \<Longrightarrow> r = 0 \<and> \<not> w \<and> held (write_in L) 0 True"
    and unlock_read: "held L (r + 1) False \<Longrightarrow> held (unlock L) r False"
    and unlock_write: "held L 0 True \<Longrightarrow> held (unlock L) 0 False"
begin

lemma read_guard_inv:
  assumes "guard_inv held s0 us G" "i < length (g_pcs G)"
  shows "g_pcs G ! i = Idle \<Longrightarrow> can_read (g_lock G) \<Longrightarrow>
      guard_inv held s0 us (G\<lparr>g_lock := read_in (g_lock G), g_pcs := (g_pcs G)[i := Reading]\<rparr>)"
    "g_pcs G ! i = Reading \<Longrightarrow> guard_inv held s0 us (G\<lparr>g_lock := unlock (g_lock G), g_pcs := (g_pcs G)[i := Idle]\<rparr>)"
proof -
  let ?r = "number (\<lambda>p. p = Reading)" and ?w = "number is_writing"
  note n = number_update [OF assms(2), of "\<lambda>p. p = Reading"] number_update [OF assms(2), of is_writing]
  have inv: "held (g_lock G) (?r (g_pcs G)) (?w (g_pcs G) = 1)" "?w (g_pcs G) \<le> 1" "?w (g_pcs G) = 1 \<longrightarrow> ?r (g_pcs G) = 0"
    "fold (\<lambda>u. u) (pending_updates (g_pcs G)) (g_state G) = fold (\<lambda>u. u) us s0"
    using assms(1) by (simp_all add: guard_inv_def)
  show "guard_inv held s0 us (G\<lparr>g_lock := read_in (g_lock G), g_pcs := (g_pcs G)[i := Reading]\<rparr>)"
    if a: "g_pcs G ! i = Idle" "can_read (g_lock G)"
  proof -
    note l = held_read [OF inv(1) a(2)]
    with inv(2) have w: "?w (g_pcs G) = 0" by linarith
    with n(1) [of Reading] n(2) [of Reading] a(1)
    have "?w ((g_pcs G)[i := Reading]) = 0" "?r ((g_pcs G)[i := Reading]) = ?r (g_pcs G) + 1" by simp_all
    with l w inv(4) show ?thesis by (simp add: guard_inv_def pending_none)
  qed
  show "guard_inv held s0 us (G\<lparr>g_lock := unlock (g_lock G), g_pcs := (g_pcs G)[i := Idle]\<rparr>)" if a: "g_pcs G ! i = Reading"
  proof -
    from n(1) [of Idle] n(2) [of Idle] a
    have r: "?w ((g_pcs G)[i := Idle]) = ?w (g_pcs G)" "?r (g_pcs G) = ?r ((g_pcs G)[i := Idle]) + 1" by simp_all
    with inv(2,3) have w: "?w (g_pcs G) = 0" by linarith
    with unlock_read [of "g_lock G"] inv(1,4) r show ?thesis by (simp add: guard_inv_def pending_none)
  qed
qed

lemma step_guard_inv:
  assumes "section_step can_read read_in can_write write_in unlock vs G G'" "guard_inv held s0 us G"
  shows "guard_inv held s0 (us @ vs) G'"
proof -
  let ?r = "number (\<lambda>p. p = Reading)" and ?w = "number is_writing"
  have n: "?r ((g_pcs G)[i := p]) + (if g_pcs G ! i = Reading then 1 else 0) = ?r (g_pcs G) + (if p = Reading then 1 else 0)"
    "?w ((g_pcs G)[i := p]) + (if is_writing (g_pcs G ! i) then 1 else 0) = ?w (g_pcs G) + (if is_writing p then 1 else 0)"
    if "i < length (g_pcs G)" for i p
    using number_update [OF that] by blast+
  have inv: "held (g_lock G) (?r (g_pcs G)) (?w (g_pcs G) = 1)" "?w (g_pcs G) \<le> 1" "?w (g_pcs G) = 1 \<longrightarrow> ?r (g_pcs G) = 0"
    "fold (\<lambda>u. u) (pending_updates (g_pcs G)) (g_state G) = fold (\<lambda>u. u) us s0"
    using assms(2) by (simp_all add: guard_inv_def)
  from assms(1) show ?thesis
  proof cases
    case (enter_read i)
    with read_guard_inv(1) [OF assms(2)] show ?thesis by simp
  next
    case (leave_read i)
    with read_guard_inv(2) [OF assms(2)] show ?thesis by simp
  next
    case (enter_write i)
    note l = held_write [OF inv(1) enter_write(4)]
    with inv(2) have w: "?w (g_pcs G) = 0" "?r (g_pcs G) = 0" by linarith+
    with n [OF enter_write(2), of "Writing vs"] n [OF enter_write(2), of Idle] enter_write(3)
    have "?w ((g_pcs G)[i := Writing vs]) = 1" "?r ((g_pcs G)[i := Writing vs]) = 0" "?w ((g_pcs G)[i := Idle]) = 0" by simp_all
    moreover from this(3) have "pending_updates ((g_pcs G)[i := Writing vs]) = vs" using pending_one [OF enter_write(2)] by simp
    ultimately show ?thesis using enter_write(1) l w inv(4) by (simp add: guard_inv_def pending_none)
  next
    case (update i u us')
    from update(4) n [OF update(3), of "Writing us'"] n [OF update(3), of Idle]
    have w: "?w ((g_pcs G)[i := Writing us']) = ?w (g_pcs G)" "?r ((g_pcs G)[i := Writing us']) = ?r (g_pcs G)"
      "?w ((g_pcs G)[i := Idle]) + 1 = ?w (g_pcs G)" by simp_all
    with inv(2) have "?w ((g_pcs G)[i := Idle]) = 0" by linarith
    with w(1,2) pending_self [OF update(3)] pending_one [OF update(3)] update(1,2,4) inv show ?thesis by (simp add: guard_inv_def)
  next
    case (leave_write i)
    from leave_write(4) n [OF leave_write(3), of Idle]
    have "?w ((g_pcs G)[i := Idle]) + 1 = ?w (g_pcs G)" "?r ((g_pcs G)[i := Idle]) = ?r (g_pcs G)" by simp_all
    with inv(2,3) have w: "?w (g_pcs G) = 1" "?r (g_pcs G) = 0" "?w ((g_pcs G)[i := Idle]) = 0" "?r ((g_pcs G)[i := Idle]) = 0"
      by linarith+
    with pending_self [OF leave_write(3)] leave_write inv unlock_write show ?thesis by (simp add: guard_inv_def pending_none)
  qed
qed

lemma run_guard_inv:
  assumes "section_run can_read read_in can_write write_in unlock (new_guarded new s0 n) us G"
  shows "guard_inv held s0 us G"
  using assms
proof (induction rule: section_run.induct)
  case run_start
  show ?case using held_new by (simp add: guard_inv_def new_guarded_def pending_none)
next
  case (run_step us G vs G')
  then show ?case by (simp add: step_guard_inv)
qed

lemma sections_exclude:
  assumes "section_run can_read read_in can_write write_in unlock (new_guarded new s0 n) us G"
    "i < length (g_pcs G)" "j < length (g_pcs G)" "i \<noteq> j" "is_writing (g_pcs G ! i)"
  shows "g_pcs G ! j = Idle"
proof -
  note inv = run_guard_inv [OF assms(1), unfolded guard_inv_def]
  have w: "number is_writing (g_pcs G) = 1" using inv number_pos [of i "g_pcs G" is_writing] assms(2,5) by linarith
  then have "\<not> is_writing (g_pcs G ! j)" using number_two [of i "g_pcs G" j is_writing] assms(2-5) by linarith
  moreover have "g_pcs G ! j \<noteq> Reading" using inv w number_pos [of j "g_pcs G" "\<lambda>p. p = Reading"] assms(3) by auto
  ultimately show ?thesis by (cases "g_pcs G ! j") auto
qed

lemma sections_atomic:
  assumes "section_run can_read read_in can_write write_in unlock (new_guarded new s0 n) us G"
    "list_all (\<lambda>p. \<not> is_writing p) (g_pcs G)"
  shows "g_state G = fold (\<lambda>u. u) us s0"
proof -
  have "number is_writing (g_pcs G) = 0" using assms(2) by (simp add: number_zero list_all_iff)
  with run_guard_inv [OF assms(1)] show ?thesis by (simp add: guard_inv_def pending_none)
qed

end

text \<open>A table whose operations are writing sections: \<open>updates op\<close> are the small steps and \<open>whole op\<close> is the operation at once.\<close>

locale guarded_ops = section_lock new can_read read_in can_write write_in unlock held
  for new :: 'l and can_read read_in can_write write_in unlock held +
  fixes updates :: "'op \<Rightarrow> ('s \<Rightarrow> 's) list" and whole :: "'op \<Rightarrow> 's \<Rightarrow> 's"
  assumes updates_whole: "fold (\<lambda>u. u) (updates op) s = whole op s"
begin

lemma updates_all: "fold (\<lambda>u. u) (concat (map updates ops)) s = fold whole ops s"
  by (induction ops arbitrary: s) (simp_all add: updates_whole)

lemma ops_atomic:
  assumes "section_run can_read read_in can_write write_in unlock (new_guarded new s0 n) (concat (map updates ops)) G"
    "i < length (g_pcs G)"
  shows "(g_pcs G ! i = Reading \<longrightarrow> g_state G = fold whole ops s0) \<and>
    (is_writing (g_pcs G ! i) \<longrightarrow> (\<forall>j<length (g_pcs G). j \<noteq> i \<longrightarrow> g_pcs G ! j = Idle))"
proof -
  have "list_all (\<lambda>p. \<not> is_writing p) (g_pcs G)" if "g_pcs G ! i = Reading"
    using sections_exclude [OF assms(1)] assms(2) that
    unfolding list_all_length by (metis is_writing.simps(3) section_pc.distinct(1))
  with sections_atomic [OF assms(1)] sections_exclude [OF assms(1) assms(2)] show ?thesis
    by (simp add: updates_all)
qed

end

interpretation rwl: section_lock new_RWLock can_readLock readLock can_writeLock writeLock rw_unlock
  "\<lambda>L r w. rw_readers L = r \<and> rw_writer L = w"
  by unfold_locales
    (auto simp: rw_lock_defs)

interpretation mtx: section_lock Free "\<lambda>_. False" id "\<lambda>m. m = Free" mutex_lock mutex_unlock
  "\<lambda>m r w. r = 0 \<and> m = (if w then Locked else Free)"
  by unfold_locales (auto simp: mutex_lock_def mutex_unlock_def split: if_splits)

text \<open>Of two threads, one goes through a writing section and then the other begins to read.\<close>

lemma rw_section_then_read:
  "section_run can_readLock readLock can_writeLock writeLock rw_unlock (new_guarded new_RWLock s 2) us
     \<lparr> g_lock = \<lparr> rw_readers = 1, rw_writer = False \<rparr>, g_state = fold (\<lambda>u. u) us s, g_pcs = [Idle, Reading] \<rparr>"
proof -
  let ?G = "new_guarded new_RWLock s 2"
  have "section_run can_readLock readLock can_writeLock writeLock rw_unlock ?G ([] @ us)
      (?G\<lparr>g_lock := rw_unlock (writeLock (g_lock ?G)), g_state := fold (\<lambda>u. u) us (g_state ?G)\<rparr>)"
    by (rule run_section [OF run_start, where i = 0]) (simp_all add: rw_lock_defs new_guarded_def)
  then have "section_run can_readLock readLock can_writeLock writeLock rw_unlock ?G us
      \<lparr> g_lock = new_RWLock, g_state = fold (\<lambda>u. u) us s, g_pcs = [Idle, Idle] \<rparr>"
    by (simp add: rw_lock_defs new_guarded_def numeral_2_eq_2)
  from run_step [OF this enter_read [where i = 1]] show ?thesis by (simp add: rw_lock_defs)
qed

end
