(* ===== verification/Fd_Table.thy ===== *)
theory Fd_Table
  imports Locks Hook
begin

text \<open>
  \<open>FdManager\<close> (\<open>src/reyao/fdmanager.cc\<close>) shared by threads: its operations are sections of a read-write lock. \<open>addFd\<close> first
  grows the table and then stores the new context, and between the two another thread may run. Every reader
  nevertheless sees the table as whole operations leave it, which is why the rest of the development can take
  each operation of the manager as one step.
\<close>

definition grow_table :: "nat \<Rightarrow> hook_state \<Rightarrow> hook_state" where
  "grow_table fd H =
     (if length (fdcontexts H) \<le> fd
      then H\<lparr>fdcontexts := take (fd * 3 div 2) (fdcontexts H) @ replicate (fd * 3 div 2 - length (fdcontexts H)) None\<rparr>
      else H)"

definition store_ctx :: "nat \<Rightarrow> hook_state \<Rightarrow> hook_state res" where
  "store_ctx fd H =
     (if length (fdcontexts H) \<le> fd then Inl Memory_fault
      else let (c, H) = new_FdContext fd H in Inr (H\<lparr>fdcontexts := (fdcontexts H)[fd := Some c]\<rparr>))"

datatype fd_op = Add_fd nat | Del_fd nat

text \<open>The steps of a section, on a table or the failure of an earlier step, and the operation as a whole.\<close>

fun fd_updates :: "fd_op \<Rightarrow> (hook_state res \<Rightarrow> hook_state res) list" where
  "fd_updates (Add_fd fd) = [map_res (grow_table fd), \<lambda>r. rbind r (store_ctx fd)]"
| "fd_updates (Del_fd fd) = [map_res (delFd fd)]"

fun fd_whole :: "fd_op \<Rightarrow> hook_state res \<Rightarrow> hook_state res" where
  "fd_whole (Add_fd fd) r = rbind r (addFd fd)"
| "fd_whole (Del_fd fd) r = map_res (delFd fd) r"

lemma new_FdContext_tab:
  "new_FdContext fd (H\<lparr>fdcontexts := tab\<rparr>) = (fst (new_FdContext fd H), (snd (new_FdContext fd H))\<lparr>fdcontexts := tab\<rparr>)"
  "fdcontexts (snd (new_FdContext fd H)) = fdcontexts H"
  by (simp_all add: new_FdContext_def Let_def setfl_origin_def)

lemma addFd_steps: "addFd fd H = store_ctx fd (grow_table fd H)"
  by (auto simp: addFd_def store_ctx_def grow_table_def Let_def split_beta new_FdContext_tab)

lemma fd_updates_whole: "fold (\<lambda>u. u) (fd_updates op) r = fd_whole op r"
  by (cases op; cases r) (simp_all add: addFd_steps)

interpretation fdt: guarded_ops new_RWLock can_readLock readLock can_writeLock writeLock rw_unlock
  "\<lambda>L r w. rw_readers L = r \<and> rw_writer L = w" fd_updates fd_whole
  by unfold_locales (rule fd_updates_whole)

text \<open>
  C17: the operations of \<open>FdManager\<close> are atomic. Any number of threads call them, each in the small steps of its
  section and with the guards of the read-write lock around it. If \<open>ops\<close> are the calls of \<open>addFd\<close> and \<open>delFd\<close> in the
  order in which they got the lock, then a thread that reads sees exactly the table these calls, run as a whole
  one after the other, leave; and a thread that writes is alone.
\<close>

theorem fd_table_atomic:
  assumes "section_run can_readLock readLock can_writeLock writeLock rw_unlock
      (new_guarded new_RWLock (Inr H) n) (concat (map fd_updates ops)) G" "i < length (g_pcs G)"
  shows "(g_pcs G ! i = Reading \<longrightarrow> g_state G = fold fd_whole ops (Inr H)) \<and>
    (is_writing (g_pcs G ! i) \<longrightarrow> (\<forall>j<length (g_pcs G). j \<noteq> i \<longrightarrow> g_pcs G ! j = Idle))"
  by (rule fdt.ops_atomic [OF assms])

text \<open>One thread adds descriptor 4, then another one reads.\<close>

abbreviation fd_run :: "(hook_state res \<Rightarrow> hook_state res) list \<Rightarrow> (rw_lock, hook_state res) guarded \<Rightarrow> bool" where
  "fd_run \<equiv> section_run can_readLock readLock can_writeLock writeLock rw_unlock (new_guarded new_RWLock (Inr hook_example) 2)"

lemma fd_run_example:
  "fd_run (concat (map fd_updates [Add_fd 4]))
     \<lparr> g_lock = \<lparr> rw_readers = 1, rw_writer = False \<rparr>, g_state = addFd 4 hook_example, g_pcs = [Idle, Reading] \<rparr>"
  using rw_section_then_read [of "Inr hook_example" "fd_updates (Add_fd 4)"] by (simp add: addFd_steps)

theorem fd_table_atomic_witness: "\<exists>G. fd_run (concat (map fd_updates [Add_fd 4])) G \<and> g_state G = fold fd_whole [Add_fd 4] (Inr hook_example)"
  using fd_table_atomic [OF fd_run_example, of 1] fd_run_example by auto

end
