(* ===== verification/Sync.thy ===== *)
theory Sync
  imports Reyao_Prelude Transitions
begin

text \<open>
  \<open>src/reyao/mutex.h\<close>, \<open>mutex.cc\<close>, \<open>thread.cc\<close> and the lock of \<open>coroutine.h\<close>: the spin lock, the latch, the timed
  wait and the life of a thread object. Several threads run at once; a step of one thread is one atomic
  access or one critical section, and a state relation interleaves them.
\<close>

section \<open>The spin lock\<close>

text \<open>
  \<open>CoroutineSpinLock\<close>: \<open>sem\<close> is the atomic counter, \<open>pcs\<close> says where each thread is: outside, in the loop
  \<open>while (sem < 0);\<close>, or past \<open>lock\<close>.
\<close>

datatype spin_pc = Outside | Spinning | Holding

record spin_lock =
  sem :: int
  pcs :: "spin_pc list"

definition new_spin_lock :: "nat \<Rightarrow> spin_lock" where
  "new_spin_lock n = \<lparr> sem = 1, pcs = replicate n Outside \<rparr>"

definition spin_lock_enter :: "nat \<Rightarrow> spin_lock \<Rightarrow> spin_lock" where
  "spin_lock_enter i L =
     (let s = sem L - 1 in L\<lparr>sem := s, pcs := (pcs L)[i := if s < 0 then Spinning else Holding]\<rparr>)"

definition spin_lock_test :: "nat \<Rightarrow> spin_lock \<Rightarrow> spin_lock" where
  "spin_lock_test i L = (if sem L < 0 then L else L\<lparr>pcs := (pcs L)[i := Holding]\<rparr>)"

definition spin_unlock :: "nat \<Rightarrow> spin_lock \<Rightarrow> spin_lock" where
  "spin_unlock i L = L\<lparr>sem := sem L + 1, pcs := (pcs L)[i := Outside]\<rparr>"

inductive spin_step :: "spin_lock \<Rightarrow> spin_lock \<Rightarrow> bool" where
  enter: "i < length (pcs L) \<Longrightarrow> pcs L ! i = Outside \<Longrightarrow> spin_step L (spin_lock_enter i L)"
| test: "i < length (pcs L) \<Longrightarrow> pcs L ! i = Spinning \<Longrightarrow> spin_step L (spin_lock_test i L)"
| leave: "i < length (pcs L) \<Longrightarrow> pcs L ! i = Holding \<Longrightarrow> spin_step L (spin_unlock i L)"

abbreviation at_pc :: "spin_pc \<Rightarrow> spin_lock \<Rightarrow> nat" where
  "at_pc p L \<equiv> count_list (pcs L) p"

lemma count_list_update:
  "i < length xs \<Longrightarrow> count_list (xs[i := b]) p + (if p = xs ! i then 1 else 0) = count_list xs p + (if p = b then 1 else 0)"
proof (induction xs arbitrary: i)
  case (Cons x xs)
  show ?case
  proof (cases i)
    case (Suc j)
    with Cons.IH [of j] Cons.prems show ?thesis by auto
  qed simp
qed simp

lemma count_list_pos: "i < length xs \<Longrightarrow> 0 < count_list xs (xs ! i)"
  by (metis count_list_0_iff gr0I nth_mem)

definition spin_inv :: "spin_lock \<Rightarrow> bool" where
  "spin_inv L \<longleftrightarrow> sem L = 1 - int (at_pc Holding L) - int (at_pc Spinning L) \<and> at_pc Holding L \<le> 1"

lemmas spin_op_defs = spin_lock_enter_def spin_lock_test_def spin_unlock_def

lemma spin_step_inv:
  assumes "spin_step L L'" "spin_inv L"
  shows "spin_inv L'"
  using assms(1)
proof cases
  case (enter i)
  with assms(2) show ?thesis
    using count_list_update [OF enter(2), of Spinning Spinning] count_list_update [OF enter(2), of Spinning Holding]
      count_list_update [OF enter(2), of Holding Spinning] count_list_update [OF enter(2), of Holding Holding]
    by (auto simp: spin_inv_def spin_op_defs Let_def)
next
  case (test i)
  with assms(2) show ?thesis
    using count_list_update [OF test(2), of Holding Spinning] count_list_update [OF test(2), of Holding Holding]
      count_list_pos [OF test(2)]
    by (auto simp: spin_inv_def spin_op_defs)
next
  case (leave i)
  with assms(2) show ?thesis
    using count_list_update [OF leave(2), of Outside Spinning] count_list_update [OF leave(2), of Outside Holding]
    by (auto simp: spin_inv_def spin_op_defs)
qed

interpretation spin: inv_steps spin_step spin_inv
  by unfold_locales (rule spin_step_inv)

lemma spin_inv_new: "spin_inv (new_spin_lock n)"
  by (induction n) (auto simp: spin_inv_def new_spin_lock_def)

text \<open>
  C22: the spin lock excludes. In every state any number of threads can bring it to, at most one thread is
  past \<open>lock\<close>; and the lock is free exactly when nobody has asked for it.
\<close>

theorem spin_lock_excludes:
  assumes "spin_step\<^sup>*\<^sup>* (new_spin_lock n) L" "i < length (pcs L)" "j < length (pcs L)"
    "pcs L ! i = Holding" "pcs L ! j = Holding"
  shows "i = j \<and> sem L \<le> 0"
proof -
  have inv: "spin_inv L" by (rule spin.steps_inv [OF assms(1) spin_inv_new])
  have "i = j"
  proof (rule ccontr)
    assume "i \<noteq> j"
    have "count_list ((pcs L)[i := Outside]) Holding + 1 = at_pc Holding L"
      using count_list_update [OF assms(2), of Outside Holding] assms(4) by simp
    moreover have "0 < count_list ((pcs L)[i := Outside]) Holding"
      using count_list_pos [of j "(pcs L)[i := Outside]"] assms(3,5) \<open>i \<noteq> j\<close> by simp
    ultimately show False using inv by (simp add: spin_inv_def)
  qed
  with inv count_list_pos [OF assms(2)] assms(4) show ?thesis by (simp add: spin_inv_def)
qed

text \<open>A waiting thread leaves the loop only if it is the only one.\<close>

definition crowded :: "spin_lock \<Rightarrow> bool" where
  "crowded L \<longleftrightarrow> spin_inv L \<and> 2 \<le> at_pc Spinning L"

lemma crowded_step:
  assumes "spin_step L L'" "crowded L"
  shows "crowded L' \<and> (pcs L' ! k = Holding \<longrightarrow> pcs L ! k = Holding) \<and> (pcs L ! k = Spinning \<longrightarrow> pcs L' ! k = Spinning) \<and>
    length (pcs L') = length (pcs L)"
proof -
  have s: "sem L \<le> -1" using assms(2) by (simp add: crowded_def spin_inv_def)
  show ?thesis
    using assms(1)
  proof cases
    case (enter i)
    from s have "spin_lock_enter i L = L\<lparr>sem := sem L - 1, pcs := (pcs L)[i := Spinning]\<rparr>" by (simp add: spin_op_defs)
    with enter(1) have "pcs L' = (pcs L)[i := Spinning]" by simp
    with enter(2,3) assms(2) spin_step_inv [OF assms(1)] show ?thesis
      using count_list_update [OF enter(2), of Spinning Spinning] by (auto simp: crowded_def nth_list_update)
  next
    case (test i)
    with s assms(2) show ?thesis by (auto simp: spin_op_defs)
  next
    case (leave i)
    with assms(2) spin_step_inv [OF assms(1)] show ?thesis
      using count_list_update [OF leave(2), of Outside Spinning] by (auto simp: spin_op_defs crowded_def nth_list_update)
  qed
qed

lemma crowded_steps:
  "spin_step\<^sup>*\<^sup>* L L' \<Longrightarrow> crowded L \<Longrightarrow>
   crowded L' \<and> (pcs L' ! k = Holding \<longrightarrow> pcs L ! k = Holding) \<and> (pcs L ! k = Spinning \<longrightarrow> pcs L' ! k = Spinning)"
proof (induction rule: rtranclp_induct)
  case (step L1 L2)
  then show ?case using crowded_step [of L1 L2 k] by blast
qed simp

text \<open>
  C24: the spin lock deadlocks under contention. Once two threads wait for it at the same time, no thread
  ever acquires it again: \<open>unlock\<close> adds one to \<open>sem\<close>, but every waiting thread keeps its own decrement, so the
  counter stays negative. The holder may leave; the waiting threads spin for ever.
\<close>

theorem spin_lock_deadlock:
  assumes "spin_step\<^sup>*\<^sup>* (new_spin_lock n) L" "i < length (pcs L)" "j < length (pcs L)" "i \<noteq> j"
    "pcs L ! i = Spinning" "pcs L ! j = Spinning" "spin_step\<^sup>*\<^sup>* L L'"
  shows "sem L' < 0 \<and> pcs L' ! i = Spinning \<and> pcs L' ! j = Spinning \<and> (\<forall>k. pcs L' ! k = Holding \<longrightarrow> pcs L ! k = Holding)"
proof -
  have "count_list ((pcs L)[i := Outside]) Spinning + 1 = at_pc Spinning L"
    using count_list_update [OF assms(2), of Outside Spinning] assms(5) by simp
  moreover have "0 < count_list ((pcs L)[i := Outside]) Spinning"
    using count_list_pos [of j "(pcs L)[i := Outside]"] assms(3,4,6) by simp
  ultimately have c: "crowded L"
    using spin.steps_inv [OF assms(1) spin_inv_new] by (simp add: crowded_def)
  note s = crowded_steps [OF assms(7) c]
  have "sem L' < 0" using conjunct1 [OF s] by (auto simp: crowded_def spin_inv_def)
  with s assms(5,6) show ?thesis by blast
qed

text \<open>Three threads: one holds the lock, two wait.\<close>

definition spin_example :: spin_lock where
  "spin_example = spin_lock_enter 2 (spin_lock_enter 1 (spin_lock_enter 0 (new_spin_lock 3)))"

lemma spin_example_pcs: "spin_example = \<lparr> sem = -2, pcs = [Holding, Spinning, Spinning] \<rparr>"
  by (simp add: spin_example_def spin_op_defs new_spin_lock_def Let_def numeral_3_eq_3)

lemma spin_example_reach: "spin_step\<^sup>*\<^sup>* (new_spin_lock 3) spin_example"
proof -
  have "spin_step (new_spin_lock 3) (spin_lock_enter 0 (new_spin_lock 3))"
    by (rule enter) (simp_all add: new_spin_lock_def)
  moreover have "spin_step (spin_lock_enter 0 (new_spin_lock 3)) (spin_lock_enter 1 (spin_lock_enter 0 (new_spin_lock 3)))"
    by (rule enter) (simp_all add: new_spin_lock_def spin_op_defs)
  moreover have "spin_step (spin_lock_enter 1 (spin_lock_enter 0 (new_spin_lock 3))) spin_example"
    unfolding spin_example_def by (rule enter) (simp_all add: new_spin_lock_def spin_op_defs)
  ultimately show ?thesis by (meson converse_rtranclp_into_rtranclp rtranclp.rtrancl_refl)
qed

theorem spin_lock_excludes_witness: "sem spin_example \<le> 0"
  using spin_lock_excludes [OF spin_example_reach, of 0 0] by (simp add: spin_example_pcs)

theorem spin_lock_deadlock_witness: "pcs (spin_unlock 0 spin_example) ! 1 = Spinning \<and> sem (spin_unlock 0 spin_example) < 0"
proof -
  have "spin_step spin_example (spin_unlock 0 spin_example)" by (rule leave) (simp_all add: spin_example_pcs)
  then have "spin_step\<^sup>*\<^sup>* spin_example (spin_unlock 0 spin_example)" by blast
  from spin_lock_deadlock [OF spin_example_reach _ _ _ _ _ this, of 1 2] show ?thesis by (simp add: spin_example_pcs)
qed

section \<open>The latch\<close>

text \<open>
  \<open>CountDownLatch\<close>. The mutex makes each stretch between taking and releasing it one step. A waiting thread
  is about to take the mutex, blocked in \<open>pthread_cond_wait\<close>, woken and about to take the mutex again, or
  returned. \<open>notifyAll\<close> wakes every blocked thread; a blocked thread may also wake by itself.
\<close>

datatype latch_pc = Calling | Blocked | Woken | Returned

record latch =
  latch_count :: int
  waiters :: "latch_pc list"

definition new_latch :: "int \<Rightarrow> nat \<Rightarrow> latch" where
  "new_latch n k = \<lparr> latch_count = n, waiters = replicate k Calling \<rparr>"

definition notify_all :: "latch \<Rightarrow> latch" where
  "notify_all L = L\<lparr>waiters := map (\<lambda>p. if p = Blocked then Woken else p) (waiters L)\<rparr>"

definition latch_check :: "nat \<Rightarrow> latch \<Rightarrow> latch" where
  "latch_check i L = L\<lparr>waiters := (waiters L)[i := if latch_count L > 0 then Blocked else Returned]\<rparr>"

definition countDown :: "latch \<Rightarrow> latch" where
  "countDown L = (let L = L\<lparr>latch_count := latch_count L - 1\<rparr> in if latch_count L = 0 then notify_all L else L)"

inductive latch_step :: "latch \<Rightarrow> latch \<Rightarrow> bool" where
  check: "i < length (waiters L) \<Longrightarrow> waiters L ! i \<in> {Calling, Woken} \<Longrightarrow> latch_step L (latch_check i L)"
| spurious: "i < length (waiters L) \<Longrightarrow> waiters L ! i = Blocked \<Longrightarrow> latch_step L (L\<lparr>waiters := (waiters L)[i := Woken]\<rparr>)"
| count_down: "latch_step L (countDown L)"

definition latch_inv :: "latch \<Rightarrow> bool" where
  "latch_inv L \<longleftrightarrow> (latch_count L > 0 \<longrightarrow> Returned \<notin> set (waiters L)) \<and> (latch_count L \<le> 0 \<longrightarrow> Blocked \<notin> set (waiters L))"

lemma set_update_cases: "x \<in> set (xs[i := y]) \<Longrightarrow> x = y \<or> x \<in> set xs"
  using set_update_subset_insert [of xs i y] by blast

lemma latch_step_inv: "latch_step L L' \<Longrightarrow> latch_inv L \<Longrightarrow> latch_inv L'"
  by (induction rule: latch_step.induct)
    (auto simp: latch_inv_def latch_check_def countDown_def notify_all_def Let_def dest!: set_update_cases split: if_splits)

text \<open>The states after \<open>c\<close> calls of \<open>countDown\<close> on a latch with count \<open>n\<close> and \<open>k\<close> waiting threads.\<close>

inductive latch_reach :: "int \<Rightarrow> nat \<Rightarrow> nat \<Rightarrow> latch \<Rightarrow> bool" for n k where
  start: "latch_reach n k 0 (new_latch n k)"
| waiting: "latch_reach n k c L \<Longrightarrow> latch_step L L' \<Longrightarrow> latch_count L' = latch_count L \<Longrightarrow> latch_reach n k c L'"
| counting: "latch_reach n k c L \<Longrightarrow> latch_reach n k (c + 1) (countDown L)"

lemma countDown_count: "latch_count (countDown L) = latch_count L - 1"
  by (simp add: countDown_def notify_all_def Let_def)

lemma latch_reach_inv: "latch_reach n k c L \<Longrightarrow> latch_inv L \<and> latch_count L = n - int c \<and> length (waiters L) = k"
proof (induction rule: latch_reach.induct)
  case start
  show ?case by (auto simp: latch_inv_def new_latch_def)
next
  case (waiting c L L')
  have "length (waiters L') = length (waiters L)"
    using waiting(2) by cases (auto simp: latch_check_def countDown_def notify_all_def Let_def)
  with waiting latch_step_inv show ?case by auto
next
  case (counting c L)
  have "length (waiters (countDown L)) = length (waiters L)" by (simp add: countDown_def notify_all_def Let_def)
  with counting latch_step_inv [OF latch_step.count_down] show ?case by (simp add: countDown_count)
qed

text \<open>
  C34: the latch releases its waiting threads when, and only when, it has been counted down. With fewer than
  \<open>n\<close> calls of \<open>countDown\<close> no \<open>wait\<close> has returned; from the \<open>n\<close>-th call on no thread is blocked, and each one
  that has not returned does so in its next step, so that no notification is lost, whatever the order of the
  calls and of spurious wake-ups.
\<close>

theorem latch_releases:
  assumes "latch_reach n k c L"
  shows "(int c < n \<longrightarrow> Returned \<notin> set (waiters L)) \<and>
    (n \<le> int c \<longrightarrow> Blocked \<notin> set (waiters L) \<and>
      (\<forall>i<k. waiters L ! i = Returned \<or> latch_step L (latch_check i L) \<and> waiters (latch_check i L) ! i = Returned))"
proof -
  note inv = latch_reach_inv [OF assms]
  have "latch_step L (latch_check i L) \<and> waiters (latch_check i L) ! i = Returned"
    if "i < k" "n \<le> int c" "waiters L ! i \<noteq> Returned" for i
  proof -
    have "waiters L ! i \<in> set (waiters L)" "Blocked \<notin> set (waiters L)" using inv that by (auto simp: latch_inv_def)
    then have "waiters L ! i \<in> {Calling, Woken}" using that(3) by (metis insertCI latch_pc.exhaust)
    with inv that have "latch_step L (latch_check i L)" by (intro latch_step.check) auto
    with inv that show ?thesis by (simp add: latch_check_def)
  qed
  with inv show ?thesis by (auto simp: latch_inv_def)
qed

theorem latch_releases_witness:
  "waiters (countDown (latch_check 0 (new_latch 1 2))) = [Woken, Calling] \<and>
   Blocked \<notin> set (waiters (countDown (latch_check 0 (new_latch 1 2))))"
proof -
  have "latch_step (new_latch 1 2) (latch_check 0 (new_latch 1 2))" by (rule latch_step.check) (simp_all add: new_latch_def)
  then have "latch_reach 1 2 0 (latch_check 0 (new_latch 1 2))"
    by (rule latch_reach.waiting [OF latch_reach.start]) (simp add: latch_check_def)
  from latch_releases [OF latch_reach.counting [OF this]]
  show ?thesis by (simp add: latch_check_def new_latch_def countDown_def notify_all_def numeral_2_eq_2)
qed

section \<open>Waking one or all\<close>

text \<open>
  \<open>Condition\<close> for the threads that use it: \<open>wait\<close> blocks the calling thread, \<open>notify\<close> wakes the blocked thread \<open>i\<close> that the
  system chooses, if there is one. The latch waits in this way. The log calls \<open>notify\<close> where only its writer thread can be blocked,
  and there \<open>notify\<close> does what \<open>notifyAll\<close> does.
\<close>

definition cond_wait :: "nat \<Rightarrow> latch_pc list \<Rightarrow> latch_pc list" where
  "cond_wait i ws = ws[i := Blocked]"

definition cond_notify :: "nat \<Rightarrow> latch_pc list \<Rightarrow> latch_pc list" where
  "cond_notify i ws = (if i < length ws \<and> ws ! i = Blocked then ws[i := Woken] else ws)"

lemma latch_check_waits: "latch_count L > 0 \<Longrightarrow> waiters (latch_check i L) = cond_wait i (waiters L)"
  by (simp add: latch_check_def cond_wait_def)

lemma notify_one_all:
  assumes "\<forall>k<length (waiters L). waiters L ! k = Blocked \<longrightarrow> k = i"
  shows "L\<lparr>waiters := cond_notify i (waiters L)\<rparr> = notify_all L"
proof -
  have "cond_notify i (waiters L) = map (\<lambda>p. if p = Blocked then Woken else p) (waiters L)"
  proof (rule nth_equalityI)
    fix k
    assume "k < length (cond_notify i (waiters L))"
    then have "k < length (waiters L)" by (simp add: cond_notify_def split: if_splits)
    moreover have "k \<noteq> i \<Longrightarrow> waiters L ! k \<noteq> Blocked" using assms calculation by blast
    ultimately show "cond_notify i (waiters L) ! k = map (\<lambda>p. if p = Blocked then Woken else p) (waiters L) ! k"
      by (cases "k = i") (simp_all add: cond_notify_def)
  qed (simp add: cond_notify_def)
  then show ?thesis by (simp add: notify_all_def)
qed

section \<open>The timed wait\<close>

text \<open>
  The absolute deadline \<open>waitForSeconds\<close> passes to \<open>pthread_cond_timedwait\<close>, from the clock's seconds and
  nanoseconds.
\<close>

definition wait_deadline :: "int \<Rightarrow> int \<times> int \<Rightarrow> int \<times> int" where
  "wait_deadline seconds now =
     (let nanoseconds = seconds * 1000000000 in
      (fst now + c_div (snd now + nanoseconds) 1000000000, c_mod (snd now + nanoseconds) 1000000000))"

text \<open>It is normalised and lies exactly \<open>seconds\<close> after now.\<close>

lemma wait_deadline_exact:
  assumes "0 \<le> seconds" "0 \<le> snd now" "snd now < 1000000000"
  shows "wait_deadline seconds now = (fst now + seconds, snd now)"
  using assms by (simp add: wait_deadline_def c_div_def c_mod_def sgn_if Let_def)

section \<open>Thread objects\<close>

text \<open>
  \<open>Thread\<close>: \<open>created\<close> says whether \<open>pthread_create\<close> succeeded. The record counts the POSIX threads this object
  has created, joined and detached.
\<close>

record thread =
  th_running :: bool
  th_joined :: bool
  th_created :: nat
  th_collected :: nat

definition new_Thread :: thread where
  "new_Thread = \<lparr> th_running = False, th_joined = False, th_created = 0, th_collected = 0 \<rparr>"

definition Thread_start :: "bool \<Rightarrow> thread \<Rightarrow> thread" where
  "Thread_start created t =
     (if \<not> th_running t
      then if created then t\<lparr>th_running := True, th_created := th_created t + 1\<rparr> else t
      else t)"

definition Thread_join :: "thread \<Rightarrow> thread" where
  "Thread_join t =
     (if th_running t \<and> \<not> th_joined t
      then t\<lparr>th_collected := th_collected t + 1, th_joined := True, th_running := False\<rparr>
      else t)"

definition delete_Thread :: "thread \<Rightarrow> thread" where
  "delete_Thread t = (if th_running t \<and> \<not> th_joined t then t\<lparr>th_collected := th_collected t + 1\<rparr> else t)"

text \<open>
  An object that is started and joined any number of times, starting at most once, collects every thread it
  created exactly once; but \<open>join\<close> does not clear \<open>joined_\<close> on a later \<open>start\<close>, so a second thread of the same
  object is neither joined nor detached.
\<close>

lemma thread_collected:
  "delete_Thread (Thread_join (Thread_start True new_Thread)) =
     \<lparr> th_running = False, th_joined = True, th_created = 1, th_collected = 1 \<rparr>"
  "delete_Thread (Thread_start True new_Thread) = \<lparr> th_running = True, th_joined = False, th_created = 1, th_collected = 1 \<rparr>"
  "delete_Thread (Thread_join (Thread_start True (Thread_join (Thread_start True new_Thread)))) =
     \<lparr> th_running = True, th_joined = True, th_created = 2, th_collected = 1 \<rparr>"
  by (simp_all add: delete_Thread_def Thread_join_def Thread_start_def new_Thread_def)

end
