(* ===== verification/Async_Log.thy ===== *)
theory Async_Log
  imports Reyao_Prelude
begin

text \<open>
  \<open>src/reyao/fixedbuffer.h\<close>, \<open>asynclog.h\<close> and \<open>asynclog.cc\<close>: the buffer of fixed size, the rolling log file and the
  double-buffered logger with its writer thread. A null \<open>unique_ptr\<close> is \<open>None\<close>, and using it is a
  \<open>Memory_fault\<close>. The mutex makes \<open>append\<close> and the collection of the buffers one step each; everything else
  interleaves.
\<close>

section \<open>Buffers of fixed size\<close>

record fixed_buffer =
  fb_data :: "byte list"
  fb_pos :: nat

abbreviation kBufferSize :: nat where "kBufferSize \<equiv> 4096"

text \<open>\<open>junk\<close> is what the memory of a new buffer holds.\<close>

definition new_FixedBuffer :: "byte list \<Rightarrow> fixed_buffer" where
  "new_FixedBuffer junk = \<lparr> fb_data = take kBufferSize (junk @ replicate kBufferSize (CHR 0x00)), fb_pos = 0 \<rparr>"

definition fb_avail :: "fixed_buffer \<Rightarrow> nat" where
  "fb_avail B = size_sub kBufferSize (fb_pos B)"

definition fb_append :: "byte list \<Rightarrow> fixed_buffer \<Rightarrow> fixed_buffer res" where
  "fb_append bs B =
     (if size_sub kBufferSize (fb_pos B) \<ge> length bs
      then map_res (\<lambda>d. B\<lparr>fb_data := d, fb_pos := fb_pos B + length bs\<rparr>) (mem_write (fb_pos B) bs (fb_data B))
      else Inr B)"

definition fb_reset :: "fixed_buffer \<Rightarrow> fixed_buffer" where
  "fb_reset B = B\<lparr>fb_pos := 0\<rparr>"

text \<open>What \<open>data()\<close> and \<open>size()\<close> delimit.\<close>

definition fb_text :: "fixed_buffer \<Rightarrow> byte list" where
  "fb_text B = take (fb_pos B) (fb_data B)"

section \<open>The log file\<close>

text \<open>
  \<open>LogFile\<close>. \<open>lf_out\<close> are the pieces handed to \<open>fwrite\<close>, each with the name of the file that was open; \<open>lf_fwrite\<close> are the
  results of the coming calls of \<open>fwrite\<close> (all that was asked for when there is none). \<open>name\<close> is the file name of
  a time (\<open>localtime\<close> and \<open>strftime\<close>), \<open>clk\<close> the times a call reads, in order. Opening a file is taken to succeed.
\<close>

record log_file =
  lf_count :: nat
  lf_writed :: nat
  lf_lastFlush :: int
  lf_lastRoll :: int
  lf_fp :: "string option"
  lf_out :: "(string \<times> byte list) list"
  lf_fwrite :: "nat list"
  lf_flushes :: nat

abbreviation kRollPerSeconds :: int where "kRollPerSeconds \<equiv> 86400"
abbreviation kFlushInterval :: int where "kFlushInterval \<equiv> 3"
abbreviation kCheckRollPerN :: nat where "kCheckRollPerN \<equiv> 1024"
abbreviation kMaxFileSize :: nat where "kMaxFileSize \<equiv> 67108864"

definition rollFile :: "(int \<Rightarrow> string) \<Rightarrow> int \<Rightarrow> log_file \<Rightarrow> log_file" where
  "rollFile name now F =
     F\<lparr>lf_fp := Some (name now), lf_lastFlush := now, lf_lastRoll := now, lf_count := 0, lf_writed := 0\<rparr>"

definition new_LogFile :: "(int \<Rightarrow> string) \<Rightarrow> int \<Rightarrow> nat list \<Rightarrow> log_file" where
  "new_LogFile name now fw =
     rollFile name now \<lparr> lf_count = 0, lf_writed = 0, lf_lastFlush = 0, lf_lastRoll = 0, lf_fp = None,
       lf_out = [], lf_fwrite = fw, lf_flushes = 0 \<rparr>"

definition lf_flush :: "log_file \<Rightarrow> log_file" where
  "lf_flush F = F\<lparr>lf_flushes := lf_flushes F + 1\<rparr>"

definition fwrite_unlocked :: "byte list \<Rightarrow> log_file \<Rightarrow> nat \<times> log_file" where
  "fwrite_unlocked bs F =
     (let n = (case lf_fwrite F of [] \<Rightarrow> length bs | k # _ \<Rightarrow> min k (length bs)) in
      (n, F\<lparr>lf_fwrite := tl (lf_fwrite F), lf_out := lf_out F @ [(the (lf_fp F), take n bs)]\<rparr>))"

lemma fwrite_le: "fwrite_unlocked bs F = (n, F') \<Longrightarrow> n \<le> length bs"
  by (auto simp: fwrite_unlocked_def Let_def split: list.splits)

function lf_write :: "byte list \<Rightarrow> log_file \<Rightarrow> log_file" where
  "lf_write bs F =
     (if bs = [] then F
      else let (n, F) = fwrite_unlocked bs F in if n = 0 then F else lf_write (drop n bs) F)"
  by auto
termination by (relation "measure (\<lambda>(bs, F). length bs)") (auto dest: fwrite_le)

declare lf_write.simps [simp del]

definition lf_append :: "(int \<Rightarrow> string) \<Rightarrow> (nat \<Rightarrow> int) \<Rightarrow> byte list \<Rightarrow> log_file \<Rightarrow> log_file" where
  "lf_append name clk bs F =
     (let F = (if lf_writed F + length bs > kMaxFileSize then rollFile name (clk 0) F else F);
          F = lf_write bs F;
          F = F\<lparr>lf_writed := lf_writed F + length bs, lf_count := lf_count F + 1\<rparr> in
      if lf_count F \<ge> kCheckRollPerN
      then
        let now = clk 1;
            day = c_div now kRollPerSeconds * kRollPerSeconds;
            F = (if day > lf_lastRoll F then rollFile name (clk 2) F
                 else if now - lf_lastFlush F > kFlushInterval then lf_flush (F\<lparr>lf_lastFlush := now\<rparr>)
                 else F)
        in F\<lparr>lf_count := 0\<rparr>
      else F)"

definition lf_bytes :: "log_file \<Rightarrow> byte list" where
  "lf_bytes F = concat (map snd (lf_out F))"

lemma lf_write_bytes:
  "0 \<notin> set (lf_fwrite F) \<Longrightarrow>
   lf_bytes (lf_write bs F) = lf_bytes F @ bs \<and> set (lf_fwrite (lf_write bs F)) \<subseteq> set (lf_fwrite F) \<and>
   lf_fp (lf_write bs F) = lf_fp F \<and> lf_writed (lf_write bs F) = lf_writed F"
proof (induction bs F rule: lf_write.induct)
  case (1 bs F)
  show ?case
  proof (cases "bs = []")
    case True
    then show ?thesis by (simp add: lf_write.simps)
  next
    case False
    obtain n F' where f: "fwrite_unlocked bs F = (n, F')" by (cases "fwrite_unlocked bs F")
    with False 1(2) have n: "n \<noteq> 0" "lf_bytes F' = lf_bytes F @ take n bs" "set (lf_fwrite F') \<subseteq> set (lf_fwrite F)"
      "lf_fp F' = lf_fp F" "lf_writed F' = lf_writed F"
      by (auto simp: fwrite_unlocked_def Let_def lf_bytes_def split: list.splits dest: list.set_sel(2))
    then have "lf_write bs F = lf_write (drop n bs) F'" using False f by (simp add: lf_write.simps)
    with 1(1) [OF False f [symmetric] refl n(1)] 1(2) n show ?thesis by (auto simp: subset_iff)
  qed
qed

lemma lf_append_bytes:
  assumes "0 \<notin> set (lf_fwrite F)"
  shows "lf_bytes (lf_append name clk bs F) = lf_bytes F @ bs \<and> 0 \<notin> set (lf_fwrite (lf_append name clk bs F))"
proof -
  define F1 where "F1 = (if lf_writed F + length bs > kMaxFileSize then rollFile name (clk 0) F else F)"
  have F1: "lf_bytes F1 = lf_bytes F" "lf_fwrite F1 = lf_fwrite F" by (simp_all add: F1_def rollFile_def lf_bytes_def)
  note w = lf_write_bytes [of F1 bs]
  have "lf_bytes (lf_append name clk bs F) = lf_bytes (lf_write bs F1)"
    "lf_fwrite (lf_append name clk bs F) = lf_fwrite (lf_write bs F1)"
    by (simp_all add: lf_append_def F1_def [symmetric] Let_def rollFile_def lf_flush_def lf_bytes_def)
  with w F1 assms show ?thesis by auto
qed

section \<open>The logger\<close>

datatype writer_pc = W_top | W_collect | W_write | W_done

record async_log =
  al_running :: bool
  al_exit :: bool
  currBuffer :: "fixed_buffer option"
  backupBuffer :: "fixed_buffer option"
  al_buffers :: "fixed_buffer option list"
  firstBuffer :: "fixed_buffer option"
  secondBuffer :: "fixed_buffer option"
  wr_buffers :: "fixed_buffer option list"
  wr_next :: nat
  wr_pc :: writer_pc
  logfile :: log_file

text \<open>After \<open>start\<close>: the writer thread has opened its file and released the latch.\<close>

definition al_start :: "(int \<Rightarrow> string) \<Rightarrow> int \<Rightarrow> nat list \<Rightarrow> byte list \<Rightarrow> async_log" where
  "al_start name now fw junk =
     \<lparr> al_running = True, al_exit = False, currBuffer = Some (new_FixedBuffer junk), backupBuffer = Some (new_FixedBuffer junk),
       al_buffers = [], firstBuffer = Some (new_FixedBuffer junk), secondBuffer = Some (new_FixedBuffer junk),
       wr_buffers = [], wr_next = 0, wr_pc = W_top, logfile = new_LogFile name now fw \<rparr>"

definition al_append :: "byte list \<Rightarrow> byte list \<Rightarrow> async_log \<Rightarrow> async_log res" where
  "al_append junk msg A =
     (case currBuffer A of
        None \<Rightarrow> Inl Memory_fault
      | Some B \<Rightarrow>
          if fb_avail B > length msg then map_res (\<lambda>B. A\<lparr>currBuffer := Some B\<rparr>) (fb_append msg B)
          else
            let A = A\<lparr>al_buffers := al_buffers A @ [Some B]\<rparr>;
                (B, A) = (case backupBuffer A of
                            Some B \<Rightarrow> (B, A\<lparr>backupBuffer := None\<rparr>)
                          | None \<Rightarrow> (new_FixedBuffer junk, A))
            in map_res (\<lambda>B. A\<lparr>currBuffer := Some B\<rparr>) (fb_append msg B))"

definition al_stop :: "async_log \<Rightarrow> async_log" where
  "al_stop A = A\<lparr>al_exit := True\<rparr>"

text \<open>
  The writer thread. \<open>collect\<close> is the critical section; the wait for a full buffer before it gives up the
  mutex, so that other steps come in between. Then the buffers are written one after the other, and the
  first two are kept for the next round.
\<close>

definition collect :: "async_log \<Rightarrow> async_log" where
  "collect A =
     (let A = A\<lparr>al_buffers := al_buffers A @ [currBuffer A], currBuffer := firstBuffer A, firstBuffer := None\<rparr>;
          A = (if backupBuffer A = None then A\<lparr>backupBuffer := secondBuffer A, secondBuffer := None\<rparr> else A)
      in A\<lparr>wr_buffers := al_buffers A, al_buffers := wr_buffers A, wr_next := 0\<rparr>)"

definition write_next :: "(int \<Rightarrow> string) \<Rightarrow> (nat \<Rightarrow> int) \<Rightarrow> async_log \<Rightarrow> async_log res" where
  "write_next name clk A =
     (case wr_buffers A ! wr_next A of
        None \<Rightarrow> Inl Memory_fault
      | Some B \<Rightarrow> Inr (A\<lparr>logfile := lf_append name clk (fb_text B) (logfile A), wr_next := wr_next A + 1\<rparr>))"

definition recycle :: "byte list \<Rightarrow> async_log \<Rightarrow> async_log res" where
  "recycle junk A =
     (if wr_buffers A = [] \<or> hd (wr_buffers A) = None then Inl Memory_fault
      else
        let A = A\<lparr>firstBuffer := map_option fb_reset (hd (wr_buffers A)), wr_buffers := (wr_buffers A)[0 := None]\<rparr> in
        rbind
          (if secondBuffer A \<noteq> None then Inr A
           else if length (wr_buffers A) \<ge> 2
           then if wr_buffers A ! 1 = None then Inl Memory_fault
                else Inr (A\<lparr>secondBuffer := map_option fb_reset (wr_buffers A ! 1), wr_buffers := (wr_buffers A)[1 := None]\<rparr>)
           else Inr (A\<lparr>secondBuffer := Some (new_FixedBuffer junk)\<rparr>))
          (\<lambda>A. Inr (A\<lparr>wr_buffers := [], logfile := lf_flush (logfile A)\<rparr>)))"

definition writer_step :: "(int \<Rightarrow> string) \<Rightarrow> (nat \<Rightarrow> int) \<Rightarrow> byte list \<Rightarrow> async_log \<Rightarrow> async_log res" where
  "writer_step name clk junk A =
     (case wr_pc A of
        W_top \<Rightarrow>
          if al_running A
          then Inr (A\<lparr>al_running := \<not> al_exit A, wr_pc := W_collect\<rparr>)
          else Inr (A\<lparr>wr_pc := W_done\<rparr>)
      | W_collect \<Rightarrow> Inr ((collect A)\<lparr>wr_pc := W_write\<rparr>)
      | W_write \<Rightarrow>
          if wr_next A < length (wr_buffers A) then write_next name clk A
          else map_res (\<lambda>A. A\<lparr>wr_pc := W_top\<rparr>) (recycle junk A)
      | W_done \<Rightarrow> Inr A)"

datatype al_op = Append "byte list" "byte list" | Stop | Writer "nat \<Rightarrow> int" "byte list"

fun al_do :: "(int \<Rightarrow> string) \<Rightarrow> al_op \<Rightarrow> async_log \<Rightarrow> async_log res" where
  "al_do name (Append junk msg) A = al_append junk msg A"
| "al_do name Stop A = Inr (al_stop A)"
| "al_do name (Writer clk junk) A = writer_step name clk junk A"

text \<open>The states a running logger gets into, with the messages that fit into a buffer, in order.\<close>

fun fitting :: "al_op \<Rightarrow> byte list list" where
  "fitting (Append junk msg) = (if length msg \<le> kBufferSize then [msg] else [])"
| "fitting op = []"

inductive al_reach :: "(int \<Rightarrow> string) \<Rightarrow> byte list list \<Rightarrow> async_log \<Rightarrow> bool" for name where
  al_init: "0 \<notin> set fw \<Longrightarrow> al_reach name [] (al_start name now fw junk)"
| al_next: "al_reach name ms A \<Longrightarrow> al_do name op A = Inr A' \<Longrightarrow> al_reach name (ms @ fitting op) A'"

section \<open>Nothing is lost or reordered\<close>

definition fb_ok :: "fixed_buffer \<Rightarrow> bool" where
  "fb_ok B \<longleftrightarrow> length (fb_data B) = kBufferSize \<and> fb_pos B \<le> kBufferSize"

definition fb_clean :: "fixed_buffer option \<Rightarrow> bool" where
  "fb_clean b \<longleftrightarrow> (\<exists>B. b = Some B \<and> fb_ok B \<and> fb_pos B = 0)"

definition fb_full :: "fixed_buffer option \<Rightarrow> bool" where
  "fb_full b \<longleftrightarrow> (\<exists>B. b = Some B \<and> fb_ok B)"

definition opt_text :: "fixed_buffer option \<Rightarrow> byte list" where
  "opt_text b = (case b of None \<Rightarrow> [] | Some B \<Rightarrow> fb_text B)"

definition pending :: "async_log \<Rightarrow> byte list" where
  "pending A = concat (map opt_text (drop (wr_next A) (wr_buffers A))) @ concat (map opt_text (al_buffers A)) @ opt_text (currBuffer A)"

definition al_inv :: "async_log \<Rightarrow> bool" where
  "al_inv A \<longleftrightarrow>
     fb_full (currBuffer A) \<and> (backupBuffer A = None \<or> fb_clean (backupBuffer A)) \<and> list_all fb_full (al_buffers A) \<and>
     0 \<notin> set (lf_fwrite (logfile A)) \<and> (wr_pc A = W_done \<longrightarrow> \<not> al_running A) \<and>
     (if wr_pc A = W_write
      then (secondBuffer A = None \<or> fb_clean (secondBuffer A)) \<and> wr_buffers A \<noteq> [] \<and> list_all fb_full (wr_buffers A)
      else fb_clean (firstBuffer A) \<and> fb_clean (secondBuffer A) \<and> wr_buffers A = [])"

lemma fb_new: "fb_clean (Some (new_FixedBuffer junk))"
  by (simp add: fb_clean_def fb_ok_def new_FixedBuffer_def)

lemma fb_clean_full: "fb_clean b \<Longrightarrow> fb_full b" "fb_clean b \<Longrightarrow> opt_text b = []"
  by (auto simp: fb_clean_def fb_full_def opt_text_def fb_text_def)

lemma fb_reset_clean: "fb_full b \<Longrightarrow> fb_clean (map_option fb_reset b)"
  by (auto simp: fb_clean_def fb_full_def fb_ok_def fb_reset_def)

lemma fb_append_ok:
  assumes "fb_ok B"
  shows "\<exists>B'. fb_append msg B = Inr B' \<and> fb_ok B' \<and>
    fb_text B' = (if length msg \<le> kBufferSize - fb_pos B then fb_text B @ msg else fb_text B)"
proof -
  have "size_sub kBufferSize (fb_pos B) = kBufferSize - fb_pos B"
    using assms by (intro size_sub_nowrap) (simp_all add: fb_ok_def)
  with assms show ?thesis
    by (auto simp: fb_append_def mem_write_def fb_ok_def fb_text_def)
qed

lemma fb_avail_ok: "fb_ok B \<Longrightarrow> fb_avail B = kBufferSize - fb_pos B"
  by (auto simp: fb_avail_def fb_ok_def intro: size_sub_nowrap)

lemma al_append_ok:
  assumes "al_inv A"
  shows "\<exists>A'. al_append junk msg A = Inr A' \<and> al_inv A' \<and> logfile A' = logfile A \<and> al_running A' = al_running A \<and>
    al_exit A' = al_exit A \<and> pending A' = pending A @ concat (fitting (Append junk msg))"
proof -
  obtain B where B: "currBuffer A = Some B" "fb_ok B" using assms by (auto simp: al_inv_def fb_full_def)
  show ?thesis
  proof (cases "fb_avail B > length msg")
    case True
    with B fb_append_ok [OF B(2), of msg] fb_avail_ok [OF B(2)] obtain B' where
      B': "fb_append msg B = Inr B'" "fb_ok B'" "fb_text B' = fb_text B @ msg" by auto
    moreover have "length msg \<le> kBufferSize" using True fb_avail_ok [OF B(2)] by simp
    ultimately show ?thesis
      using True B assms by (auto simp: al_append_def al_inv_def fb_full_def pending_def opt_text_def)
  next
    case False
    define C where "C = (case backupBuffer A of Some B \<Rightarrow> B | None \<Rightarrow> new_FixedBuffer junk)"
    have C: "fb_clean (Some C)" using assms fb_new by (auto simp: C_def al_inv_def split: option.split)
    then have C': "fb_ok C" "fb_pos C = 0" "fb_text C = []" by (auto simp: fb_clean_def fb_text_def)
    with fb_append_ok [OF C'(1), of msg] obtain C1 where
      C1: "fb_append msg C = Inr C1" "fb_ok C1" "fb_text C1 = (if length msg \<le> kBufferSize then msg else [])" by auto
    define A' where "A' = A\<lparr>al_buffers := al_buffers A @ [Some B], backupBuffer := None, currBuffer := Some C1\<rparr>"
    have "al_append junk msg A = Inr A'"
      using False B(1) C1(1) by (cases "backupBuffer A") (simp_all add: al_append_def A'_def C_def Let_def)
    moreover have "al_inv A'" using assms B C1 by (auto simp: A'_def al_inv_def fb_full_def)
    moreover have "pending A' = pending A @ concat (fitting (Append junk msg))"
      using B(1) C1(3) by (simp add: A'_def pending_def opt_text_def)
    ultimately show ?thesis by (simp add: A'_def)
  qed
qed

lemma collect_ok:
  assumes "al_inv A" "wr_pc A = W_collect"
  shows "al_inv ((collect A)\<lparr>wr_pc := W_write\<rparr>) \<and> pending (collect A) = pending A \<and> logfile (collect A) = logfile A \<and>
    al_running (collect A) = al_running A \<and> al_exit (collect A) = al_exit A \<and>
    al_buffers (collect A) = [] \<and> opt_text (currBuffer (collect A)) = []"
  using assms fb_clean_full [of "firstBuffer A"]
  by (auto simp: collect_def al_inv_def pending_def Let_def)

lemma write_next_ok:
  assumes "al_inv A" "wr_pc A = W_write" "wr_next A < length (wr_buffers A)"
  shows "\<exists>A'. write_next name clk A = Inr A' \<and> al_inv A' \<and> lf_bytes (logfile A') @ pending A' = lf_bytes (logfile A) @ pending A \<and>
    A' = A\<lparr>logfile := logfile A', wr_next := wr_next A + 1\<rparr>"
proof -
  obtain B where B: "wr_buffers A ! wr_next A = Some B"
    using assms by (auto simp: al_inv_def list_all_length fb_full_def)
  then have "drop (wr_next A) (wr_buffers A) = Some B # drop (wr_next A + 1) (wr_buffers A)"
    using assms(3) by (metis Cons_nth_drop_Suc Suc_eq_plus1)
  with assms B lf_append_bytes [of "logfile A" name clk "fb_text B"] show ?thesis
    by (auto simp: write_next_def al_inv_def pending_def opt_text_def)
qed

lemma recycle_ok:
  assumes "al_inv A" "wr_pc A = W_write" "\<not> wr_next A < length (wr_buffers A)"
  shows "\<exists>A'. recycle junk A = Inr A' \<and> al_inv (A'\<lparr>wr_pc := W_top\<rparr>) \<and> lf_bytes (logfile A') = lf_bytes (logfile A) \<and>
    pending A' = pending A \<and> al_running A' = al_running A \<and> al_exit A' = al_exit A \<and>
    al_buffers A' = al_buffers A \<and> currBuffer A' = currBuffer A"
proof -
  obtain b bs where W: "wr_buffers A = b # bs" "fb_full b" "list_all fb_full bs"
    using assms(1,2) by (cases "wr_buffers A") (auto simp: al_inv_def)
  have b: "b \<noteq> None" using W(2) by (auto simp: fb_full_def)
  note c = fb_reset_clean [OF W(2)]
  show ?thesis
  proof (cases "secondBuffer A = None")
    case False
    with assms W b c show ?thesis
      by (auto simp: recycle_def Let_def al_inv_def pending_def lf_flush_def lf_bytes_def)
  next
    case None: True
    show ?thesis
    proof (cases bs)
      case Nil
      with assms None W b c fb_new show ?thesis
        by (auto simp: recycle_def Let_def al_inv_def pending_def lf_flush_def lf_bytes_def)
    next
      case (Cons d ds)
      with W have "d \<noteq> None" "fb_clean (map_option fb_reset d)" by (auto simp: fb_full_def fb_reset_clean)
      with Cons assms None W b c show ?thesis
        by (auto simp: recycle_def Let_def al_inv_def pending_def lf_flush_def lf_bytes_def)
    qed
  qed
qed

lemma writer_step_ok:
  assumes "al_inv A"
  shows "\<exists>A'. writer_step name clk junk A = Inr A' \<and> al_inv A' \<and>
    lf_bytes (logfile A') @ pending A' = lf_bytes (logfile A) @ pending A"
proof (cases "wr_pc A")
  case W_top
  with assms show ?thesis by (auto simp: writer_step_def al_inv_def pending_def)
next
  case W_collect
  with collect_ok [OF assms] show ?thesis by (auto simp: writer_step_def pending_def)
next
  case W_write
  show ?thesis
  proof (cases "wr_next A < length (wr_buffers A)")
    case True
    with write_next_ok [OF assms W_write True, of name clk] W_write show ?thesis by (auto simp: writer_step_def)
  next
    case False
    from recycle_ok [OF assms W_write False, of junk] obtain A' where
      A': "recycle junk A = Inr A'" "al_inv (A'\<lparr>wr_pc := W_top\<rparr>)" "lf_bytes (logfile A') = lf_bytes (logfile A)" "pending A' = pending A"
      by blast
    have "pending (A'\<lparr>wr_pc := W_top\<rparr>) = pending A'" by (simp add: pending_def)
    with A' W_write False show ?thesis by (simp add: writer_step_def)
  qed
next
  case W_done
  with assms show ?thesis by (simp add: writer_step_def)
qed

lemma al_do_ok:
  assumes "al_inv A"
  shows "\<exists>A'. al_do name op A = Inr A' \<and> al_inv A' \<and>
    lf_bytes (logfile A') @ pending A' = lf_bytes (logfile A) @ pending A @ concat (fitting op)"
proof (cases op)
  case (Append junk msg)
  with al_append_ok [OF assms, of junk msg] show ?thesis by auto
next
  case Stop
  with assms show ?thesis by (auto simp: al_stop_def al_inv_def pending_def)
next
  case (Writer clk junk)
  with writer_step_ok [OF assms, of name clk junk] show ?thesis by auto
qed

lemma al_reach_inv: "al_reach name ms A \<Longrightarrow> al_inv A \<and> lf_bytes (logfile A) @ pending A = concat ms"
proof (induction rule: al_reach.induct)
  case (al_init fw now junk)
  have "opt_text (Some (new_FixedBuffer junk)) = []" by (rule fb_clean_full(2) [OF fb_new])
  with al_init fb_new fb_clean_full(1) [OF fb_new] show ?case
    by (simp add: al_inv_def al_start_def pending_def new_LogFile_def rollFile_def lf_bytes_def)
next
  case (al_next ms A op A')
  then show ?case using al_do_ok [of A name op] by auto
qed

text \<open>
  C14: the logger keeps order and loses nothing. However appends, the writer thread and \<open>stop\<close> interleave, no
  step uses a null buffer, and what is in the files followed by what is in the buffers is exactly the
  messages of at most 4096 bytes, in the order of their \<open>append\<close>. A longer message is dropped without trace.
\<close>

theorem asynclog_order:
  assumes "al_reach name ms A"
  shows "lf_bytes (logfile A) @ pending A = concat ms \<and> (\<forall>op. \<exists>A'. al_do name op A = Inr A') \<and>
    (\<forall>junk msg A'. kBufferSize < length msg \<longrightarrow> al_append junk msg A = Inr A' \<longrightarrow>
       lf_bytes (logfile A') @ pending A' = lf_bytes (logfile A) @ pending A)"
proof -
  note inv = al_reach_inv [OF assms]
  have "lf_bytes (logfile A') @ pending A' = lf_bytes (logfile A) @ pending A"
    if "kBufferSize < length msg" "al_append junk msg A = Inr A'" for junk msg A'
    using al_append_ok [of A junk msg] inv that by auto
  moreover have "\<exists>A'. al_do name op A = Inr A'" for op using al_do_ok [of A name op] inv by blast
  ultimately show ?thesis using inv by blast
qed

section \<open>Everything is written\<close>

fun writer_run :: "(int \<Rightarrow> string) \<Rightarrow> (nat \<Rightarrow> int) \<Rightarrow> byte list \<Rightarrow> nat \<Rightarrow> async_log \<Rightarrow> async_log res" where
  "writer_run name clk junk 0 A = Inr A"
| "writer_run name clk junk (Suc n) A = rbind (writer_step name clk junk A) (writer_run name clk junk n)"

lemma writer_run_add:
  "writer_run name clk junk m A = Inr A' \<Longrightarrow> writer_run name clk junk (m + n) A = writer_run name clk junk n A'"
  by (induction m arbitrary: A) (auto simp: rbind_Inr_iff)

lemma writer_run_one: "writer_step name clk junk A = Inr A' \<Longrightarrow> writer_run name clk junk 1 A = Inr A'"
  by simp

text \<open>Once the buffers are collected they are all written, and the thread is back at the top of its loop.\<close>

lemma write_phase:
  assumes "al_inv A" "wr_pc A = W_write"
  shows "\<exists>n A'. writer_run name clk junk n A = Inr A' \<and> wr_pc A' = W_top \<and> al_inv A' \<and>
    lf_bytes (logfile A') @ pending A' = lf_bytes (logfile A) @ pending A \<and>
    al_running A' = al_running A \<and> al_exit A' = al_exit A \<and> al_buffers A' = al_buffers A \<and> currBuffer A' = currBuffer A"
  using assms
proof (induction "length (wr_buffers A) - wr_next A" arbitrary: A rule: less_induct)
  case less
  show ?case
  proof (cases "wr_next A < length (wr_buffers A)")
    case True
    from write_next_ok [OF less(2,3) True, of name clk] obtain A1 where
      A1: "write_next name clk A = Inr A1" "al_inv A1"
        "lf_bytes (logfile A1) @ pending A1 = lf_bytes (logfile A) @ pending A"
        "A1 = A\<lparr>logfile := logfile A1, wr_next := wr_next A + 1\<rparr>" by blast
    have f: "wr_pc A1 = W_write" "length (wr_buffers A1) - wr_next A1 < length (wr_buffers A) - wr_next A"
      "al_running A1 = al_running A" "al_exit A1 = al_exit A" "al_buffers A1 = al_buffers A" "currBuffer A1 = currBuffer A"
      using True less(3) by (subst A1(4); simp)+
    have st: "writer_step name clk junk A = Inr A1" using True less(3) A1(1) by (simp add: writer_step_def)
    from less(1) [OF f(2) A1(2) f(1)] obtain n A' where
      A': "writer_run name clk junk n A1 = Inr A'" "wr_pc A' = W_top" "al_inv A'"
        "lf_bytes (logfile A') @ pending A' = lf_bytes (logfile A1) @ pending A1"
        "al_running A' = al_running A1" "al_exit A' = al_exit A1" "al_buffers A' = al_buffers A1" "currBuffer A' = currBuffer A1"
      by blast
    have "writer_run name clk junk (Suc n) A = Inr A'" using st A'(1) by simp
    with A' A1(3) f show ?thesis by metis
  next
    case False
    from recycle_ok [OF less(2,3) False, of junk] obtain A1 where
      A1: "recycle junk A = Inr A1" "al_inv (A1\<lparr>wr_pc := W_top\<rparr>)" "lf_bytes (logfile A1) = lf_bytes (logfile A)"
        "pending A1 = pending A" "al_running A1 = al_running A" "al_exit A1 = al_exit A"
        "al_buffers A1 = al_buffers A" "currBuffer A1 = currBuffer A" by blast
    have "writer_run name clk junk 1 A = Inr (A1\<lparr>wr_pc := W_top\<rparr>)"
      using less(3) False A1(1) by (simp add: writer_step_def)
    moreover have "pending (A1\<lparr>wr_pc := W_top\<rparr>) = pending A1" by (simp add: pending_def)
    ultimately show ?thesis using A1 by (intro exI [of _ 1] exI [of _ "A1\<lparr>wr_pc := W_top\<rparr>"]) simp
  qed
qed

text \<open>From the critical section on, one pass writes everything that had been appended before it.\<close>

lemma collect_phase:
  assumes "al_inv A" "wr_pc A = W_collect"
  shows "\<exists>n A'. writer_run name clk junk n A = Inr A' \<and> wr_pc A' = W_top \<and> al_inv A' \<and>
    lf_bytes (logfile A') = lf_bytes (logfile A) @ pending A \<and> pending A' = [] \<and>
    al_running A' = al_running A \<and> al_exit A' = al_exit A"
proof -
  let ?C = "(collect A)\<lparr>wr_pc := W_write\<rparr>"
  note c = collect_ok [OF assms]
  have C: "writer_step name clk junk A = Inr ?C" using assms(2) by (simp add: writer_step_def)
  have "pending ?C = pending (collect A)" by (simp add: pending_def)
  with c have p: "pending ?C = pending A" by simp
  from write_phase [of ?C name clk junk] c obtain n A' where
    A': "writer_run name clk junk n ?C = Inr A'" "wr_pc A' = W_top" "al_inv A'"
      "lf_bytes (logfile A') @ pending A' = lf_bytes (logfile ?C) @ pending ?C"
      "al_running A' = al_running ?C" "al_exit A' = al_exit ?C" "al_buffers A' = al_buffers ?C" "currBuffer A' = currBuffer ?C"
    by auto
  have "wr_buffers A' = []" using A'(2,3) by (simp add: al_inv_def)
  then have "pending A' = []" using A'(7,8) c by (simp add: pending_def)
  moreover have "writer_run name clk junk (Suc n) A = Inr A'" using C A'(1) by simp
  ultimately show ?thesis using A' p c by (intro exI [of _ "Suc n"] exI [of _ A']) simp
qed

lemma round_phase:
  assumes "al_inv A" "wr_pc A = W_top" "al_running A"
  shows "\<exists>n A'. writer_run name clk junk n A = Inr A' \<and> lf_bytes (logfile A') = lf_bytes (logfile A) @ pending A \<and>
    (al_exit A \<longrightarrow> wr_pc A' = W_done)"
proof -
  let ?A = "A\<lparr>al_running := \<not> al_exit A, wr_pc := W_collect\<rparr>"
  have A: "writer_step name clk junk A = Inr ?A" using assms by (simp add: writer_step_def)
  have "al_inv ?A" "pending ?A = pending A" using assms by (auto simp: al_inv_def pending_def)
  with collect_phase [of ?A name clk junk] obtain n A' where
    A': "writer_run name clk junk n ?A = Inr A'" "wr_pc A' = W_top" "lf_bytes (logfile A') = lf_bytes (logfile A) @ pending A"
      "al_running A' = al_running ?A" by auto
  show ?thesis
  proof (cases "al_exit A")
    case True
    then have "writer_step name clk junk A' = Inr (A'\<lparr>wr_pc := W_done\<rparr>)" using A' by (simp add: writer_step_def)
    with writer_run_add [OF A'(1), of 1] have "writer_run name clk junk (n + 1) ?A = Inr (A'\<lparr>wr_pc := W_done\<rparr>)" by simp
    with A A' have "writer_run name clk junk (Suc (n + 1)) A = Inr (A'\<lparr>wr_pc := W_done\<rparr>)" by simp
    with A'(3) show ?thesis by (intro exI [of _ "Suc (n + 1)"] exI [of _ "A'\<lparr>wr_pc := W_done\<rparr>"]) simp
  next
    case False
    with A A' show ?thesis by (intro exI [of _ "Suc n"] exI [of _ A']) simp
  qed
qed

lemma al_append_frame: "al_append junk msg A = Inr A' \<Longrightarrow> wr_pc A' = wr_pc A \<and> logfile A' = logfile A"
  by (auto simp: al_append_def Let_def map_res_Inr_iff split: option.splits if_splits)

text \<open>
  C35: every message reaches a file. While the writer thread has not begun its last round, its own steps
  bring everything that was appended so far into the files, and if \<open>stop\<close> was called they end the thread.
  A thread that has ended writes nothing any more, so what is appended after its last critical section
  stays in memory.
\<close>

theorem asynclog_written:
  assumes "al_reach name ms A" "al_running A"
  shows "(\<exists>n A'. writer_run name clk junk n A = Inr A' \<and> lf_bytes (logfile A') = concat ms \<and> (al_exit A \<longrightarrow> wr_pc A' = W_done)) \<and>
    (\<forall>op B B'. wr_pc B = W_done \<longrightarrow> al_do name op B = Inr B' \<longrightarrow> wr_pc B' = W_done \<and> logfile B' = logfile B)"
proof -
  note inv = al_reach_inv [OF assms(1)]
  have top: "\<exists>n A1. writer_run name clk junk n A = Inr A1 \<and> wr_pc A1 = W_top \<and> al_inv A1 \<and> al_running A1 \<and>
      lf_bytes (logfile A1) @ pending A1 = concat ms \<and> al_exit A1 = al_exit A"
    if "wr_pc A \<noteq> W_done"
  proof (cases "wr_pc A")
    case W_top
    with inv assms(2) show ?thesis by (intro exI [of _ 0] exI [of _ A]) simp
  next
    case W_collect
    with collect_phase [of A name clk junk] inv assms(2) show ?thesis by fastforce
  next
    case W_write
    with write_phase [of A name clk junk] inv assms(2) show ?thesis by fastforce
  qed (use that in simp)
  have "wr_pc A \<noteq> W_done" using inv assms(2) by (auto simp: al_inv_def)
  with top obtain n A1 where A1: "writer_run name clk junk n A = Inr A1" "wr_pc A1 = W_top" "al_inv A1" "al_running A1"
      "lf_bytes (logfile A1) @ pending A1 = concat ms" "al_exit A1 = al_exit A" by blast
  from round_phase [OF A1(3,2,4), of name clk junk] obtain m A' where
    A': "writer_run name clk junk m A1 = Inr A'" "lf_bytes (logfile A') = concat ms" "al_exit A \<longrightarrow> wr_pc A' = W_done"
    using A1(5,6) by auto
  then have "\<exists>n A'. writer_run name clk junk n A = Inr A' \<and> lf_bytes (logfile A') = concat ms \<and> (al_exit A \<longrightarrow> wr_pc A' = W_done)"
    using writer_run_add [OF A1(1), of m] by (intro exI [of _ "n + m"] exI [of _ A']) simp
  moreover have "wr_pc B' = W_done \<and> logfile B' = logfile B" if "wr_pc B = W_done" "al_do name op B = Inr B'" for op B B'
    using that by (cases op) (auto simp: al_stop_def writer_step_def dest: al_append_frame)
  ultimately show ?thesis by blast
qed

lemma log_example: "al_reach name [''hello''] (projr (al_append [] ''hello'' (al_start name 0 [] [])))"
proof -
  have i: "al_reach name [] (al_start name 0 [] [])" by (rule al_init) simp
  then obtain A' where "al_append [] ''hello'' (al_start name 0 [] []) = Inr A'"
    using al_append_ok [of "al_start name 0 [] []" "[]" "''hello''"] al_reach_inv by blast
  with al_next [OF i, of "Append [] ''hello''" A'] show ?thesis by simp
qed

theorem asynclog_order_witness:
  "lf_bytes (logfile (projr (al_append [] ''hello'' (al_start (\<lambda>_. ''x.log'') 0 [] [])))) @
   pending (projr (al_append [] ''hello'' (al_start (\<lambda>_. ''x.log'') 0 [] []))) = ''hello''"
  using asynclog_order [OF log_example [of "\<lambda>_. ''x.log''"]] by simp

theorem asynclog_written_witness:
  "\<exists>n A'. writer_run (\<lambda>_. ''x.log'') (\<lambda>_. 0) [] n (projr (al_append [] ''hello'' (al_start (\<lambda>_. ''x.log'') 0 [] []))) = Inr A' \<and>
     lf_bytes (logfile A') = ''hello''"
proof -
  have "al_running (projr (al_append [] ''hello'' (al_start (\<lambda>_. ''x.log'') 0 [] [])))"
    using al_append_ok [of "al_start (\<lambda>_. ''x.log'') 0 [] []" "[]" "''hello''"]
      al_reach_inv [OF al_init, of "[]" "\<lambda>_. ''x.log''" 0 "[]"] by (auto simp: al_start_def)
  from asynclog_written [OF log_example this, of "\<lambda>_. 0" "[]"] show ?thesis by fastforce
qed

end
