(* ===== verification/Log_Rolling.thy ===== *)
theory Log_Rolling
  imports Async_Log
begin

text \<open>
  How large the files of \<open>LogFile\<close> (\<open>src/reyao/asynclog.cc\<close>) get. A file is the pieces written under one name, and
  the name of a file is made from the second in which \<open>rollFile\<close> opens it.
\<close>

text \<open>The seconds of the years 1970 to 9999, whose names have the 19 characters \<open>getFileName\<close> has room for.\<close>

abbreviation four_digit_years :: "int set" where
  "four_digit_years \<equiv> {0..<253402300800}"

definition file_size :: "string \<Rightarrow> log_file \<Rightarrow> nat" where
  "file_size f F = length (concat (map snd (filter (\<lambda>p. fst p = f) (lf_out F))))"

lemma lf_write_out:
  "\<exists>ps fw. lf_write bs F = F\<lparr>lf_out := lf_out F @ ps, lf_fwrite := fw\<rparr> \<and>
     list_all (\<lambda>p. fst p = the (lf_fp F)) ps \<and> length (concat (map snd ps)) \<le> length bs"
proof (induction bs F rule: lf_write.induct)
  case (1 bs F)
  show ?case
  proof (cases "bs = []")
    case True
    then show ?thesis by (intro exI [of _ "[]"] exI [of _ "lf_fwrite F"]) (simp add: lf_write.simps)
  next
    case False
    define n where "n = (case lf_fwrite F of [] \<Rightarrow> length bs | k # _ \<Rightarrow> min k (length bs))"
    let ?F = "F\<lparr>lf_fwrite := tl (lf_fwrite F), lf_out := lf_out F @ [(the (lf_fp F), take n bs)]\<rparr>"
    have f: "fwrite_unlocked bs F = (n, ?F)" by (simp add: fwrite_unlocked_def n_def Let_def)
    have w: "lf_write bs F = (if n = 0 then ?F else lf_write (drop n bs) ?F)"
      using False f by (simp add: lf_write.simps)
    show ?thesis
    proof (cases "n = 0")
      case True
      with w show ?thesis
        by (intro exI [of _ "[(the (lf_fp F), [])]"] exI [of _ "tl (lf_fwrite F)"]) simp
    next
      case nz: False
      from 1 [OF False f [symmetric] refl nz] obtain ps fw where
        "lf_write (drop n bs) ?F = ?F\<lparr>lf_out := lf_out ?F @ ps, lf_fwrite := fw\<rparr>"
        "list_all (\<lambda>p. fst p = the (lf_fp F)) ps" "length (concat (map snd ps)) \<le> length (drop n bs)" by auto
      with w nz fwrite_le [OF f] show ?thesis
        by (intro exI [of _ "(the (lf_fp F), take n bs) # ps"] exI [of _ fw]) simp
    qed
  qed
qed

lemma lf_write_size:
  "file_size f (lf_write bs F) \<le> file_size f F + (if f = the (lf_fp F) then length bs else 0) \<and>
   (\<forall>p\<in>set (lf_out (lf_write bs F)). p \<in> set (lf_out F) \<or> fst p = the (lf_fp F)) \<and>
   lf_fp (lf_write bs F) = lf_fp F \<and> lf_writed (lf_write bs F) = lf_writed F \<and> lf_lastRoll (lf_write bs F) = lf_lastRoll F \<and>
   lf_count (lf_write bs F) = lf_count F"
proof -
  obtain ps fw where w: "lf_write bs F = F\<lparr>lf_out := lf_out F @ ps, lf_fwrite := fw\<rparr>"
    "list_all (\<lambda>p. fst p = the (lf_fp F)) ps" "length (concat (map snd ps)) \<le> length bs"
    using lf_write_out by blast
  have "filter (\<lambda>p. fst p = f) ps = (if f = the (lf_fp F) then ps else [])"
    using w(2) by (auto simp: list_all_iff filter_empty_conv)
  with w show ?thesis by (auto simp: file_size_def list_all_iff)
qed

text \<open>
  The states of a log file whose clock does not run backwards. A roll that the size causes is assumed not to
  come in the second of the roll before it; for a roll that a new day causes this need not be assumed.
\<close>

inductive lf_reach :: "(int \<Rightarrow> string) \<Rightarrow> log_file \<Rightarrow> bool" for name where
  lf_open: "now \<in> four_digit_years \<Longrightarrow> lf_reach name (new_LogFile name now fw)"
| lf_more: "lf_reach name F \<Longrightarrow> length bs \<le> kBufferSize \<Longrightarrow> range clk \<subseteq> four_digit_years \<Longrightarrow> clk 1 \<le> clk 2 \<Longrightarrow>
    (kMaxFileSize < lf_writed F + length bs \<Longrightarrow> lf_lastRoll F < clk 0) \<Longrightarrow> lf_reach name (lf_append name clk bs F)"

definition roll_inv :: "(int \<Rightarrow> string) \<Rightarrow> log_file \<Rightarrow> bool" where
  "roll_inv name F \<longleftrightarrow>
     lf_fp F = Some (name (lf_lastRoll F)) \<and> lf_lastRoll F \<in> four_digit_years \<and> lf_writed F \<le> kMaxFileSize \<and>
     file_size (name (lf_lastRoll F)) F \<le> lf_writed F \<and> (\<forall>f. file_size f F \<le> kMaxFileSize) \<and>
     (\<forall>p\<in>set (lf_out F). \<exists>t\<in>{0..lf_lastRoll F}. fst p = name t)"

lemma roll_inv_name: "roll_inv name F \<Longrightarrow> p \<in> set (lf_out F) \<Longrightarrow> \<exists>t\<in>{0..lf_lastRoll F}. fst p = name t"
  unfolding roll_inv_def by simp

lemma roll_inv_roll:
  assumes "inj_on name four_digit_years" "roll_inv name F" "lf_lastRoll F < now" "now \<in> four_digit_years"
  shows "roll_inv name (rollFile name now F)"
proof -
  have "fst p \<noteq> name now" if p: "p \<in> set (lf_out F)" for p
  proof -
    obtain t where "t \<in> {0..lf_lastRoll F}" "fst p = name t" using roll_inv_name [OF assms(2) p] by (rule bexE)
    moreover have "t \<in> four_digit_years" "t \<noteq> now" using \<open>t \<in> {0..lf_lastRoll F}\<close> assms(3,4) by simp_all
    ultimately show ?thesis using inj_onD [OF assms(1) _ _ assms(4), of t] by metis
  qed
  then have "filter (\<lambda>p. fst p = name now) (lf_out F) = []" by (simp add: filter_empty_conv)
  moreover have "{0..lf_lastRoll F} \<subseteq> {0..now}" using assms(3) by auto
  then have "\<exists>t\<in>{0..now}. fst p = name t" if "p \<in> set (lf_out F)" for p
    using roll_inv_name [OF assms(2) that] by blast
  ultimately show ?thesis using assms(2,4) by (simp add: roll_inv_def rollFile_def file_size_def)
qed

lemma roll_inv_write:
  assumes "roll_inv name F" "lf_writed F + length bs \<le> kMaxFileSize"
  shows "roll_inv name ((lf_write bs F)\<lparr>lf_writed := lf_writed F + length bs, lf_count := c\<rparr>)"
proof -
  have "file_size f (lf_write bs F) \<le> kMaxFileSize" for f
    using lf_write_size [of f bs F] assms by (cases "f = the (lf_fp F)") (auto simp: roll_inv_def intro: order_trans)
  moreover have "file_size (name (lf_lastRoll F)) (lf_write bs F) \<le> lf_writed F + length bs"
    using lf_write_size [of "name (lf_lastRoll F)" bs F] assms by (auto simp: roll_inv_def)
  moreover have "\<exists>t\<in>{0..lf_lastRoll F}. fst p = name t" if "p \<in> set (lf_out (lf_write bs F))" for p
    using conjunct1 [OF conjunct2 [OF lf_write_size [of "[]" bs F]]] assms(1) that unfolding roll_inv_def by fastforce
  ultimately show ?thesis
    using lf_write_size [of _ bs F] assms by (simp add: roll_inv_def file_size_def)
qed

lemma day_le: "0 \<le> now \<Longrightarrow> c_div now kRollPerSeconds * kRollPerSeconds \<le> now"
proof -
  assume "0 \<le> now"
  have "now div kRollPerSeconds * kRollPerSeconds + now mod kRollPerSeconds = now" by (rule div_mult_mod_eq)
  moreover have "0 \<le> now mod kRollPerSeconds" by simp
  ultimately have "now div kRollPerSeconds * kRollPerSeconds \<le> now" by linarith
  with \<open>0 \<le> now\<close> show ?thesis by (simp add: c_div_def sgn_if)
qed

lemma roll_inv_append:
  assumes "inj_on name four_digit_years" "roll_inv name F" "length bs \<le> kBufferSize" "range clk \<subseteq> four_digit_years" "clk 1 \<le> clk 2"
    "kMaxFileSize < lf_writed F + length bs \<Longrightarrow> lf_lastRoll F < clk 0"
  shows "roll_inv name (lf_append name clk bs F)"
proof -
  have clk: "clk i \<in> four_digit_years" for i using assms(4) by blast
  define F1 where "F1 = (if kMaxFileSize < lf_writed F + length bs then rollFile name (clk 0) F else F)"
  define F2 where "F2 = (lf_write bs F1)\<lparr>lf_writed := lf_writed F1 + length bs, lf_count := lf_count F1 + 1\<rparr>"
  have "lf_writed F1 + length bs \<le> kMaxFileSize" using assms(3) by (auto simp: F1_def rollFile_def)
  moreover have "roll_inv name F1" using assms(2,6) roll_inv_roll [OF assms(1,2) _ clk, of 0] by (simp add: F1_def)
  ultimately have F2: "roll_inv name F2" unfolding F2_def by (intro roll_inv_write)
  have c: "roll_inv name (G\<lparr>lf_count := c\<rparr>) = roll_inv name G" "roll_inv name (lf_flush (G\<lparr>lf_lastFlush := d\<rparr>)) = roll_inv name G"
    for G c d by (simp_all add: roll_inv_def file_size_def lf_flush_def)
  have "roll_inv name (rollFile name (clk 2) F2)" if "c_div (clk 1) kRollPerSeconds * kRollPerSeconds > lf_lastRoll F2"
    using roll_inv_roll [OF assms(1) F2 _ clk] that day_le [of "clk 1"] clk [of 1] assms(5) by simp
  moreover have "lf_append name clk bs F =
      (if lf_count F2 \<ge> kCheckRollPerN
       then (if c_div (clk 1) kRollPerSeconds * kRollPerSeconds > lf_lastRoll F2 then rollFile name (clk 2) F2
             else if clk 1 - lf_lastFlush F2 > kFlushInterval then lf_flush (F2\<lparr>lf_lastFlush := clk 1\<rparr>) else F2)\<lparr>lf_count := 0\<rparr>
       else F2)"
    using lf_write_size [of _ bs F1] by (simp add: lf_append_def F1_def [symmetric] F2_def Let_def)
  ultimately show ?thesis using F2 c by (simp split: if_splits)
qed

text \<open>The bound, for any way of naming the files that gives different seconds different names.\<close>

lemma file_size_bound:
  assumes "inj_on name four_digit_years" "lf_reach name F"
  shows "file_size f F \<le> kMaxFileSize"
proof -
  from assms(2) have "roll_inv name F"
  proof (induction rule: lf_reach.induct)
    case (lf_open now fw)
    then show ?case by (simp add: roll_inv_def new_LogFile_def rollFile_def file_size_def)
  next
    case (lf_more F bs clk)
    with roll_inv_append [OF assms(1)] show ?case by blast
  qed
  then show ?thesis by (simp add: roll_inv_def)
qed

text \<open>
  Without that the bound fails: while the clock stays in one second, every roll opens the same file again for
  appending, and the file grows by every buffer.
\<close>

fun lf_burst :: "(int \<Rightarrow> string) \<Rightarrow> int \<Rightarrow> byte list list \<Rightarrow> log_file \<Rightarrow> log_file" where
  "lf_burst name now [] F = F"
| "lf_burst name now (bs # bss) F = lf_burst name now bss (lf_append name (\<lambda>_. now) bs F)"

lemma lf_append_same_second:
  assumes "0 \<le> now" "lf_fp F = Some (name now)" "lf_lastRoll F = now" "lf_lastFlush F = now" "lf_fwrite F = []"
  shows "let G = lf_append name (\<lambda>_. now) bs F in
    lf_fp G = Some (name now) \<and> lf_lastRoll G = now \<and> lf_lastFlush G = now \<and> lf_fwrite G = [] \<and>
    file_size (name now) G = file_size (name now) F + length bs"
  using assms day_le [OF assms(1)]
  by (auto simp: lf_append_def rollFile_def Let_def lf_write.simps fwrite_unlocked_def file_size_def)

theorem log_file_burst:
  assumes "0 \<le> now"
  shows "file_size (name now) (lf_burst name now bss (new_LogFile name now [])) = length (concat bss)"
proof -
  have "file_size (name now) (lf_burst name now bss F) = file_size (name now) F + length (concat bss)"
    if "lf_fp F = Some (name now)" "lf_lastRoll F = now" "lf_lastFlush F = now" "lf_fwrite F = []" for F
    using that
  proof (induction bss arbitrary: F)
    case (Cons bs bss)
    from lf_append_same_second [of now F name bs] Cons assms show ?case by (simp add: Let_def)
  qed simp
  then show ?thesis by (simp add: new_LogFile_def rollFile_def file_size_def)
qed

end
