(* ===== verification/Log_Names.thy ===== *)
theory Log_Names
  imports Log_Rolling C_Text "HOL-Library.Product_Lexorder"
begin

text \<open>
  The names of log files (\<open>LogFile::getFileName\<close> in \<open>src/reyao/asynclog.cc\<close>): the local time in the format
  \<open>%Y%m%d-%H%M%S.log\<close>, written into 20 bytes. The time zone is an argument.
\<close>

section \<open>Broken-down time\<close>

text \<open>\<open>struct tm\<close>: the year less 1900, the month from 0, the day from 1, hour, minute and second.\<close>

datatype tm = Tm (tm_year: int) (tm_mon: int) (tm_mday: int) (tm_hour: int) (tm_min: int) (tm_sec: int)

definition tm_key :: "tm \<Rightarrow> int \<times> int \<times> int \<times> int \<times> int \<times> int" where
  "tm_key t = (tm_year t, tm_mon t, tm_mday t, tm_hour t, tm_min t, tm_sec t)"

lemma tm_key_inj: "tm_key s = tm_key t \<longleftrightarrow> s = t"
  by (cases s; cases t) (simp add: tm_key_def)

text \<open>Earlier times are smaller.\<close>

instantiation tm :: linorder
begin

definition less_eq_tm :: "tm \<Rightarrow> tm \<Rightarrow> bool" where
  "less_eq_tm s t \<longleftrightarrow> tm_key s \<le> tm_key t"

definition less_tm :: "tm \<Rightarrow> tm \<Rightarrow> bool" where
  "less_tm s t \<longleftrightarrow> tm_key s < tm_key t"

instance
  by standard (auto simp: less_eq_tm_def less_tm_def less_le tm_key_inj)

end

text \<open>The fields \<open>localtime\<close> gives for a year of four digits; the second may be a leap second.\<close>

definition tm_ok :: "tm \<Rightarrow> bool" where
  "tm_ok t \<longleftrightarrow> -1900 \<le> tm_year t \<and> tm_year t \<le> 8099 \<and> 0 \<le> tm_mon t \<and> tm_mon t \<le> 11 \<and> 1 \<le> tm_mday t \<and> tm_mday t \<le> 31 \<and>
     0 \<le> tm_hour t \<and> tm_hour t \<le> 23 \<and> 0 \<le> tm_min t \<and> tm_min t \<le> 59 \<and> 0 \<le> tm_sec t \<and> tm_sec t \<le> 60"

section \<open>Printing it\<close>

definition digit :: "int \<Rightarrow> char" where
  "digit n = char_of (48 + nat n)"

definition pad2 :: "int \<Rightarrow> string" where
  "pad2 n = [digit (n div 10), digit (n mod 10)]"

text \<open>\<open>%Y\<close> prints a year of four digits with them, and a later year with all its digits.\<close>

definition format_year :: "int \<Rightarrow> string" where
  "format_year y = (if 0 \<le> y \<and> y \<le> 9999 then pad2 (y div 100) @ pad2 (y mod 100) else dec_int y)"

definition strftime_name :: "tm \<Rightarrow> string" where
  "strftime_name t = format_year (tm_year t + 1900) @ pad2 (tm_mon t + 1) @ pad2 (tm_mday t) @ ''-'' @
     pad2 (tm_hour t) @ pad2 (tm_min t) @ pad2 (tm_sec t) @ ''.log''"

text \<open>
  \<open>buf\<close> is what the 20 bytes hold before; \<open>strftime\<close> fills them when the text and its null byte fit, and leaves them
  unspecified otherwise, here as they were.
\<close>

definition getFileName :: "(int \<Rightarrow> tm) \<Rightarrow> string \<Rightarrow> int \<Rightarrow> string" where
  "getFileName localtime buf now =
     (let text = strftime_name (localtime now);
          buf = (if length text < 20 then text @ [CHR 0x00] @ drop (length text + 1) buf else buf) in
      c_str (buf[19 := CHR 0x00]))"

section \<open>Names sort by time\<close>

lemma ord_digit: "0 \<le> n \<Longrightarrow> n \<le> 9 \<Longrightarrow> ord_of (digit n) = 48 + nat n"
  by (simp add: digit_def ord_of_char_of)

lemma digit_not_null: "0 \<le> n \<Longrightarrow> n \<le> 9 \<Longrightarrow> digit n \<noteq> CHR 0x00"
  using ord_digit [of n] by (auto simp: ord_of_def)

lemma cmp_digit:
  assumes "0 \<le> a" "a \<le> 9" "0 \<le> b" "b \<le> 9"
  shows "cmp_bytes (digit a # x) (digit b # y) < 0 \<longleftrightarrow> a < b \<or> a = b \<and> cmp_bytes x y < 0"
  using assms ord_digit [of a] ord_digit [of b] by (auto simp flip: ord_of_inj)

lemma div_mod_order:
  fixes a b k :: int
  assumes "0 < k"
  shows "a div k < b div k \<or> a div k = b div k \<and> a mod k < b mod k \<longleftrightarrow> a < b" "a div k = b div k \<and> a mod k = b mod k \<longleftrightarrow> a = b"
proof -
  have e: "a = k * (a div k) + a mod k" "b = k * (b div k) + b mod k" by simp_all
  show "a div k = b div k \<and> a mod k = b mod k \<longleftrightarrow> a = b" using e by metis
  have "b div k \<le> a div k" if "b \<le> a" using zdiv_mono1 [OF that assms] .
  moreover have "a div k \<le> b div k" if "a \<le> b" using zdiv_mono1 [OF that assms] .
  moreover have "a mod k < b mod k \<longleftrightarrow> a < b" if "a div k = b div k"
  proof -
    from e that have "a - a mod k = b - b mod k" by (metis add_diff_cancel_right')
    then show ?thesis by linarith
  qed
  ultimately show "a div k < b div k \<or> a div k = b div k \<and> a mod k < b mod k \<longleftrightarrow> a < b" by linarith
qed

definition two_digits :: "int \<Rightarrow> bool" where
  "two_digits n \<longleftrightarrow> 0 \<le> n \<and> n \<le> 99"

lemma cmp_pad2:
  assumes "two_digits a" "two_digits b"
  shows "cmp_bytes (pad2 a @ x) (pad2 b @ y) < 0 \<longleftrightarrow> a < b \<or> a = b \<and> cmp_bytes x y < 0"
proof -
  have "0 \<le> a div 10" "a div 10 \<le> 9" "0 \<le> b div 10" "b div 10 \<le> 9" "0 \<le> a mod 10" "a mod 10 \<le> 9" "0 \<le> b mod 10" "b mod 10 \<le> 9"
    using assms by (auto simp: two_digits_def)
  then have "cmp_bytes (pad2 a @ x) (pad2 b @ y) < 0 \<longleftrightarrow>
      a div 10 < b div 10 \<or> a div 10 = b div 10 \<and> (a mod 10 < b mod 10 \<or> a mod 10 = b mod 10 \<and> cmp_bytes x y < 0)"
    unfolding pad2_def append_Cons append_Nil by (simp only: cmp_digit)
  moreover have "(0::int) < 10" by simp
  ultimately show ?thesis using div_mod_order [of 10 a b] by blast
qed

lemma cmp_same: "cmp_bytes (c # x) (c # y) = cmp_bytes x y"
  by simp

lemma strftime_name_less:
  assumes "tm_ok s" "tm_ok t"
  shows "cmp_bytes (strftime_name s) (strftime_name t) < 0 \<longleftrightarrow> s < t"
proof -
  define p q where "p = tm_year s + 1900" and "q = tm_year t + 1900"
  have b: "0 \<le> p" "p \<le> 9999" "0 \<le> q" "q \<le> 9999" using assms by (simp_all add: tm_ok_def p_def q_def)
  have r: "two_digits (p div 100)" "two_digits (q div 100)" "two_digits (p mod 100)" "two_digits (q mod 100)"
    using b by (auto simp: two_digits_def)
  have y: "p div 100 < q div 100 \<or> p div 100 = q div 100 \<and> p mod 100 < q mod 100 \<longleftrightarrow> tm_year s < tm_year t"
    "p div 100 = q div 100 \<and> p mod 100 = q mod 100 \<longleftrightarrow> tm_year s = tm_year t" 
    using div_mod_order [of 100 p q] by (simp_all add: p_def q_def)
  have f: "two_digits (tm_mon x + 1)" "two_digits (tm_mday x)" "two_digits (tm_hour x)" "two_digits (tm_min x)" "two_digits (tm_sec x)"
    if "tm_ok x" for x
    using that by (simp_all add: tm_ok_def two_digits_def)
  have "cmp_bytes (strftime_name s) (strftime_name t) < 0 \<longleftrightarrow>
      p div 100 < q div 100 \<or> p div 100 = q div 100 \<and> (p mod 100 < q mod 100 \<or> p mod 100 = q mod 100 \<and>
        (tm_mon s < tm_mon t \<or> tm_mon s = tm_mon t \<and> (tm_mday s < tm_mday t \<or> tm_mday s = tm_mday t \<and>
          (tm_hour s < tm_hour t \<or> tm_hour s = tm_hour t \<and> (tm_min s < tm_min t \<or> tm_min s = tm_min t \<and> tm_sec s < tm_sec t)))))"
    using b unfolding strftime_name_def format_year_def p_def [symmetric] q_def [symmetric]
    by (simp add: cmp_pad2 r f assms add1_zle_eq)
  moreover have "s < t \<longleftrightarrow> tm_year s < tm_year t \<or> tm_year s = tm_year t \<and>
        (tm_mon s < tm_mon t \<or> tm_mon s = tm_mon t \<and> (tm_mday s < tm_mday t \<or> tm_mday s = tm_mday t \<and>
          (tm_hour s < tm_hour t \<or> tm_hour s = tm_hour t \<and> (tm_min s < tm_min t \<or> tm_min s = tm_min t \<and> tm_sec s < tm_sec t))))"
    unfolding less_tm_def tm_key_def less_prod_simp by (auto simp only: order.order_iff_strict)
  ultimately show ?thesis using y by blast
qed

lemma pad2_text: "0 \<le> n \<Longrightarrow> n \<le> 99 \<Longrightarrow> CHR 0x00 \<notin> set (pad2 n) \<and> length (pad2 n) = 2"
proof -
  assume "0 \<le> n" "n \<le> 99"
  then have "0 \<le> n div 10" "n div 10 \<le> 9" "0 \<le> n mod 10" "n mod 10 \<le> 9" by simp_all
  with digit_not_null [of "n div 10"] digit_not_null [of "n mod 10"] show ?thesis by (auto simp: pad2_def)
qed

lemma strftime_name_text:
  assumes "tm_ok t"
  shows "length (strftime_name t) = 19 \<and> CHR 0x00 \<notin> set (strftime_name t)"
proof -
  have "length (format_year (tm_year t + 1900)) = 4 \<and> CHR 0x00 \<notin> set (format_year (tm_year t + 1900))"
  proof -
    define y where "y = tm_year t + 1900"
    have "0 \<le> y" "y \<le> 9999" using assms by (simp_all add: tm_ok_def y_def)
    moreover from this have "0 \<le> y div 100" "y div 100 \<le> 99" "0 \<le> y mod 100" "y mod 100 \<le> 99" by simp_all
    ultimately show ?thesis using pad2_text [of "y div 100"] pad2_text [of "y mod 100"]
      unfolding y_def [symmetric] by (simp add: format_year_def)
  qed
  with assms pad2_text [of "tm_mon t + 1"] pad2_text [of "tm_mday t"] pad2_text [of "tm_hour t"] pad2_text [of "tm_min t"]
    pad2_text [of "tm_sec t"] show ?thesis by (simp add: strftime_name_def tm_ok_def)
qed

lemma getFileName_text:
  assumes "tm_ok (localtime now)"
  shows "getFileName localtime buf now = strftime_name (localtime now)"
proof -
  have "takeWhile (\<lambda>c. c \<noteq> CHR 0x00) (strftime_name (localtime now) @ CHR 0x00 # bs) = strftime_name (localtime now)" for bs
    using strftime_name_text [OF assms] by (subst takeWhile_append2) auto
  with strftime_name_text [OF assms] show ?thesis by (simp add: getFileName_def Let_def c_str_def list_update_append)
qed

lemma log_names_differ:
  assumes "tm_ok (localtime t)" "tm_ok (localtime u)"
  shows "getFileName localtime buf t = getFileName localtime buf u \<longleftrightarrow> localtime t = localtime u"
proof -
  have n: "getFileName localtime buf t = strftime_name (localtime t)" "getFileName localtime buf u = strftime_name (localtime u)"
    by (rule getFileName_text, rule assms)+
  show ?thesis using strftime_name_less [OF assms] strftime_name_less [OF assms(2,1)]
    unfolding n by (cases "localtime t" "localtime u" rule: linorder_cases) auto
qed

text \<open>The names are as long as the buffer allows, and sorting them as bytes sorts the files by local time.\<close>

theorem log_names_sorted:
  assumes "tm_ok (localtime t)" "tm_ok (localtime u)"
  shows "length (getFileName localtime buf t) = 19"
    "strcmp (getFileName localtime buf t) (getFileName localtime buf u) < 0 \<longleftrightarrow> localtime t < localtime u"
proof -
  have n: "getFileName localtime buf t = strftime_name (localtime t)" "getFileName localtime buf u = strftime_name (localtime u)"
    by (rule getFileName_text, rule assms)+
  note x = strftime_name_text [OF assms(1)] strftime_name_text [OF assms(2)]
  show "length (getFileName localtime buf t) = 19" using n x by simp
  show "strcmp (getFileName localtime buf t) (getFileName localtime buf u) < 0 \<longleftrightarrow> localtime t < localtime u"
    using strftime_name_less [OF assms] x by (simp add: n strcmp_def c_str_id)
qed

section \<open>The size of the files\<close>

lemma getFileName_inj:
  assumes "inj_on localtime A" "\<forall>t\<in>A. tm_ok (localtime t)"
  shows "inj_on (getFileName localtime buf) A"
  using assms log_names_differ unfolding inj_on_def by blast


text \<open>A calendar with twelve months of 28 days.\<close>

definition lunar :: "int \<Rightarrow> tm" where
  "lunar t = (let d = t div 86400 in
     Tm (d div 336 - 1900) (d div 28 mod 12) (d mod 28 + 1) (t div 3600 mod 24) (t div 60 mod 60) (t mod 60))"

lemma lunar_ok: "t \<in> four_digit_years \<Longrightarrow> tm_ok (lunar t)"
  by (auto simp: lunar_def tm_ok_def Let_def)

lemma lunar_inj: "inj lunar"
proof (rule injI)
  fix t u :: int
  assume "lunar t = lunar u"
  then have e: "t mod 60 = u mod 60" "t div 60 mod 60 = u div 60 mod 60" "t div 3600 mod 24 = u div 3600 mod 24"
    "t div 86400 mod 28 = u div 86400 mod 28" "t div 86400 div 28 mod 12 = u div 86400 div 28 mod 12" "t div 86400 div 336 = u div 86400 div 336"
    by (simp_all add: lunar_def Let_def)
  have m: "x div 3600 = x div 60 div 60" "x div 86400 = x div 3600 div 24" "x div 336 = x div 28 div 12" for x :: int
    by (simp_all flip: zdiv_zmult2_eq)
  note o = div_mod_order(2) [THEN iffD1, OF _ conjI]
  have "t div 86400 div 28 = u div 86400 div 28" by (rule o [OF zero_less_numeral e(6) [unfolded m(3)] e(5)])
  then have "t div 86400 = u div 86400" by (rule o [OF zero_less_numeral _ e(4)])
  then have "t div 3600 = u div 3600" unfolding m(2) by (rule o [OF zero_less_numeral _ e(3)])
  then have "t div 60 = u div 60" unfolding m(1) by (rule o [OF zero_less_numeral _ e(2)])
  then show "t = u" by (rule o [OF zero_less_numeral _ e(1)])
qed


end
