(* ===== verification/Log.thy ===== *)
theory Log
  imports Async_Log C_Text
begin

text \<open>
  \<open>src/reyao/log.h\<close> and \<open>log.cc\<close>: levels, log records, the formatter with its pattern language, and the logger that
  formats a record and hands it to the file appender. \<open>fmt_time\<close> is \<open>localtime_r\<close> with \<open>strftime\<close>, which depends on
  the machine's time zone.
\<close>

section \<open>Records and items\<close>

datatype LogLevel = DEBUG | INFO | WARN | ERROR | FATAL

fun LogLevel_value :: "LogLevel \<Rightarrow> nat" where
  "LogLevel_value DEBUG = 1"
| "LogLevel_value INFO = 2"
| "LogLevel_value WARN = 3"
| "LogLevel_value ERROR = 4"
| "LogLevel_value FATAL = 5"

fun LogLevel_ToString :: "LogLevel \<Rightarrow> string" where
  "LogLevel_ToString DEBUG = ''DEBUG''"
| "LogLevel_ToString INFO = ''INFO''"
| "LogLevel_ToString WARN = ''WARN''"
| "LogLevel_ToString ERROR = ''ERROR''"
| "LogLevel_ToString FATAL = ''FATAL''"

record LogData =
  ld_level :: LogLevel
  ld_content :: string
  ld_time :: int
  ld_threadId :: "32 word"
  ld_coroutineId :: "32 word"
  ld_threadName :: string
  ld_fileName :: string
  ld_line :: "32 word"

datatype fmt_item =
  MessageFmtItem | LevelFmtItem | DateTimeFmtItem | ThreadIdFmtItem | CoroutineIdFmtItem | ThreadNameFmtItem
| FileNameFmtItem | LineFmtItem | NextLineFmtItem | TableFmtItem | StringFmtItem string

text \<open>The thread-local cache of the date: the second it was made for and the text.\<close>

record time_cache =
  t_last_second :: int
  t_time :: string

definition DateTime_format :: "(int \<Rightarrow> string) \<Rightarrow> int \<Rightarrow> time_cache \<Rightarrow> string \<times> time_cache" where
  "DateTime_format fmt_time second C =
     (let C = (if second \<noteq> t_last_second C then C\<lparr>t_last_second := second, t_time := fmt_time second\<rparr> else C)
      in (t_time C, C))"

fun item_format :: "(int \<Rightarrow> string) \<Rightarrow> LogData \<Rightarrow> fmt_item \<Rightarrow> time_cache \<Rightarrow> string \<times> time_cache" where
  "item_format fmt_time data MessageFmtItem C = (ld_content data, C)"
| "item_format fmt_time data LevelFmtItem C = (LogLevel_ToString (ld_level data), C)"
| "item_format fmt_time data DateTimeFmtItem C = DateTime_format fmt_time (ld_time data) C"
| "item_format fmt_time data ThreadIdFmtItem C = (dec (unat (ld_threadId data)), C)"
| "item_format fmt_time data CoroutineIdFmtItem C = (dec (unat (ld_coroutineId data)), C)"
| "item_format fmt_time data ThreadNameFmtItem C = (ld_threadName data, C)"
| "item_format fmt_time data FileNameFmtItem C = (ld_fileName data, C)"
| "item_format fmt_time data LineFmtItem C = (dec (unat (ld_line data)), C)"
| "item_format fmt_time data NextLineFmtItem C = (''\<newline>'', C)"
| "item_format fmt_time data TableFmtItem C = ([CHR 0x09], C)"
| "item_format fmt_time data (StringFmtItem str) C = (str, C)"

section \<open>Patterns\<close>

text \<open>
  The loop of \<open>LogFormatter::init\<close>: \<open>s\<close> is the literal text collected so far, the second argument the pattern from
  the current position on. A directive is a \<open>%\<close> with all letters behind it.
\<close>

function init_loop_fmt :: "string \<Rightarrow> string \<Rightarrow> (string \<times> bool) list" where
  "init_loop_fmt s pat =
     (case pat of
        [] \<Rightarrow> if s \<noteq> [] then [(s, False)] else []
      | c # rest \<Rightarrow>
          if c \<noteq> CHR 0x25 then init_loop_fmt (s @ [c]) rest
          else if rest \<noteq> [] \<and> hd rest = CHR 0x25 then init_loop_fmt (s @ [CHR 0x25]) rest
          else (if s \<noteq> [] then [(s, False)] else []) @
               (takeWhile is_alpha_c rest, True) # init_loop_fmt [] (dropWhile is_alpha_c rest))"
  by auto
termination by (relation "measure (\<lambda>(s, pat). length pat)") (auto simp: le_imp_less_Suc length_dropWhile_le)

declare init_loop_fmt.simps [simp del]

definition format2Item :: "(string \<times> fmt_item) list" where
  "format2Item =
     [(''m'', MessageFmtItem), (''p'', LevelFmtItem), (''d'', DateTimeFmtItem), (''t'', ThreadIdFmtItem),
      (''c'', CoroutineIdFmtItem), (''N'', ThreadNameFmtItem), (''f'', FileNameFmtItem), (''l'', LineFmtItem),
      (''n'', NextLineFmtItem), (''T'', TableFmtItem)]"

definition to_item :: "string \<times> bool \<Rightarrow> fmt_item" where
  "to_item v =
     (if \<not> snd v then StringFmtItem (fst v)
      else case map_of format2Item (fst v) of
        None \<Rightarrow> StringFmtItem (''<<error format '' @ [CHR 0x25] @ fst v @ ''>>'')
      | Some i \<Rightarrow> i)"

definition LogFormatter :: "string \<Rightarrow> fmt_item list" where
  "LogFormatter pattern = map to_item (init_loop_fmt [] pattern)"

fun format :: "(int \<Rightarrow> string) \<Rightarrow> LogData \<Rightarrow> fmt_item list \<Rightarrow> time_cache \<Rightarrow> string \<times> time_cache" where
  "format fmt_time data [] C = ([], C)"
| "format fmt_time data (i # is) C =
     (let (a, C) = item_format fmt_time data i C; (b, C) = format fmt_time data is C in (a @ b, C))"

definition s_defaultLogFormat :: string where
  "s_defaultLogFormat = ''[%p %d]%T[%t %N %c]%T%f:%l %T%m%n''"

section \<open>The logger\<close>

text \<open>\<open>lg_cache\<close> is the date cache of the thread whose statements are followed.\<close>

record logger =
  lg_level :: LogLevel
  lg_formatter :: "fmt_item list"
  lg_file :: async_log
  lg_cache :: time_cache

definition new_Logger :: "async_log \<Rightarrow> logger" where
  "new_Logger A =
     \<lparr> lg_level = DEBUG, lg_formatter = LogFormatter s_defaultLogFormat, lg_file = A,
       lg_cache = \<lparr> t_last_second = 0, t_time = [] \<rparr> \<rparr>"

definition setLevel :: "LogLevel \<Rightarrow> logger \<Rightarrow> logger" where
  "setLevel level G = G\<lparr>lg_level := level\<rparr>"

definition setFormatter :: "string \<Rightarrow> logger \<Rightarrow> logger" where
  "setFormatter pattern G = G\<lparr>lg_formatter := LogFormatter pattern\<rparr>"

text \<open>\<open>Logger::append\<close> through the \<open>FileAppender\<close>.\<close>

definition logger_append :: "(int \<Rightarrow> string) \<Rightarrow> byte list \<Rightarrow> LogData \<Rightarrow> logger \<Rightarrow> logger res" where
  "logger_append fmt_time junk data G =
     (let (logline, C) = format fmt_time data (lg_formatter G) (lg_cache G) in
      map_res (\<lambda>A. G\<lparr>lg_file := A, lg_cache := C\<rparr>) (al_append junk logline (lg_file G)))"

text \<open>The \<open>LOG_LEVEL\<close> macro: the record is built and appended only if the logger's level admits it.\<close>

definition LOG_LEVEL :: "(int \<Rightarrow> string) \<Rightarrow> byte list \<Rightarrow> LogData \<Rightarrow> logger \<Rightarrow> logger res" where
  "LOG_LEVEL fmt_time junk data G =
     (if LogLevel_value (lg_level G) \<le> LogLevel_value (ld_level data) then logger_append fmt_time junk data G else Inr G)"

section \<open>What a pattern prints\<close>

datatype token = Lit string | Dir string

fun render :: "token list \<Rightarrow> string" where
  "render [] = []"
| "render (Lit s # ts) = s @ render ts"
| "render (Dir d # ts) = CHR ''%'' # d @ render ts"

fun wf_tokens :: "token list \<Rightarrow> bool" where
  "wf_tokens [] = True"
| "wf_tokens (Lit s # ts) = (CHR ''%'' \<notin> set s \<and> wf_tokens ts)"
| "wf_tokens (Dir d # ts) = (d \<noteq> [] \<and> list_all is_alpha_c d \<and> (render ts = [] \<or> \<not> is_alpha_c (hd (render ts))) \<and> wf_tokens ts)"

definition fresh_cache :: "(int \<Rightarrow> string) \<Rightarrow> LogData \<Rightarrow> time_cache" where
  "fresh_cache fmt_time data = \<lparr> t_last_second = ld_time data, t_time = fmt_time (ld_time data) \<rparr>"

definition item_text :: "(int \<Rightarrow> string) \<Rightarrow> LogData \<Rightarrow> fmt_item \<Rightarrow> string" where
  "item_text fmt_time data i = fst (item_format fmt_time data i (fresh_cache fmt_time data))"

fun token_text :: "(int \<Rightarrow> string) \<Rightarrow> LogData \<Rightarrow> token \<Rightarrow> string" where
  "token_text fmt_time data (Lit s) = s"
| "token_text fmt_time data (Dir d) = item_text fmt_time data (to_item (d, True))"

definition cache_ok :: "(int \<Rightarrow> string) \<Rightarrow> time_cache \<Rightarrow> bool" where
  "cache_ok fmt_time C \<longleftrightarrow> t_last_second C = 0 \<or> t_time C = fmt_time (t_last_second C)"

lemma item_format_cache:
  assumes "cache_ok fmt_time C" "ld_time data \<noteq> 0"
  shows "fst (item_format fmt_time data i C) = item_text fmt_time data i \<and> cache_ok fmt_time (snd (item_format fmt_time data i C))"
  using assms by (cases i) (auto simp: item_text_def fresh_cache_def cache_ok_def DateTime_format_def)

lemma format_cache:
  assumes "cache_ok fmt_time C" "ld_time data \<noteq> 0"
  shows "fst (format fmt_time data is C) = concat (map (item_text fmt_time data) is) \<and> cache_ok fmt_time (snd (format fmt_time data is C))"
  using assms(1)
proof (induction "is" arbitrary: C)
  case (Cons i "is")
  note i = item_format_cache [OF Cons.prems assms(2), of i]
  then show ?case using Cons.IH [of "snd (item_format fmt_time data i C)"] by (simp add: split_beta)
qed simp

lemma is_alpha_percent: "\<not> is_alpha_c (CHR ''%'')"
  by (simp add: is_alpha_c_def ord_of_def)

lemma init_loop_literal: "CHR ''%'' \<notin> set l \<Longrightarrow> init_loop_fmt s (l @ pat) = init_loop_fmt (s @ l) pat"
  by (induction l arbitrary: s) (auto simp: init_loop_fmt.simps [of _ "_ # _"])

lemma init_loop_directive:
  assumes "d \<noteq> []" "list_all is_alpha_c d" "rest = [] \<or> \<not> is_alpha_c (hd rest)"
  shows "init_loop_fmt s (CHR ''%'' # d @ rest) =
    (if s \<noteq> [] then [(s, False)] else []) @ (d, True) # init_loop_fmt [] rest"
proof -
  have "hd (d @ rest) \<noteq> CHR ''%''" using assms(1,2) is_alpha_percent by (cases d) auto
  moreover have "takeWhile is_alpha_c rest = []" "dropWhile is_alpha_c rest = rest" using assms(3) by (cases rest; simp)+
  then have "takeWhile is_alpha_c (d @ rest) = d" "dropWhile is_alpha_c (d @ rest) = rest"
    using assms(2) by (simp_all add: takeWhile_append dropWhile_append list_all_iff)
  ultimately show ?thesis using assms(1) by (simp add: init_loop_fmt.simps [of s "_ # _"])
qed

lemma init_loop_text:
  "wf_tokens ts \<Longrightarrow>
   concat (map (item_text fmt_time data \<circ> to_item) (init_loop_fmt s (render ts))) = s @ concat (map (token_text fmt_time data) ts)"
proof (induction ts arbitrary: s)
  case Nil
  show ?case by (simp add: init_loop_fmt.simps [of s "[]"] item_text_def to_item_def)
next
  case (Cons t ts)
  show ?case
  proof (cases t)
    case (Lit l)
    with Cons show ?thesis by (simp add: init_loop_literal)
  next
    case (Dir d)
    with Cons have "init_loop_fmt s (render (t # ts)) =
        (if s \<noteq> [] then [(s, False)] else []) @ (d, True) # init_loop_fmt [] (render ts)"
      by (simp add: init_loop_directive)
    with Cons Dir show ?thesis by (simp add: item_text_def to_item_def)
  qed
qed


definition log_example_data :: LogData where
  "log_example_data = \<lparr> ld_level = WARN, ld_content = ''disk full'', ld_time = 7, ld_threadId = 12, ld_coroutineId = 3,
     ld_threadName = ''worker'', ld_fileName = ''a.cc'', ld_line = 40 \<rparr>"


text \<open>
  A doubled percent sign does not escape. The first one is taken as a literal percent sign, but the
  second one is then read again and begins a directive with whatever follows.
\<close>

theorem percent_not_escaped:
  assumes "CHR ''%'' \<notin> set a" "rest = [] \<or> hd rest \<noteq> CHR ''%''"
  shows "LogFormatter (a @ ''%%'' @ rest) = StringFmtItem (a @ ''%'') # LogFormatter (''%'' @ rest)"
proof -
  have "init_loop_fmt [] (a @ ''%%'' @ rest) = init_loop_fmt (a @ ''%'') (''%'' @ rest)"
    using assms(1) by (simp add: init_loop_literal init_loop_fmt.simps [of a])
  also have "\<dots> = (a @ ''%'', False) # init_loop_fmt [] (''%'' @ rest)"
    using assms(2) by (auto simp: init_loop_fmt.simps [of _ "_ # _"])
  finally show ?thesis by (simp add: LogFormatter_def to_item_def)
qed

theorem percent_not_escaped_witness:
  "LogFormatter ''100%%m'' = StringFmtItem ''100%'' # LogFormatter ''%m''"
  using percent_not_escaped [of "''100''" "''m''"] by simp

section \<open>Log statements reach the file in order\<close>

datatype log_event = Statement "byte list" LogData | Other al_op

fun log_do :: "(int \<Rightarrow> string) \<Rightarrow> (int \<Rightarrow> string) \<Rightarrow> log_event \<Rightarrow> logger \<Rightarrow> logger res" where
  "log_do name fmt_time (Statement junk data) G = LOG_LEVEL fmt_time junk data G"
| "log_do name fmt_time (Other op) G = map_res (\<lambda>A. G\<lparr>lg_file := A\<rparr>) (al_do name op (lg_file G))"

fun log_run :: "(int \<Rightarrow> string) \<Rightarrow> (int \<Rightarrow> string) \<Rightarrow> log_event list \<Rightarrow> logger \<Rightarrow> logger res" where
  "log_run name fmt_time [] G = Inr G"
| "log_run name fmt_time (e # es) G = rbind (log_do name fmt_time e G) (log_run name fmt_time es)"

text \<open>The line a statement should write: nothing below the level or above the size of a buffer.\<close>

fun log_lines :: "(int \<Rightarrow> string) \<Rightarrow> logger \<Rightarrow> log_event \<Rightarrow> byte list list" where
  "log_lines fmt_time G (Statement junk data) =
     (let line = concat (map (item_text fmt_time data) (lg_formatter G)) in
      if LogLevel_value (lg_level G) \<le> LogLevel_value (ld_level data) \<and> length line \<le> kBufferSize then [line] else [])"
| "log_lines fmt_time G (Other op) = fitting op"

fun dated :: "log_event \<Rightarrow> bool" where
  "dated (Statement junk data) \<longleftrightarrow> ld_time data \<noteq> 0"
| "dated (Other op) \<longleftrightarrow> True"

lemma log_do_ok:
  assumes "al_reach name ms (lg_file G)" "cache_ok fmt_time (lg_cache G)" "dated e"
  shows "\<exists>G'. log_do name fmt_time e G = Inr G' \<and> al_reach name (ms @ log_lines fmt_time G e) (lg_file G') \<and>
    cache_ok fmt_time (lg_cache G') \<and> lg_level G' = lg_level G \<and> lg_formatter G' = lg_formatter G"
proof -
  note inv = conjunct1 [OF al_reach_inv [OF assms(1)]]
  show ?thesis
  proof (cases e)
    case (Statement junk data)
    let ?f = "format fmt_time data (lg_formatter G) (lg_cache G)"
    have f: "fst ?f = concat (map (item_text fmt_time data) (lg_formatter G))" "cache_ok fmt_time (snd ?f)"
      using format_cache [OF assms(2)] assms(3) Statement by auto
    from al_do_ok [OF inv, of name "Append junk (fst ?f)"] obtain A' where
      A': "al_append junk (fst ?f) (lg_file G) = Inr A'" by auto
    have "al_reach name (ms @ fitting (Append junk (fst ?f))) A'" by (rule al_next [OF assms(1)]) (simp add: A')
    with A' f Statement assms(1,2) show ?thesis
      by (auto simp: LOG_LEVEL_def logger_append_def split_beta Let_def)
  next
    case (Other op)
    from al_do_ok [OF inv, of name op] obtain A' where A': "al_do name op (lg_file G) = Inr A'" by blast
    with al_next [OF assms(1) A'] Other assms(2) show ?thesis by simp
  qed
qed



end
