(* ===== verification/Log_Appender.thy ===== *)
theory Log_Appender
  imports Log
begin

text \<open>
  The appenders of \<open>src/reyao/log.cc\<close>: the console appender, which gives the line to \<open>printf\<close> as its format, the file
  appender with its destructor, and the two operations of \<open>Logger\<close> that replace one by the other. Records are built here
  the way the macros of \<open>log.h\<close> build them.
\<close>

section \<open>Records\<close>

text \<open>\<open>__FILENAME__\<close>: the part of the path behind the last slash.\<close>

definition FILENAME :: "string \<Rightarrow> string" where
  "FILENAME path = (if CHR ''/'' \<in> set path then rev (takeWhile (\<lambda>c. c \<noteq> CHR ''/'') (rev path)) else path)"

definition new_LogData :: "LogLevel \<Rightarrow> int \<Rightarrow> 32 word \<Rightarrow> 32 word \<Rightarrow> string \<Rightarrow> string \<Rightarrow> 32 word \<Rightarrow> LogData" where
  "new_LogData level time threadId coroutineId threadName fileName line =
     \<lparr> ld_level = level, ld_content = [], ld_time = time, ld_threadId = threadId, ld_coroutineId = coroutineId,
       ld_threadName = threadName, ld_fileName = fileName, ld_line = line \<rparr>"

text \<open>\<open>LogData::format\<close>; the argument is the text \<open>vasprintf\<close> makes, \<open>None\<close> when it fails.\<close>

definition LogData_format :: "string option \<Rightarrow> LogData \<Rightarrow> LogData" where
  "LogData_format text data =
     (case text of None \<Rightarrow> data | Some buf \<Rightarrow> data\<lparr>ld_content := ld_content data @ buf\<rparr>)"

section \<open>The console\<close>

text \<open>
  \<open>printf\<close> with a format and its arguments. \<open>conv\<close> stands for the conversions other than \<open>%%\<close>: from the format behind
  the percent sign and the arguments left it gives the text, the length of the directive and the arguments
  left, or the failure of reading an argument that is not there or not of the type the directive wants.
\<close>

type_synonym conversion = "string \<Rightarrow> nat list \<Rightarrow> (string \<times> nat \<times> nat list) res"

function printf :: "conversion \<Rightarrow> string \<Rightarrow> nat list \<Rightarrow> string res" where
  "printf conv [] args = Inr []"
| "printf conv (c # fmt) args =
     (if c \<noteq> CHR ''%'' then map_res (Cons c) (printf conv fmt args)
      else if fmt \<noteq> [] \<and> hd fmt = CHR ''%'' then map_res (Cons CHR ''%'') (printf conv (tl fmt) args)
      else rbind (conv fmt args) (\<lambda>(out, n, args). map_res (append out) (printf conv (drop n fmt) args)))"
  by pat_completeness auto
termination by (relation "measure (\<lambda>(conv, fmt, args). length fmt)") auto

definition ConsoleAppender_append :: "conversion \<Rightarrow> string \<Rightarrow> string \<Rightarrow> string res" where
  "ConsoleAppender_append conv logline out = map_res (\<lambda>s. out @ s) (printf conv (c_str logline) [length logline])"

lemma printf_plain: "CHR ''%'' \<notin> set fmt \<Longrightarrow> printf conv fmt args = Inr fmt"
  by (induction fmt) auto

abbreviation no_conv :: conversion where
  "no_conv \<equiv> \<lambda>_ _. Inl Memory_fault"

lemma printf_shorter:
  "printf no_conv fmt args = Inr s \<Longrightarrow>
   length s \<le> length fmt \<and> (CHR ''%'' \<in> set fmt \<longrightarrow> length s < length fmt)"
proof (induction no_conv fmt args arbitrary: s rule: printf.induct)
  case (2 c fmt args)
  show ?case
  proof (cases "c = CHR ''%''")
    case True
    with 2(4) obtain fmt' s' where "fmt = CHR ''%'' # fmt'" "printf no_conv fmt' args = Inr s'" "s = CHR ''%'' # s'"
      by (cases fmt) (auto simp: map_res_Inr_iff split: if_splits)
    with 2(2) True show ?thesis by auto
  next
    case False
    with 2(4) obtain s' where "printf no_conv fmt args = Inr s'" "s = c # s'"
      by (auto simp: map_res_Inr_iff)
    with 2(1) False show ?thesis by auto
  qed
qed simp

text \<open>
  The console appender prints exactly the lines without a percent sign and without a null character, if
  the meaning of a conversion in the text of a message is not to matter. Any other line is cut, loses a
  percent sign or has \<open>printf\<close> look for arguments of which there is only the length of the line.
\<close>

theorem console_prints:
  "(\<forall>conv. ConsoleAppender_append conv line out = Inr (out @ line)) \<longleftrightarrow> CHR ''%'' \<notin> set line \<and> CHR 0x00 \<notin> set line"
proof
  assume "CHR ''%'' \<notin> set line \<and> CHR 0x00 \<notin> set line"
  moreover from this have "c_str line = line" by (intro c_str_id) simp
  ultimately show "\<forall>conv. ConsoleAppender_append conv line out = Inr (out @ line)"
    by (simp add: ConsoleAppender_append_def printf_plain)
next
  assume "\<forall>conv. ConsoleAppender_append conv line out = Inr (out @ line)"
  then have "printf no_conv (c_str line) [length line] = Inr line"
    by (auto simp: ConsoleAppender_append_def map_res_Inr_iff)
  note s = printf_shorter [OF this]
  have "length (c_str line) \<le> length line" unfolding c_str_def by (rule length_takeWhile_le)
  with s have p: "CHR ''%'' \<notin> set (c_str line)" "length (c_str line) = length line" by auto
  have "c_str line = take (length (c_str line)) line" unfolding c_str_def by (rule takeWhile_eq_take)
  with p(2) have "c_str line = line" by simp
  with p(1) show "CHR ''%'' \<notin> set line \<and> CHR 0x00 \<notin> set line" by (metis c_str_def set_takeWhileD)
qed

section \<open>Replacing the appender\<close>

text \<open>
  The destructors of \<open>FileAppender\<close> and \<open>AsyncLog\<close>. \<open>AsyncLog::stop\<close> detaches the writer thread, which so outlives the
  object. Of what it uses, the collected buffers and the file are on its own stack; \<open>running_\<close>, \<open>exit_\<close>, the mutex and
  the front buffers are members of the destroyed object, and touching them is a \<open>Memory_fault\<close>.
\<close>

definition delete_AsyncLog :: "async_log \<Rightarrow> async_log" where
  "delete_AsyncLog A = (if al_running A then al_stop A else A)"

definition delete_FileAppender :: "async_log \<Rightarrow> async_log" where
  "delete_FileAppender A = delete_AsyncLog (al_stop A)"

definition detached_step :: "(int \<Rightarrow> string) \<Rightarrow> (nat \<Rightarrow> int) \<Rightarrow> byte list \<Rightarrow> async_log \<Rightarrow> async_log res" where
  "detached_step name clk junk A =
     (case wr_pc A of
        W_top \<Rightarrow> Inl Memory_fault
      | W_collect \<Rightarrow> Inl Memory_fault
      | W_write \<Rightarrow> writer_step name clk junk A
      | W_done \<Rightarrow> Inr A)"

fun detached_run :: "(int \<Rightarrow> string) \<Rightarrow> (nat \<Rightarrow> int) \<Rightarrow> byte list \<Rightarrow> nat \<Rightarrow> async_log \<Rightarrow> async_log res" where
  "detached_run name clk junk 0 A = Inr A"
| "detached_run name clk junk (Suc n) A = rbind (detached_step name clk junk A) (detached_run name clk junk n)"

record log_setup =
  su_logger :: logger
  su_console :: bool
  su_stdout :: string
  su_detached :: "async_log list"

definition setConsoleAppender :: "log_setup \<Rightarrow> log_setup" where
  "setConsoleAppender S =
     (if su_console S then S
      else S\<lparr>su_console := True, su_detached := su_detached S @ [delete_FileAppender (lg_file (su_logger S))]\<rparr>)"

text \<open>\<open>A\<close> is the log of the new appender, whose constructor has started it.\<close>

definition setFileAppender :: "async_log \<Rightarrow> log_setup \<Rightarrow> log_setup" where
  "setFileAppender A S =
     (let S = (if su_console S then S else S\<lparr>su_detached := su_detached S @ [delete_FileAppender (lg_file (su_logger S))]\<rparr>)
      in S\<lparr>su_console := False, su_logger := (su_logger S)\<lparr>lg_file := A\<rparr>\<rparr>)"

definition setup_append :: "conversion \<Rightarrow> (int \<Rightarrow> string) \<Rightarrow> byte list \<Rightarrow> LogData \<Rightarrow> log_setup \<Rightarrow> log_setup res" where
  "setup_append conv fmt_time junk data S =
     (if su_console S
      then let (logline, C) = format fmt_time data (lg_formatter (su_logger S)) (lg_cache (su_logger S)) in
           map_res (\<lambda>out. S\<lparr>su_stdout := out, su_logger := (su_logger S)\<lparr>lg_cache := C\<rparr>\<rparr>)
             (ConsoleAppender_append conv logline (su_stdout S))
      else map_res (\<lambda>G. S\<lparr>su_logger := G\<rparr>) (logger_append fmt_time junk data (su_logger S)))"

definition LOG_FMT :: "conversion \<Rightarrow> (int \<Rightarrow> string) \<Rightarrow> byte list \<Rightarrow> string option \<Rightarrow> LogData \<Rightarrow> log_setup \<Rightarrow> log_setup res" where
  "LOG_FMT conv fmt_time junk text data S =
     (if LogLevel_value (lg_level (su_logger S)) \<le> LogLevel_value (ld_level data)
      then setup_append conv fmt_time junk (LogData_format text data) S else Inr S)"

lemma detached_writes:
  assumes "al_inv A" "wr_pc A = W_write"
  shows "\<exists>n. detached_run name clk junk n A = Inl Memory_fault"
  using assms
proof (induction "length (wr_buffers A) - wr_next A" arbitrary: A rule: less_induct)
  case less
  show ?case
  proof (cases "wr_next A < length (wr_buffers A)")
    case True
    from write_next_ok [OF less(2,3) True, of name clk] obtain A1 where
      A1: "write_next name clk A = Inr A1" "al_inv A1" "A1 = A\<lparr>logfile := logfile A1, wr_next := wr_next A + 1\<rparr>" by blast
    have "wr_pc A1 = W_write" "length (wr_buffers A1) - wr_next A1 < length (wr_buffers A) - wr_next A"
      using True less(3) by (subst A1(3); simp)+
    with less(1) A1(2) obtain n where "detached_run name clk junk n A1 = Inl Memory_fault" by blast
    then have "detached_run name clk junk (Suc n) A = Inl Memory_fault"
      using True less(3) A1(1) by (simp add: detached_step_def writer_step_def)
    then show ?thesis by blast
  next
    case False
    from recycle_ok [OF less(2,3) False, of junk] obtain A1 where "recycle junk A = Inr A1" by blast
    then have "detached_run name clk junk 2 A = Inl Memory_fault"
      using False less(3) by (simp add: detached_step_def writer_step_def numeral_2_eq_2)
    then show ?thesis by blast
  qed
qed



end
