(* ===== verification/Servlet_Table.thy ===== *)
theory Servlet_Table
  imports Locks Servlet
begin

text \<open>
  \<open>ServletDispatch\<close> (\<open>src/reyao/http/http_servlet.cc\<close>) shared by threads: requests are routed on every worker while servlets are
  registered and removed. Each operation is a section of \<open>rwlock_\<close> made of small steps: \<open>servlets_[uri]\<close> first makes an
  empty entry and then fills it, \<open>addGlobalServlet\<close> first erases and then appends.
\<close>

definition servlet_slot :: "string \<Rightarrow> servlet_dispatch \<Rightarrow> servlet_dispatch" where
  "servlet_slot uri d = (case servlets d uri of None \<Rightarrow> d\<lparr>servlets := (servlets d)(uri \<mapsto> None)\<rparr> | Some _ \<Rightarrow> d)"

definition erase_globals :: "string \<Rightarrow> servlet_dispatch \<Rightarrow> servlet_dispatch res" where
  "erase_globals uri d = map_res (\<lambda>gs. d\<lparr>globals := gs\<rparr>) (erase_loop uri 0 (globals d))"

definition push_global :: "string \<Rightarrow> servlet_ptr \<Rightarrow> servlet_dispatch \<Rightarrow> servlet_dispatch" where
  "push_global uri s d = d\<lparr>globals := globals d @ [(uri, s)]\<rparr>"

datatype servlet_op =
    Add_servlet string servlet_ptr | Add_func string servlet | Add_global string servlet_ptr
  | Del_servlet string | Del_global string

fun servlet_updates :: "servlet_op \<Rightarrow> (servlet_dispatch res \<Rightarrow> servlet_dispatch res) list" where
  "servlet_updates (Add_servlet uri s) = [map_res (servlet_slot uri), map_res (\<lambda>d. d\<lparr>servlets := (servlets d)(uri \<mapsto> s)\<rparr>)]"
| "servlet_updates (Add_func uri f) =
     [map_res (servlet_slot uri), map_res (\<lambda>d. d\<lparr>servlets := (servlets d)(uri \<mapsto> Some (FunctionServlet_handle f))\<rparr>)]"
| "servlet_updates (Add_global uri s) = [\<lambda>r. rbind r (erase_globals uri), map_res (push_global uri s)]"
| "servlet_updates (Del_servlet uri) = [map_res (delServlet uri)]"
| "servlet_updates (Del_global uri) = [map_res (delGlobalServlet uri)]"

fun servlet_whole :: "servlet_op \<Rightarrow> servlet_dispatch res \<Rightarrow> servlet_dispatch res" where
  "servlet_whole (Add_servlet uri s) r = map_res (addServlet uri s) r"
| "servlet_whole (Add_func uri f) r = map_res (addServlet_func uri f) r"
| "servlet_whole (Add_global uri s) r = rbind r (addGlobalServlet uri s)"
| "servlet_whole (Del_servlet uri) r = map_res (delServlet uri) r"
| "servlet_whole (Del_global uri) r = map_res (delGlobalServlet uri) r"

lemma slot_then_store:
  "(servlet_slot uri d)\<lparr>servlets := (servlets (servlet_slot uri d))(uri \<mapsto> s)\<rparr> = d\<lparr>servlets := (servlets d)(uri \<mapsto> s)\<rparr>"
  by (simp add: servlet_slot_def split: option.split)

lemma erase_then_push: "map_res (push_global uri s) (erase_globals uri d) = addGlobalServlet uri s d"
  by (cases "erase_loop uri 0 (globals d)") (simp_all add: erase_globals_def push_global_def addGlobalServlet_def)

lemma servlet_updates_whole: "fold (\<lambda>u. u) (servlet_updates op) r = servlet_whole op r"
  by (cases op; cases r) (simp_all add: slot_then_store erase_then_push addServlet_def addServlet_func_def)

interpretation svt: guarded_ops new_RWLock can_readLock readLock can_writeLock writeLock rw_unlock
  "\<lambda>L r w. rw_readers L = r \<and> rw_writer L = w" servlet_updates servlet_whole
  by unfold_locales (rule servlet_updates_whole)

text \<open>The path an operation registers or removes a servlet for.\<close>

fun servlet_path :: "servlet_op \<Rightarrow> string option" where
  "servlet_path (Add_servlet uri s) = Some uri"
| "servlet_path (Add_func uri f) = Some uri"
| "servlet_path (Del_servlet uri) = Some uri"
| "servlet_path op = None"

lemma whole_servlets:
  "servlet_whole op r = Inr d' \<Longrightarrow> servlet_path op \<noteq> Some uri \<Longrightarrow> \<exists>d. r = Inr d \<and> servlets d' uri = servlets d uri"
  by (cases op; cases r) (auto simp: addServlet_def addServlet_func_def delServlet_def delGlobalServlet_def
      addGlobalServlet_def rbind_Inr_iff)

lemma wholes_servlets:
  "fold servlet_whole ops r = Inr d' \<Longrightarrow> \<forall>op\<in>set ops. servlet_path op \<noteq> Some uri \<Longrightarrow>
   \<exists>d. r = Inr d \<and> servlets d' uri = servlets d uri"
proof (induction ops arbitrary: r)
  case (Cons op ops)
  then obtain d where "servlet_whole op r = Inr d" "servlets d' uri = servlets d uri" by auto
  with whole_servlets [of op r d uri] Cons.prems(2) show ?case by auto
qed simp

text \<open>The patterns that are registered; one that is registered only once never makes the erasing loop run past the end.\<close>

fun servlet_pattern :: "servlet_op \<Rightarrow> string list" where
  "servlet_pattern (Add_global uri s) = [uri]"
| "servlet_pattern op = []"

definition patterns :: "servlet_dispatch \<Rightarrow> servlet_op list \<Rightarrow> string list" where
  "patterns d ops = map fst (globals d) @ concat (map servlet_pattern ops)"

lemma erase_first_subset: "set (erase_first uri xs) \<subseteq> set xs"
  by (induction xs) auto

lemma erase_first_distinct: "distinct (map fst xs) \<Longrightarrow> distinct (map fst (erase_first uri xs))"
proof (induction xs)
  case (Cons e xs)
  then show ?case using erase_first_subset [of uri xs] by auto
qed simp

lemma whole_ok:
  assumes "distinct (patterns d (op # ops))"
  shows "\<exists>d'. servlet_whole op (Inr d) = Inr d' \<and> distinct (patterns d' ops)"
proof (cases op)
  case (Add_global uri s)
  then have "uri \<notin> fst ` set (globals d)" using assms by (auto simp: patterns_def)
  from erase_loop_suffix [of uri 0 "globals d"] this Add_global assms show ?thesis
    by (auto simp: addGlobalServlet_def patterns_def)
next
  case (Del_global uri)
  have "fst ` set (erase_first uri (globals d)) \<subseteq> fst ` set (globals d)" using erase_first_subset by blast
  with Del_global assms erase_first_distinct [of "globals d" uri] show ?thesis
    by (auto simp: delGlobalServlet_def patterns_def)
qed (use assms in \<open>auto simp: patterns_def addServlet_def addServlet_func_def delServlet_def\<close>)

lemma wholes_ok: "distinct (patterns d ops) \<Longrightarrow> \<exists>d'. fold servlet_whole ops (Inr d) = Inr d'"
proof (induction ops arbitrary: d)
  case (Cons op ops)
  from whole_ok [OF Cons.prems] obtain d' where "servlet_whole op (Inr d) = Inr d'" "distinct (patterns d' ops)" by blast
  with Cons.IH show ?case by simp
qed simp


text \<open>One thread registers a function for \<open>/a\<close>, then another one routes.\<close>

abbreviation servlet_run :: "(servlet_dispatch res \<Rightarrow> servlet_dispatch res) list \<Rightarrow> (rw_lock, servlet_dispatch res) guarded \<Rightarrow> bool" where
  "servlet_run \<equiv> section_run can_readLock readLock can_writeLock writeLock rw_unlock (new_guarded new_RWLock (Inr new_ServletDispatch) 2)"

lemma servlet_run_example:
  "servlet_run (concat (map servlet_updates [Add_func ''/a'' f]))
     \<lparr> g_lock = \<lparr> rw_readers = 1, rw_writer = False \<rparr>, g_state = Inr (addServlet_func ''/a'' f new_ServletDispatch), g_pcs = [Idle, Reading] \<rparr>"
  using rw_section_then_read [of "Inr new_ServletDispatch" "servlet_updates (Add_func ''/a'' f)"]
  by (simp add: slot_then_store addServlet_func_def)


end
