(* ===== verification/Thread_Start.thy ===== *)
theory Thread_Start
  imports Sync Scheduler
begin

text \<open>
  Starting a thread (\<open>src/reyao/thread.cc\<close>): \<open>Thread::start\<close> on one thread, interleaved with \<open>RunThread\<close> on the threads it
  creates; names and identifiers of threads, and the map from identifiers to workers that \<open>Scheduler::init\<close> builds with them.
\<close>

section \<open>Names and identifiers\<close>

text \<open>The variables of a thread: \<open>t_threadName\<close>, \<open>t_threadId\<close>, and the name the kernel shows for it.\<close>

record thread_vars =
  t_threadName :: string
  t_threadId :: int
  kernel_name :: string

definition new_vars :: "string \<Rightarrow> thread_vars" where
  "new_vars inherited = \<lparr> t_threadName = ''MainThread'', t_threadId = 0, kernel_name = inherited \<rparr>"

definition SetThreadName :: "string \<Rightarrow> thread_vars \<Rightarrow> thread_vars" where
  "SetThreadName name v = v\<lparr>t_threadName := name\<rparr>"

definition GetThreadName :: "thread_vars \<Rightarrow> string" where
  "GetThreadName v = t_threadName v"

text \<open>\<open>tid\<close> is what the system call returns on this thread.\<close>

definition GetThreadId :: "int \<Rightarrow> thread_vars \<Rightarrow> int \<times> thread_vars" where
  "GetThreadId tid v = (let v = (if t_threadId v = 0 then v\<lparr>t_threadId := tid\<rparr> else v) in (t_threadId v, v))"

text \<open>\<open>pthread_setname_np\<close> refuses names of more than 15 characters; \<open>RunThread\<close> ignores its result.\<close>

definition pthread_setname :: "string \<Rightarrow> thread_vars \<Rightarrow> thread_vars" where
  "pthread_setname name v = (if length name \<le> 15 then v\<lparr>kernel_name := name\<rparr> else v)"

section \<open>Starting\<close>

text \<open>
  Where a created thread is in \<open>RunThread\<close>, before the access named. \<open>start_state\<close> is the object with its \<open>id_\<close> and its latch,
  whose only waiting thread is the caller of \<open>start\<close>; \<open>ss_calling\<close> says that the caller is in \<open>latch_.wait\<close>, and \<open>ss_runs\<close>
  are the threads created, in order.
\<close>

datatype run_pc = At_gettid | At_id | At_name | At_setname | At_countDown | In_cb | Run_ended

record start_state =
  ss_thread :: thread
  ss_id :: int
  ss_latch :: latch
  ss_calling :: bool
  ss_runs :: "(run_pc \<times> thread_vars) list"

definition new_start :: start_state where
  "new_start = \<lparr> ss_thread = new_Thread, ss_id = 0, ss_latch = new_latch 1 1, ss_calling = False, ss_runs = [] \<rparr>"

definition begin_start :: "string \<Rightarrow> start_state \<Rightarrow> start_state" where
  "begin_start inherited S =
     S\<lparr>ss_thread := Thread_start True (ss_thread S), ss_latch := (ss_latch S)\<lparr>waiters := [Calling]\<rparr>, ss_calling := True,
       ss_runs := ss_runs S @ [(At_gettid, new_vars inherited)]\<rparr>"

definition start_wait :: "start_state \<Rightarrow> start_state" where
  "start_wait S =
     (let L = latch_check 0 (ss_latch S) in S\<lparr>ss_latch := L, ss_calling := waiters L ! 0 \<noteq> latch_pc.Returned\<rparr>)"

text \<open>The next access of \<open>RunThread\<close> on the thread created as number \<open>i\<close>.\<close>

definition RunThread :: "(nat \<Rightarrow> int) \<Rightarrow> string \<Rightarrow> nat \<Rightarrow> start_state \<Rightarrow> start_state" where
  "RunThread gettid name i S =
     (let (pc, v) = ss_runs S ! i;
          to = (\<lambda>pc v. S\<lparr>ss_runs := (ss_runs S)[i := (pc, v)]\<rparr>) in
      case pc of
        At_gettid \<Rightarrow> to At_id (let (t, v) = GetThreadId (gettid i) v in v\<lparr>t_threadId := t\<rparr>)
      | At_id \<Rightarrow> (to At_name v)\<lparr>ss_id := t_threadId v\<rparr>
      | At_name \<Rightarrow> to At_setname (SetThreadName name v)
      | At_setname \<Rightarrow> to At_countDown (pthread_setname name v)
      | At_countDown \<Rightarrow> (to In_cb v)\<lparr>ss_latch := countDown (ss_latch S)\<rparr>
      | In_cb \<Rightarrow> to Run_ended v
      | Run_ended \<Rightarrow> S)"

inductive start_step :: "(nat \<Rightarrow> int) \<Rightarrow> string \<Rightarrow> start_state \<Rightarrow> start_state \<Rightarrow> bool" for gettid name where
  created: "\<not> ss_calling S \<Longrightarrow> \<not> th_running (ss_thread S) \<Longrightarrow> start_step gettid name S (begin_start inherited S)"
| not_created: "\<not> ss_calling S \<Longrightarrow> \<not> th_running (ss_thread S) \<Longrightarrow>
    start_step gettid name S (S\<lparr>ss_thread := Thread_start False (ss_thread S)\<rparr>)"
| waits: "ss_calling S \<Longrightarrow> waiters (ss_latch S) ! 0 \<in> {Calling, Woken} \<Longrightarrow> start_step gettid name S (start_wait S)"
| wakes: "ss_calling S \<Longrightarrow> waiters (ss_latch S) ! 0 = Blocked \<Longrightarrow>
    start_step gettid name S (S\<lparr>ss_latch := (ss_latch S)\<lparr>waiters := [Woken]\<rparr>\<rparr>)"
| runs: "i < length (ss_runs S) \<Longrightarrow> start_step gettid name S (RunThread gettid name i S)"
| joins: "\<not> ss_calling S \<Longrightarrow> ss_runs S \<noteq> [] \<Longrightarrow> fst (last (ss_runs S)) = Run_ended \<Longrightarrow>
    start_step gettid name S (S\<lparr>ss_thread := Thread_join (ss_thread S)\<rparr>)"

section \<open>The invariant\<close>

definition counted :: "run_pc \<Rightarrow> bool" where
  "counted pc \<longleftrightarrow> pc \<in> {In_cb, Run_ended}"

text \<open>What a created thread has done for itself at a point of \<open>RunThread\<close>.\<close>

definition run_ok :: "int \<Rightarrow> string \<Rightarrow> run_pc \<times> thread_vars \<Rightarrow> bool" where
  "run_ok tid name r \<longleftrightarrow>
     (if fst r = At_gettid then t_threadId (snd r) = 0 else t_threadId (snd r) = tid) \<and>
     (fst r \<in> {At_setname, At_countDown, In_cb, Run_ended} \<longrightarrow> GetThreadName (snd r) = name) \<and>
     (fst r \<in> {At_countDown, In_cb, Run_ended} \<longrightarrow> length name \<le> 15 \<longrightarrow> kernel_name (snd r) = name)"

definition starting_inv :: "(nat \<Rightarrow> int) \<Rightarrow> string \<Rightarrow> start_state \<Rightarrow> bool" where
  "starting_inv gettid name S \<longleftrightarrow>
     latch_inv (ss_latch S) \<and> length (waiters (ss_latch S)) = 1 \<and>
     latch_count (ss_latch S) = 1 - int (length (filter (counted \<circ> fst) (ss_runs S))) \<and>
     (ss_calling S \<longrightarrow> waiters (ss_latch S) ! 0 \<noteq> latch_pc.Returned \<and> ss_runs S \<noteq> []) \<and>
     (\<not> ss_calling S \<and> ss_runs S \<noteq> [] \<longrightarrow> latch_count (ss_latch S) \<le> 0) \<and>
     (\<forall>i<length (ss_runs S). run_ok (gettid i) name (ss_runs S ! i)) \<and>
     (length (ss_runs S) = 1 \<and> fst (ss_runs S ! 0) \<notin> {At_gettid, At_id} \<longrightarrow> ss_id S = gettid 0) \<and>
     th_created (ss_thread S) = length (ss_runs S)"

lemma filter_update:
  "i < length xs \<Longrightarrow> length (filter P (xs[i := y])) + (if P (xs ! i) then 1 else 0) = length (filter P xs) + (if P y then 1 else 0)"
proof (induction xs arbitrary: i)
  case (Cons x xs)
  then show ?case by (cases i) auto
qed simp

lemma waiter_cases: "length ws = 1 \<Longrightarrow> ws = [ws ! 0]"
  by (cases ws) auto

lemma one_waiter:
  assumes "latch_inv L" "length (waiters L) = 1"
  shows "(latch_count L > 0 \<longrightarrow> waiters L ! 0 \<noteq> latch_pc.Returned) \<and> (latch_count L \<le> 0 \<longrightarrow> waiters L ! 0 \<noteq> Blocked)"
  using assms waiter_cases [OF assms(2)] unfolding latch_inv_def by (metis list.set_intros(1))

lemma countDown_one:
  assumes "latch_inv L" "length (waiters L) = 1"
  shows "latch_inv (countDown L) \<and> length (waiters (countDown L)) = 1 \<and> (waiters (countDown L) ! 0 = latch_pc.Returned \<longleftrightarrow> waiters L ! 0 = latch_pc.Returned)"
  using latch_step_inv [OF latch_step.count_down assms(1)] assms(2) by (auto simp: countDown_def notify_all_def Let_def)

lemma starting_inv_new: "starting_inv gettid name new_start"
  by (simp add: starting_inv_def new_start_def new_latch_def latch_inv_def new_Thread_def)

lemma begin_start_inv:
  assumes "starting_inv gettid name S" "\<not> ss_calling S" "\<not> th_running (ss_thread S)"
  shows "starting_inv gettid name (begin_start inherited S)"
proof -
  have "latch_inv ((ss_latch S)\<lparr>waiters := [Calling]\<rparr>)" by (simp add: latch_inv_def)
  moreover have "run_ok (gettid i) name ((ss_runs S @ [(At_gettid, new_vars inherited)]) ! i)" if "i < length (ss_runs S) + 1" for i
    using assms(1) that by (auto simp: starting_inv_def nth_append run_ok_def new_vars_def less_Suc_eq)
  ultimately show ?thesis using assms by (auto simp: starting_inv_def begin_start_def Thread_start_def counted_def)
qed

lemma start_wait_inv:
  assumes "starting_inv gettid name S" "ss_calling S" "waiters (ss_latch S) ! 0 \<in> {Calling, Woken}"
  shows "starting_inv gettid name (start_wait S)"
proof -
  have "latch_step (ss_latch S) (latch_check 0 (ss_latch S))"
    by (rule latch_step.check) (use assms in \<open>auto simp: starting_inv_def\<close>)
  then have "latch_inv (latch_check 0 (ss_latch S))" using assms(1) latch_step_inv by (auto simp: starting_inv_def)
  with assms show ?thesis
    by (auto simp: starting_inv_def start_wait_def latch_check_def Let_def Suc_le_eq)
qed

lemma run_moves:
  assumes "starting_inv gettid name S" "i < length (ss_runs S)" "run_ok (gettid i) name r"
    "counted (fst r) \<longleftrightarrow> counted (fst (ss_runs S ! i))" "length (ss_runs S) = 1 \<and> fst r \<notin> {At_gettid, At_id} \<longrightarrow> x = gettid 0"
  shows "starting_inv gettid name (S\<lparr>ss_runs := (ss_runs S)[i := r], ss_id := x\<rparr>)"
proof -
  have "length (filter (counted \<circ> fst) ((ss_runs S)[i := r])) = length (filter (counted \<circ> fst) (ss_runs S))"
    using filter_update [OF assms(2), of "counted \<circ> fst" r] assms(4) by (simp split: if_splits)
  moreover have "run_ok (gettid k) name ((ss_runs S)[i := r] ! k)" if "k < length (ss_runs S)" for k
    using assms(1-3) that by (cases "k = i") (auto simp: starting_inv_def)
  ultimately show ?thesis using assms(1,2,5) by (auto simp: starting_inv_def)
qed

lemma run_counts:
  assumes "starting_inv gettid name S" "i < length (ss_runs S)" "ss_runs S ! i = (At_countDown, v)"
  shows "starting_inv gettid name (S\<lparr>ss_runs := (ss_runs S)[i := (In_cb, v)], ss_latch := countDown (ss_latch S)\<rparr>)"
proof -
  have "length (filter (counted \<circ> fst) ((ss_runs S)[i := (In_cb, v)])) = length (filter (counted \<circ> fst) (ss_runs S)) + 1"
    using filter_update [OF assms(2), of "counted \<circ> fst" "(In_cb, v)"] assms(3) by (simp add: counted_def)
  moreover have "run_ok (gettid k) name ((ss_runs S)[i := (In_cb, v)] ! k)" if "k < length (ss_runs S)" for k
  proof -
    have "run_ok (gettid i) name (At_countDown, v)" using assms by (metis starting_inv_def)
    then have "run_ok (gettid i) name (In_cb, v)" by (simp add: run_ok_def)
    with assms(1,2) that show ?thesis by (cases "k = i") (auto simp: starting_inv_def)
  qed
  moreover have "length (ss_runs S) = 1 \<Longrightarrow> ss_id S = gettid 0" using assms by (simp add: starting_inv_def)
  ultimately show ?thesis using assms(1,2) countDown_one [of "ss_latch S"] countDown_count [of "ss_latch S"]
    by (auto simp: starting_inv_def)
qed

lemma RunThread_inv:
  assumes "starting_inv gettid name S" "i < length (ss_runs S)"
  shows "starting_inv gettid name (RunThread gettid name i S)"
proof -
  obtain pc v where r: "ss_runs S ! i = (pc, v)" by force
  have ok: "run_ok (gettid i) name (pc, v)" using assms r by (metis starting_inv_def)
  have id: "length (ss_runs S) = 1 \<Longrightarrow> pc \<notin> {At_gettid, At_id} \<Longrightarrow> ss_id S = gettid 0" and "length (ss_runs S) = 1 \<Longrightarrow> i = 0"
    using assms r by (auto simp: starting_inv_def)
  note moves = run_moves [OF assms, of _ "ss_id S"]
  show ?thesis
  proof (cases pc)
    case At_gettid
    with moves [of "(At_id, v\<lparr>t_threadId := gettid i\<rparr>)"] r ok id show ?thesis
      by (simp add: RunThread_def GetThreadId_def run_ok_def counted_def)
  next
    case At_id
    with run_moves [OF assms, of "(At_name, v)" "t_threadId v"] r ok \<open>length (ss_runs S) = 1 \<Longrightarrow> i = 0\<close> show ?thesis
      by (simp add: RunThread_def run_ok_def counted_def)
  next
    case At_name
    with moves [of "(At_setname, SetThreadName name v)"] r ok id show ?thesis
      by (simp add: RunThread_def run_ok_def counted_def SetThreadName_def GetThreadName_def)
  next
    case At_setname
    with moves [of "(At_countDown, pthread_setname name v)"] r ok id show ?thesis
      by (simp add: RunThread_def run_ok_def counted_def pthread_setname_def GetThreadName_def)
  next
    case In_cb
    with moves [of "(Run_ended, v)"] r ok id show ?thesis by (simp add: RunThread_def run_ok_def counted_def)
  qed (use assms r run_counts [OF assms] in \<open>simp_all add: RunThread_def\<close>)
qed

lemma start_step_inv: "start_step gettid name S S' \<Longrightarrow> starting_inv gettid name S \<Longrightarrow> starting_inv gettid name S'"
proof (induction rule: start_step.induct)
  case (wakes S)
  then show ?case by (auto simp: starting_inv_def latch_inv_def dest: waiter_cases)
next
  case (not_created S)
  then show ?case by (auto simp: starting_inv_def Thread_start_def)
next
  case (joins S)
  then show ?case by (auto simp: starting_inv_def Thread_join_def)
qed (auto intro: begin_start_inv start_wait_inv RunThread_inv)

interpretation starting: inv_steps "start_step gettid name" "starting_inv gettid name" for gettid name
  by unfold_locales (rule start_step_inv)

section \<open>What start publishes\<close>

definition start_reach :: "(nat \<Rightarrow> int) \<Rightarrow> string \<Rightarrow> start_state \<Rightarrow> bool" where
  "start_reach gettid name S \<longleftrightarrow> (start_step gettid name)\<^sup>*\<^sup>* new_start S"

lemma start_reach_inv: "start_reach gettid name S \<Longrightarrow> starting_inv gettid name S"
  using starting.steps_inv starting_inv_new by (auto simp: start_reach_def)

lemma some_counted:
  assumes "starting_inv gettid name S" "\<not> ss_calling S" "ss_runs S \<noteq> []"
  shows "\<exists>r\<in>set (ss_runs S). counted (fst r)"
proof -
  from assms have "filter (counted \<circ> fst) (ss_runs S) \<noteq> []" by (auto simp: starting_inv_def)
  then show ?thesis by (auto simp: filter_empty_conv)
qed

text \<open>The first thread reaches \<open>countDown\<close> within five steps of its own.\<close>

lemma first_counts:
  assumes "starting_inv gettid name S" "ss_runs S \<noteq> []"
  shows "counted (fst (ss_runs ((RunThread gettid name 0 ^^ 5) S) ! 0))"
proof -
  obtain pc v rs where "ss_runs S = (pc, v) # rs" using assms(2) by (cases "ss_runs S") auto
  then show ?thesis by (cases pc) (simp_all add: RunThread_def counted_def numeral_eq_Suc GetThreadId_def Let_def)
qed

lemma runs_inv: "starting_inv gettid name S \<Longrightarrow> i < length (ss_runs S) \<Longrightarrow>
  starting_inv gettid name ((RunThread gettid name i ^^ n) S) \<and> length (ss_runs ((RunThread gettid name i ^^ n) S)) = length (ss_runs S) \<and>
  ss_calling ((RunThread gettid name i ^^ n) S) = ss_calling S"
proof (induction n)
  case (Suc n)
  let ?S = "(RunThread gettid name i ^^ n) S"
  have "length (ss_runs (RunThread gettid name i ?S)) = length (ss_runs ?S)" "ss_calling (RunThread gettid name i ?S) = ss_calling ?S"
    by (auto simp: RunThread_def Let_def split: prod.split run_pc.split)
  with Suc RunThread_inv [of gettid name ?S i] show ?case by simp
qed simp

lemma start_returns:
  assumes "starting_inv gettid name S" "ss_calling S" "counted (fst (ss_runs S ! 0))"
  shows "waiters (ss_latch S) ! 0 \<in> {Calling, Woken} \<and> \<not> ss_calling (start_wait S)"
proof -
  have "ss_runs S ! 0 \<in> set (ss_runs S)" using assms by (simp add: starting_inv_def)
  with assms(3) have "filter (counted \<circ> fst) (ss_runs S) \<noteq> []" by (auto simp: filter_empty_conv)
  with assms(1) have c: "latch_count (ss_latch S) \<le> 0" by (cases "filter (counted \<circ> fst) (ss_runs S)") (auto simp: starting_inv_def)
  with one_waiter [of "ss_latch S"] assms have "waiters (ss_latch S) ! 0 \<in> {Calling, Woken}"
    by (cases "waiters (ss_latch S) ! 0") (auto simp: starting_inv_def)
  moreover have "length (waiters (ss_latch S)) = 1" using assms(1) by (simp add: starting_inv_def)
  ultimately show ?thesis using c by (simp add: start_wait_def latch_check_def)
qed

lemma start_published:
  assumes "starting_inv gettid name S" "\<not> ss_calling S" "th_created (ss_thread S) = 1"
  shows "ss_id S = gettid 0 \<and> run_ok (gettid 0) name (ss_runs S ! 0) \<and> counted (fst (ss_runs S ! 0))"
proof -
  have "length (ss_runs S) = 1" using assms(1,3) by (simp add: starting_inv_def)
  then obtain r where r: "ss_runs S = [r]" by (cases "ss_runs S") auto
  with some_counted [OF assms(1,2)] have "counted (fst r)" by auto
  with assms(1) r show ?thesis by (auto simp: starting_inv_def counted_def)
qed

text \<open>
  C23: what \<open>Thread::start\<close> publishes, for every interleaving with the created thread. When the first \<open>start\<close> of an object
  has returned, \<open>id_\<close> is the identifier of the thread it created, that thread knows its identifier and its name, and the
  kernel shows the name if it has at most 15 characters. \<open>start\<close> does return: while the caller waits, five more steps of the
  first created thread let its next look at the latch succeed.
\<close>

theorem thread_started:
  assumes "start_reach gettid name S"
  shows "(\<not> ss_calling S \<and> th_created (ss_thread S) = 1 \<longrightarrow>
      ss_id S = gettid 0 \<and> fst (GetThreadId (gettid 0) (snd (ss_runs S ! 0))) = gettid 0 \<and> GetThreadName (snd (ss_runs S ! 0)) = name \<and>
      (length name \<le> 15 \<longrightarrow> kernel_name (snd (ss_runs S ! 0)) = name)) \<and>
    (ss_calling S \<longrightarrow> waiters (ss_latch ((RunThread gettid name 0 ^^ 5) S)) ! 0 \<in> {Calling, Woken} \<and>
      \<not> ss_calling (start_wait ((RunThread gettid name 0 ^^ 5) S)))"
proof (rule conjI; rule impI)
  note inv = start_reach_inv [OF assms]
  assume s: "\<not> ss_calling S \<and> th_created (ss_thread S) = 1"
  with start_published [OF inv] show "ss_id S = gettid 0 \<and> fst (GetThreadId (gettid 0) (snd (ss_runs S ! 0))) = gettid 0 \<and>
      GetThreadName (snd (ss_runs S ! 0)) = name \<and> (length name \<le> 15 \<longrightarrow> kernel_name (snd (ss_runs S ! 0)) = name)"
    by (auto simp: run_ok_def counted_def GetThreadId_def)
next
  note inv = start_reach_inv [OF assms]
  assume s: "ss_calling S"
  with inv have r: "ss_runs S \<noteq> []" by (simp add: starting_inv_def)
  with runs_inv [OF inv, of 0 5] s start_returns [OF _ _ first_counts [OF inv r]]
  show "waiters (ss_latch ((RunThread gettid name 0 ^^ 5) S)) ! 0 \<in> {Calling, Woken} \<and>
      \<not> ss_calling (start_wait ((RunThread gettid name 0 ^^ 5) S))" by blast
qed

text \<open>One thread is created and runs up to its function before the caller looks at the latch.\<close>

definition started_example :: start_state where
  "started_example = start_wait ((RunThread (\<lambda>i. 100 + int i) ''reyao_sche_init'' 0 ^^ 5) (begin_start ''main'' new_start))"

lemma RunThread_steps:
  "i < length (ss_runs S) \<Longrightarrow> (start_step gettid name)\<^sup>*\<^sup>* S ((RunThread gettid name i ^^ n) S) \<and>
    length (ss_runs ((RunThread gettid name i ^^ n) S)) = length (ss_runs S)"
proof (induction n)
  case (Suc n)
  let ?S = "(RunThread gettid name i ^^ n) S"
  have "length (ss_runs (RunThread gettid name i ?S)) = length (ss_runs ?S)"
    by (auto simp: RunThread_def Let_def split: prod.split run_pc.split)
  moreover have "start_step gettid name ?S (RunThread gettid name i ?S)" by (rule start_step.runs) (use Suc in simp)
  ultimately show ?case using Suc by (auto intro: rtranclp.rtrancl_into_rtrancl)
qed simp

lemmas start_run = new_start_def begin_start_def start_wait_def RunThread_def new_latch_def latch_check_def countDown_def
  notify_all_def new_Thread_def Thread_start_def Thread_join_def GetThreadId_def SetThreadName_def pthread_setname_def new_vars_def
  numeral_eq_Suc Let_def

lemma started_example_state:
  "started_example = \<lparr> ss_thread = \<lparr> th_running = True, th_joined = False, th_created = 1, th_collected = 0 \<rparr>, ss_id = 100,
     ss_latch = \<lparr> latch_count = 0, waiters = [latch_pc.Returned] \<rparr>, ss_calling = False,
     ss_runs = [(In_cb, \<lparr> t_threadName = ''reyao_sche_init'', t_threadId = 100, kernel_name = ''reyao_sche_init'' \<rparr>)] \<rparr>"
  by (simp add: started_example_def start_run)

lemma started_example_reach: "start_reach (\<lambda>i. 100 + int i) ''reyao_sche_init'' started_example"
proof -
  let ?step = "start_step (\<lambda>i. 100 + int i) ''reyao_sche_init''"
  let ?S = "begin_start ''main'' new_start"
  let ?T = "(RunThread (\<lambda>i. 100 + int i) ''reyao_sche_init'' 0 ^^ 5) ?S"
  have "?step new_start ?S" by (rule start_step.created) (simp_all add: new_start_def new_Thread_def)
  moreover have "?step\<^sup>*\<^sup>* ?S ?T" using RunThread_steps [of 0 ?S] by (simp add: begin_start_def new_start_def)
  moreover have "?step ?T (start_wait ?T)" by (rule start_step.waits) (simp_all add: start_run)
  ultimately show ?thesis unfolding start_reach_def started_example_def
    by (meson converse_rtranclp_into_rtranclp rtranclp.rtrancl_into_rtrancl)
qed

theorem thread_started_witness:
  "ss_id started_example = 100 \<and> kernel_name (snd (ss_runs started_example ! 0)) = ''reyao_sche_init''"
  using thread_started [OF started_example_reach] by (simp add: started_example_state)

section \<open>Starting again\<close>

text \<open>
  The latch is not reset, so a second \<open>start\<close> after \<open>join\<close> does not wait: it can return while \<open>id_\<close> is still the identifier of
  the first thread.
\<close>

definition restarted_example :: start_state where
  "restarted_example =
     (let S = RunThread (\<lambda>i. 100 + int i) ''reyao_sche_init'' 0 started_example in
      start_wait (begin_start ''main'' (S\<lparr>ss_thread := Thread_join (ss_thread S)\<rparr>)))"

lemma restart_stale_id:
  "start_reach (\<lambda>i. 100 + int i) ''reyao_sche_init'' restarted_example"
  "\<not> ss_calling restarted_example" "th_created (ss_thread restarted_example) = 2"
  "ss_id restarted_example = 100" "fst (last (ss_runs restarted_example)) = At_gettid"
proof -
  let ?step = "start_step (\<lambda>i. 100 + int i) ''reyao_sche_init''"
  let ?R = "RunThread (\<lambda>i. 100 + int i) ''reyao_sche_init'' 0 started_example"
  let ?J = "?R\<lparr>ss_thread := Thread_join (ss_thread ?R)\<rparr>"
  note run = started_example_state RunThread_def Thread_join_def Thread_start_def begin_start_def start_wait_def latch_check_def
  have "?step started_example ?R" by (rule start_step.runs) (simp add: started_example_state)
  moreover have "?step ?R ?J" by (rule start_step.joins) (simp_all add: run)
  moreover have "?step ?J (begin_start ''main'' ?J)"
    by (rule start_step.created) (simp_all add: run)
  moreover have "?step (begin_start ''main'' ?J) restarted_example"
    unfolding restarted_example_def Let_def by (rule start_step.waits) (simp_all add: begin_start_def)
  ultimately show "start_reach (\<lambda>i. 100 + int i) ''reyao_sche_init'' restarted_example"
    using started_example_reach unfolding start_reach_def by (meson rtranclp.rtrancl_into_rtrancl)
  show "\<not> ss_calling restarted_example" "th_created (ss_thread restarted_example) = 2"
    "ss_id restarted_example = 100" "fst (last (ss_runs restarted_example)) = At_gettid"
    by (simp_all add: restarted_example_def run)
qed

section \<open>The worker of a thread\<close>

text \<open>
  The name \<open>init\<close> gives to a worker thread has at least 19 characters, so the kernel never shows it.
\<close>

lemma worker_name_refused:
  "digits \<noteq> [] \<Longrightarrow> pthread_setname (''reyao_sche_worker_'' @ digits) v = v"
  by (cases digits) (simp_all add: pthread_setname_def)

lemma init_loop_map:
  "i + length tids \<le> threadNum S \<Longrightarrow> distinct tids \<Longrightarrow>
   (\<forall>k<length tids. workerMap (init_loop i tids S) (tids ! k) = Some (i + k + 1)) \<and>
   (\<forall>t. t \<notin> set tids \<longrightarrow> workerMap (init_loop i tids S) t = workerMap S t)"
proof (induction tids arbitrary: i S)
  case (Cons tid tids)
  let ?S = "S\<lparr>workers := workers S @ [i + 1], workerMap := (workerMap S)(tid \<mapsto> i + 1), threads := threads S @ [i + 1]\<rparr>"
  have IH: "(\<forall>k<length tids. workerMap (init_loop (i + 1) tids ?S) (tids ! k) = Some (i + 1 + k + 1)) \<and>
      (\<forall>t. t \<notin> set tids \<longrightarrow> workerMap (init_loop (i + 1) tids ?S) t = workerMap ?S t)"
    by (rule Cons.IH) (use Cons.prems in auto)
  moreover have "init_loop i (tid # tids) S = init_loop (i + 1) tids ?S" using Cons.prems by simp
  ultimately show ?case using Cons.prems by (auto simp: nth_Cons split: nat.splits)
qed simp

text \<open>
  A task for a chosen thread. \<open>Ss\<close> are the objects of the worker threads as \<open>init\<close> finds them after starting each, for any
  interleaving, with the identifiers \<open>ids\<close> of the threads. The task goes to the worker that runs on that thread. The thread
  that made the scheduler stands for the main worker, which runs on the thread of \<open>init\<close>; the identifier of that thread is
  not in the map, so that a task for it is refused.
\<close>

theorem worker_of_thread:
  assumes "new_Scheduler tid n = Inr S" "length Ss = threadNum S" "distinct (tid # map (\<lambda>i. ids i 0) [0..<length Ss])"
    "\<forall>i<length Ss. start_reach (ids i) (name i) (Ss ! i) \<and> \<not> ss_calling (Ss ! i) \<and> th_created (ss_thread (Ss ! i)) = 1"
    "t \<noteq> -1"
  shows "\<exists>S'. sch_addTask t (sch_init (map ss_id Ss) S) = Inr (workerMap S' t, S') \<and> workerMap S' tid = Some 0 \<and>
    (\<forall>i<length Ss. workerMap S' (ids i 0) = Some (i + 1)) \<and>
    (t \<noteq> tid \<and> (\<forall>i<length Ss. ids i 0 \<noteq> t) \<longrightarrow> workerMap S' t = None)"
proof -
  have "ss_id (Ss ! i) = ids i 0" if "i < length Ss" for i
    using assms(4) that start_published [OF start_reach_inv] by blast
  then have ids: "map ss_id Ss = map (\<lambda>i. ids i 0) [0..<length Ss]" by (auto intro: nth_equalityI)
  have S: "workerMap S = [tid \<mapsto> 0]" "\<not> sch_running S" using assms(1) by (auto simp: new_Scheduler_def split: if_splits)
  have m: "(\<forall>k<length Ss. workerMap (init_loop 0 (map ss_id Ss) S) (ids k 0) = Some (0 + k + 1)) \<and>
      (\<forall>t. t \<notin> set (map ss_id Ss) \<longrightarrow> workerMap (init_loop 0 (map ss_id Ss) S) t = workerMap S t)"
    using init_loop_map [of 0 "map ss_id Ss" S] assms(2,3) by (simp add: ids)
  moreover have "t \<in> set (map ss_id Ss) \<longleftrightarrow> (\<exists>i<length Ss. ids i 0 = t)" by (auto simp: ids)
  ultimately have "t \<noteq> tid \<and> (\<forall>i<length Ss. ids i 0 \<noteq> t) \<longrightarrow> workerMap (init_loop 0 (map ss_id Ss) S) t = None" using S by auto
  with m S assms(3,5) show ?thesis by (simp add: sch_addTask_def sch_init_def ids)
qed

end
