(* ===== verification/Hook_Origin.thy ===== *)
theory Hook_Origin
  imports Hook
begin

text \<open>
  The pointers to the original system calls (\<open>src/reyao/hook.h\<close>) and their look-up when the program starts (\<open>hook_init\<close> in
  \<open>hook.cc\<close>), and \<open>getsockopt\<close>, which is only passed on. A pointer is an address, 0 being null; \<open>dlsym\<close> gives the address of
  the next definition of a name.
\<close>

datatype hook_name =
    H_sleep | H_usleep | H_nanosleep | H_socket | H_connect | H_accept | H_close | H_read | H_write | H_readv | H_writev
  | H_recv | H_recvfrom | H_recvmsg | H_recvmmsg | H_send | H_sendto | H_sendmsg | H_sendmmsg | H_fcntl | H_ioctl
  | H_getsockopt | H_setsockopt

type_synonym origins = "hook_name \<Rightarrow> nat"

text \<open>The list \<open>HOOK_FUNC\<close>: each name with the text the macro makes of it.\<close>

definition HOOK_FUNC :: "(hook_name \<times> string) list" where
  "HOOK_FUNC =
     [(H_sleep, ''sleep''), (H_usleep, ''usleep''), (H_nanosleep, ''nanosleep''), (H_socket, ''socket''),
      (H_connect, ''connect''), (H_accept, ''accept''), (H_close, ''close''), (H_read, ''read''), (H_write, ''write''),
      (H_readv, ''readv''), (H_writev, ''writev''), (H_recv, ''recv''), (H_recvfrom, ''recvfrom''), (H_recvmsg, ''recvmsg''),
      (H_recvmmsg, ''recvmmsg''), (H_send, ''send''), (H_sendto, ''sendto''), (H_sendmsg, ''sendmsg''),
      (H_sendmmsg, ''sendmmsg''), (H_fcntl, ''fcntl''), (H_ioctl, ''ioctl''), (H_getsockopt, ''getsockopt''),
      (H_setsockopt, ''setsockopt'')]"

definition no_origins :: origins where
  "no_origins = (\<lambda>_. 0)"

text \<open>The state of \<open>hook_init\<close> is its static variable \<open>is_inited\<close>, which nothing sets.\<close>

definition hook_init :: "(string \<Rightarrow> nat) \<Rightarrow> bool \<times> origins \<Rightarrow> bool \<times> origins" where
  "hook_init dlsym s =
     (if fst s then s else (fst s, fold (\<lambda>(n, text) os. os(n := dlsym text)) HOOK_FUNC (snd s)))"

text \<open>A call through a pointer; \<open>code\<close> is the function at an address.\<close>

definition call_origin :: "(nat \<Rightarrow> 'a \<Rightarrow> 'r) \<Rightarrow> origins \<Rightarrow> hook_name \<Rightarrow> 'a \<Rightarrow> 'r res" where
  "call_origin code os n args = (if os n = 0 then Inl Memory_fault else Inr (code (os n) args))"

definition hook_getsockopt :: "(nat \<Rightarrow> 'a \<Rightarrow> 'r) \<Rightarrow> origins \<Rightarrow> 'a \<Rightarrow> 'r res" where
  "hook_getsockopt code os args = call_origin code os H_getsockopt args"

lemma fold_assign:
  "distinct (map fst ps) \<Longrightarrow> fold (\<lambda>(n, text) os. os(n := f text)) ps os n = (case map_of ps n of Some text \<Rightarrow> f text | None \<Rightarrow> os n)"
proof (induction ps arbitrary: os)
  case (Cons p ps)
  moreover have "map_of ps (fst p) = None" using Cons.prems by (simp add: map_of_eq_None_iff)
  ultimately show ?case by (cases p) (auto split: option.split)
qed simp

lemma hook_names: "distinct (map fst HOOK_FUNC)" "distinct (map snd HOOK_FUNC)" "n \<in> fst ` set HOOK_FUNC"
  by (simp_all add: HOOK_FUNC_def) (cases n; simp)

text \<open>
  Every pointer gets the address of its own name, whatever it held, and a second initialisation does the work again; before
  the first one a call through any pointer faults, which can happen to a call made while other static objects are built.
\<close>

theorem hook_init_spec:
  "(\<forall>n text. (n, text) \<in> set HOOK_FUNC \<longrightarrow> snd (hook_init dlsym (False, os)) n = dlsym text) \<and>
   hook_init dlsym (hook_init dlsym (False, os)) = hook_init dlsym (False, os) \<and> \<not> fst (hook_init dlsym (False, os)) \<and>
   call_origin code no_origins n args = Inl Memory_fault"
proof -
  have all: "\<exists>text. map_of HOOK_FUNC n = Some text" for n
    using hook_names(3) [of n] by (metis map_of_eq_None_iff option.exhaust)
  have "snd (hook_init dlsym (False, os)) n = dlsym (the (map_of HOOK_FUNC n))" for n os
    using all [of n] by (auto simp: hook_init_def fold_assign hook_names(1))
  then have "snd (hook_init dlsym (False, os)) = (\<lambda>n. dlsym (the (map_of HOOK_FUNC n)))" for os by blast
  moreover have "fst (hook_init dlsym (False, os)) = False" for os by (simp add: hook_init_def)
  ultimately have i: "hook_init dlsym (False, os) = (False, \<lambda>n. dlsym (the (map_of HOOK_FUNC n)))" for os by (simp add: prod_eq_iff)
  then show ?thesis using map_of_is_SomeI [OF hook_names(1)] by (auto simp: call_origin_def no_origins_def)
qed

lemma getsockopt_passed: "os H_getsockopt \<noteq> 0 \<Longrightarrow> hook_getsockopt code os args = Inr (code (os H_getsockopt) args)"
  by (simp add: hook_getsockopt_def call_origin_def)

end
