(* ===== verification/Rpc_Table.thy ===== *)
theory Rpc_Table
  imports Rpc_Codec Transitions
begin

text \<open>
  The handlers of \<open>RpcServer\<close> (\<open>src/reyao/rpc/rpc_server.cc\<close>, \<open>rpc_server.h\<close>) while connections are served and handlers are
  registered on several threads. \<open>handleClient\<close> looks for the handler with \<open>mutex_\<close> held but follows the iterator after
  releasing it, and only the map owns the callback objects.
\<close>

section \<open>Steps\<close>

text \<open>
  A connection: with a received message, with an iterator, inside \<open>onMessage\<close> of a callback object, with the reply, refused
  because no handler is registered, or having used a destroyed object. The table has the callback objects that are alive, and
  for the statements below the registrations made so far.
\<close>

datatype 'm rpc_pc =
    Rp_received 'm | Rp_found 'm string | Rp_running 'm nat | Rp_replied 'm 'm | Rp_unknown 'm | Rp_faulted

record 'm rpc_table =
  rt_handlers :: "(string, nat) map"
  rt_objects :: "(nat, 'm \<Rightarrow> 'm) map"
  rt_next :: nat
  rt_clients :: "'m rpc_pc list"
  rt_log :: "(string \<times> ('m \<Rightarrow> 'm)) list"

definition new_rpc :: "'m list \<Rightarrow> 'm rpc_table" where
  "new_rpc ms = \<lparr> rt_handlers = Map.empty, rt_objects = Map.empty, rt_next = 0, rt_clients = map Rp_received ms, rt_log = [] \<rparr>"

text \<open>\<open>registerRpcHandler\<close>: the assignment destroys the object that was registered before.\<close>

definition table_register :: "string \<Rightarrow> ('m \<Rightarrow> 'm) \<Rightarrow> 'm rpc_table \<Rightarrow> 'm rpc_table" where
  "table_register d h T =
     (let alive = (case rt_handlers T d of None \<Rightarrow> rt_objects T | Some old \<Rightarrow> (rt_objects T)(old := None)) in
      T\<lparr>rt_handlers := (rt_handlers T)(d \<mapsto> rt_next T), rt_objects := alive(rt_next T \<mapsto> h), rt_next := rt_next T + 1,
        rt_log := rt_log T @ [(d, h)]\<rparr>)"

text \<open>The steps of \<open>handleClient\<close> after a message was received: the section of \<open>mutex_\<close>, \<open>it->second\<close>, and the call.\<close>

fun client_next :: "'m protobuf \<Rightarrow> 'm rpc_table \<Rightarrow> 'm rpc_pc \<Rightarrow> 'm rpc_pc" where
  "client_next P T (Rp_received m) =
     (case rt_handlers T (GetTypeName P m) of None \<Rightarrow> Rp_unknown m | Some _ \<Rightarrow> Rp_found m (GetTypeName P m))"
| "client_next P T (Rp_found m d) = (case rt_handlers T d of None \<Rightarrow> Rp_faulted | Some ob \<Rightarrow> Rp_running m ob)"
| "client_next P T (Rp_running m ob) = (case rt_objects T ob of None \<Rightarrow> Rp_faulted | Some h \<Rightarrow> Rp_replied m (h m))"
| "client_next P T pc = pc"

definition client_step :: "'m protobuf \<Rightarrow> nat \<Rightarrow> 'm rpc_table \<Rightarrow> 'm rpc_table" where
  "client_step P i T = T\<lparr>rt_clients := (rt_clients T)[i := client_next P T (rt_clients T ! i)]\<rparr>"

inductive rpc_step :: "'m protobuf \<Rightarrow> 'm rpc_table \<Rightarrow> 'm rpc_table \<Rightarrow> bool" for P where
  registers: "rpc_step P T (table_register d h T)"
| serves: "i < length (rt_clients T) \<Longrightarrow> rpc_step P T (client_step P i T)"

section \<open>When no descriptor is registered twice\<close>

definition objects_ok :: "'m rpc_table \<Rightarrow> bool" where
  "objects_ok T \<longleftrightarrow> dom (rt_handlers T) = fst ` set (rt_log T) \<and>
     (\<forall>d ob. rt_handlers T d = Some ob \<longrightarrow> ob < rt_next T \<and> (\<exists>h. rt_objects T ob = Some h \<and> (d, h) \<in> set (rt_log T)))"

fun client_ok :: "'m protobuf \<Rightarrow> 'm rpc_table \<Rightarrow> 'm rpc_pc \<Rightarrow> bool" where
  "client_ok P T (Rp_received m) \<longleftrightarrow> True"
| "client_ok P T (Rp_found m d) \<longleftrightarrow> d = GetTypeName P m \<and> d \<in> dom (rt_handlers T)"
| "client_ok P T (Rp_running m ob) \<longleftrightarrow> rt_handlers T (GetTypeName P m) = Some ob"
| "client_ok P T (Rp_replied m r) \<longleftrightarrow> (\<exists>h. (GetTypeName P m, h) \<in> set (rt_log T) \<and> r = h m)"
| "client_ok P T (Rp_unknown m) \<longleftrightarrow> True"
| "client_ok P T Rp_faulted \<longleftrightarrow> False"

definition rpc_inv :: "'m protobuf \<Rightarrow> 'm rpc_table \<Rightarrow> bool" where
  "rpc_inv P T \<longleftrightarrow> (\<forall>ob\<in>ran (rt_handlers T). ob < rt_next T) \<and> (distinct (map fst (rt_log T)) \<longrightarrow> objects_ok T \<and> (\<forall>pc\<in>set (rt_clients T). client_ok P T pc))"

lemma new_rpc_inv: "rpc_inv P (new_rpc ms)"
  by (auto simp: rpc_inv_def objects_ok_def new_rpc_def)

lemma objects_okD:
  "objects_ok T \<Longrightarrow> rt_handlers T d = Some ob \<Longrightarrow> ob < rt_next T \<and> (\<exists>h. rt_objects T ob = Some h \<and> (d, h) \<in> set (rt_log T))"
  unfolding objects_ok_def by blast

lemma client_next_ok: "objects_ok T \<Longrightarrow> client_ok P T pc \<Longrightarrow> client_ok P T (client_next P T pc)"
proof (cases pc)
  case (Rp_running m ob)
  assume "objects_ok T" "client_ok P T pc"
  with Rp_running obtain h where "rt_objects T ob = Some h" "(GetTypeName P m, h) \<in> set (rt_log T)"
    using objects_okD [of T "GetTypeName P m" ob] by auto
  with Rp_running show ?thesis by auto
qed (auto simp: objects_ok_def split: option.split)

lemma client_ok_clients: "client_ok P (T\<lparr>rt_clients := cs\<rparr>) pc = client_ok P T pc"
  by (cases pc) simp_all

lemma client_step_inv: "i < length (rt_clients T) \<Longrightarrow> rpc_inv P T \<Longrightarrow> rpc_inv P (client_step P i T)"
proof -
  assume i: "i < length (rt_clients T)" and inv: "rpc_inv P T"
  have "client_ok P T pc" if "objects_ok T" "\<forall>pc\<in>set (rt_clients T). client_ok P T pc"
    "pc \<in> set ((rt_clients T)[i := client_next P T (rt_clients T ! i)])" for pc
    using that client_next_ok [OF that(1), of P "rt_clients T ! i"] nth_mem [OF i] set_update_subset_insert by fastforce
  with inv show ?thesis by (auto simp: rpc_inv_def client_step_def objects_ok_def client_ok_clients)
qed

lemma register_new:
  assumes "objects_ok T" "d \<notin> dom (rt_handlers T)"
  shows "objects_ok (table_register d h T)" "client_ok P T pc \<Longrightarrow> client_ok P (table_register d h T) pc"
proof -
  have d: "rt_handlers T d = None" using assms(2) by blast
  let ?T = "table_register d h T"
  have "rt_handlers ?T d' = Some ob \<Longrightarrow> ob < rt_next ?T \<and> (\<exists>h. rt_objects ?T ob = Some h \<and> (d', h) \<in> set (rt_log ?T))" for d' ob
  proof (cases "d' = d")
    case False
    assume "rt_handlers ?T d' = Some ob"
    then have "rt_handlers T d' = Some ob" using False by (simp add: table_register_def Let_def)
    from objects_okD [OF assms(1) this] d show ?thesis by (auto simp: table_register_def)
  qed (auto simp: table_register_def Let_def)
  moreover have "dom (rt_handlers ?T) = fst ` set (rt_log ?T)" using assms(1) by (auto simp: objects_ok_def table_register_def Let_def)
  ultimately show "objects_ok ?T" unfolding objects_ok_def by blast
  show "client_ok P (table_register d h T) pc" if "client_ok P T pc"
    using that d by (cases pc) (auto simp: table_register_def)
qed

lemma register_inv: "rpc_inv P T \<Longrightarrow> rpc_inv P (table_register d h T)"
proof -
  assume inv: "rpc_inv P T"
  have "objects_ok (table_register d h T) \<and> (\<forall>pc\<in>set (rt_clients T). client_ok P (table_register d h T) pc)"
    if "distinct (map fst (rt_log T) @ [d])"
  proof -
    from that inv have ok: "objects_ok T" "\<forall>pc\<in>set (rt_clients T). client_ok P T pc" by (auto simp: rpc_inv_def)
    moreover have "d \<notin> dom (rt_handlers T)" using that ok(1) by (auto simp: objects_ok_def)
    ultimately show ?thesis using register_new by blast
  qed
  moreover have "ob < rt_next T + 1" if "ob \<in> ran ((rt_handlers T)(d \<mapsto> rt_next T))" for ob
    using inv that by (auto simp: rpc_inv_def ran_def less_Suc_eq split: if_splits)
  ultimately show ?thesis by (auto simp: rpc_inv_def table_register_def Let_def)
qed

interpretation rpc: inv_steps "rpc_step P" "rpc_inv P" for P
  by unfold_locales (auto elim!: rpc_step.cases intro: client_step_inv register_inv)

text \<open>
  C31: callback objects of the RPC server, for any number of connections and any interleaving with registrations. As long as no
  message type is registered twice, no connection uses a destroyed object, and a reply is what the handler registered for the
  type makes of the message. A type registered again while a connection is inside its handler destroys that handler: the
  connection then uses a destroyed object.
\<close>

theorem rpc_handler_lifetime:
  assumes "(rpc_step P)\<^sup>*\<^sup>* (new_rpc ms) T"
  shows "(distinct (map fst (rt_log T)) \<longrightarrow> Rp_faulted \<notin> set (rt_clients T) \<and>
      (\<forall>m r. Rp_replied m r \<in> set (rt_clients T) \<longrightarrow> (\<exists>h. (GetTypeName P m, h) \<in> set (rt_log T) \<and> r = h m))) \<and>
    (\<forall>i m ob h. i < length (rt_clients T) \<and> rt_clients T ! i = Rp_running m ob \<and> rt_handlers T (GetTypeName P m) = Some ob \<longrightarrow>
      (rpc_step P)\<^sup>*\<^sup>* T (client_step P i (table_register (GetTypeName P m) h T)) \<and>
      rt_clients (client_step P i (table_register (GetTypeName P m) h T)) ! i = Rp_faulted)"
proof (intro conjI allI impI)
  note inv = rpc.steps_inv [OF assms new_rpc_inv]
  assume "distinct (map fst (rt_log T))"
  with inv have ok: "\<forall>pc\<in>set (rt_clients T). client_ok P T pc" by (simp add: rpc_inv_def)
  then show "Rp_faulted \<notin> set (rt_clients T)" by (metis client_ok.simps(6))
  show "\<exists>h. (GetTypeName P m, h) \<in> set (rt_log T) \<and> r = h m" if "Rp_replied m r \<in> set (rt_clients T)" for m r
    using ok that by (metis client_ok.simps(4))
next
  fix i m ob h
  let ?R = "table_register (GetTypeName P m) h T"
  assume a: "i < length (rt_clients T) \<and> rt_clients T ! i = Rp_running m ob \<and> rt_handlers T (GetTypeName P m) = Some ob"
  then have "rpc_step P ?R (client_step P i ?R)" by (intro rpc_step.serves) (simp add: table_register_def Let_def)
  moreover have "rpc_step P T ?R" by (rule rpc_step.registers)
  ultimately show "(rpc_step P)\<^sup>*\<^sup>* T (client_step P i ?R)" by (meson converse_rtranclp_into_rtranclp rtranclp.rtrancl_refl)
  have "ob < rt_next T" using a rpc.steps_inv [OF assms new_rpc_inv] by (auto simp: rpc_inv_def ran_def)
  with a show "rt_clients (client_step P i ?R) ! i = Rp_faulted" by (simp add: client_step_def table_register_def Let_def)
qed

text \<open>A handler is registered and a connection gets into it; a second registration comes before the handler returns.\<close>

definition rpc_example :: "byte list rpc_table" where
  "rpc_example = client_step bytes_proto 0 (client_step bytes_proto 0 (table_register ''bytes'' rev (new_rpc [''ping''])))"

lemma rpc_example_reach: "(rpc_step bytes_proto)\<^sup>*\<^sup>* (new_rpc [''ping'']) rpc_example"
proof -
  let ?A = "table_register ''bytes'' rev (new_rpc [''ping''])"
  have "rpc_step bytes_proto (new_rpc [''ping'']) ?A" by (rule rpc_step.registers)
  moreover have "rpc_step bytes_proto ?A (client_step bytes_proto 0 ?A)"
    by (rule rpc_step.serves) (simp add: table_register_def new_rpc_def)
  moreover have "rpc_step bytes_proto (client_step bytes_proto 0 ?A) rpc_example"
    unfolding rpc_example_def by (rule rpc_step.serves) (simp add: client_step_def table_register_def new_rpc_def)
  ultimately show ?thesis by (meson converse_rtranclp_into_rtranclp rtranclp.rtrancl_refl)
qed

lemma rpc_example_state:
  "rt_clients rpc_example = [Rp_running ''ping'' 0]" "rt_handlers rpc_example = [''bytes'' \<mapsto> 0]" "rt_next rpc_example = 1"
  "rt_log rpc_example = [(''bytes'', rev)]"
  by (simp_all add: rpc_example_def client_step_def table_register_def new_rpc_def bytes_proto_ok)

theorem rpc_handler_lifetime_witness:
  "Rp_faulted \<notin> set (rt_clients rpc_example) \<and>
   rt_clients (client_step bytes_proto 0 (table_register ''bytes'' id rpc_example)) ! 0 = Rp_faulted"
  using rpc_handler_lifetime [OF rpc_example_reach] by (simp add: rpc_example_state bytes_proto_ok)

end
