(* ===== verification/Session_Life.thy ===== *)
theory Session_Life
  imports Http_Server Socket
begin

text \<open>
  The life of a connection of the HTTP server: the \<open>SocketStream\<close> that owns its socket (\<open>src/reyao/socket_stream.cc\<close>), and the end of
  \<open>HttpServer::handleClient\<close> with the destructors that follow it, on the return and on the exception path.
\<close>

text \<open>The socket is shared with the task that runs \<open>handleClient\<close>; its state is passed along.\<close>

record stream =
  sm_sock :: "sock option"
  sm_owner :: bool

definition new_SocketStream :: "sock option \<Rightarrow> bool \<Rightarrow> stream" where
  "new_SocketStream s owner = \<lparr> sm_sock = s, sm_owner = owner \<rparr>"

definition sm_close :: "stream \<Rightarrow> 'f os \<Rightarrow> (stream \<times> 'f os) res" where
  "sm_close m X =
     (case sm_sock m of
        None \<Rightarrow> Inr (m, X)
      | Some s \<Rightarrow> map_res (\<lambda>(_, s, X). (m\<lparr>sm_sock := Some s\<rparr>, X)) (sk_close s X))"

definition delete_SocketStream :: "stream \<Rightarrow> 'f os \<Rightarrow> (stream \<times> 'f os) res" where
  "delete_SocketStream m X = (if sm_owner m then sm_close m X else Inr (m, X))"

definition sm_isConnected :: "stream \<Rightarrow> bool" where
  "sm_isConnected m = (case sm_sock m of None \<Rightarrow> False | Some s \<Rightarrow> isConnected s)"

definition new_HttpSession :: "sock \<Rightarrow> stream" where
  "new_HttpSession s = new_SocketStream (Some s) True"

text \<open>Exceptions unwind the stack and reach \<open>Coroutine::Entry\<close>; the other errors end the program.\<close>

definition thrown :: "cpp_error \<Rightarrow> bool" where
  "thrown e \<longleftrightarrow> e \<in> {Out_of_range, Length_error, Invalid_argument}"

text \<open>
  \<open>handleClient\<close> on a socket: its loop, \<open>session.close()\<close> when the loop has ended, and the destructor of the session. The
  result is what the loop gave, with the socket for the task that still holds it.
\<close>

definition http_connection ::
    "(string \<Rightarrow> string \<Rightarrow> int) \<Rightarrow> servlet_dispatch \<Rightarrow> bool \<Rightarrow> recv_event list \<Rightarrow> sock \<Rightarrow> 'f os \<Rightarrow>
     (byte list list res \<times> stream \<times> 'f os) res option" where
  "http_connection fnmatch dispatch keepAlive evs s X =
     (let session = new_HttpSession s in
      case handleClient fnmatch dispatch keepAlive evs of
        None \<Rightarrow> None
      | Some (Inl e) \<Rightarrow>
          Some (if thrown e then map_res (\<lambda>(m, X). (Inl e, m, X)) (delete_SocketStream session X) else Inl e)
      | Some (Inr (sent, _)) \<Rightarrow>
          Some (rbind (sm_close session X) (\<lambda>(m, X).
            map_res (\<lambda>(m, X). (Inr sent, m, X)) (delete_SocketStream m X))))"

text \<open>
  C36: a served connection is closed exactly once, whether \<open>handleClient\<close> returns or an exception of the parser ends it. The
  descriptor is given to the kernel once, although the loop, the session and the socket close it in turn, so a descriptor
  that is used again in between is not hit; its context is gone and whoever waits for it is woken. The stream is not
  connected any more, and destroying the socket later does nothing.
\<close>

theorem connection_closed_once:
  assumes "ep_reach A D (os_ep X)" "t_hookEnable (os_hook X)" "0 \<le> sockfd s"
    "handleClient fnmatch dispatch keepAlive evs = Some r" "case r of Inl e \<Rightarrow> thrown e | Inr _ \<Rightarrow> True"
  shows "\<exists>m s' X'. http_connection fnmatch dispatch keepAlive evs s X = Some (Inr (map_res fst r, m, X')) \<and>
    os_closed X' = os_closed X @ [sockfd s] \<and> ctx_at (sockfd s) (os_hook X') = None \<and>
    mset (scheduled (os_ep X')) + waiting (os_ep X') = mset (scheduled (os_ep X)) + waiting (os_ep X) \<and>
    \<not> sm_isConnected m \<and> sm_sock m = Some s' \<and> delete_Socket s' X' = Inr X'"
proof -
  from sk_close_ok [OF assms(1-3)] obtain s' X' where c: "sk_close s X = Inr (True, s', X')" "sk_state s' = CLOSE"
    "os_closed X' = os_closed X @ [sockfd s]" "ctx_at (sockfd s) (os_hook X') = None"
    "mset (scheduled (os_ep X')) + waiting (os_ep X') = mset (scheduled (os_ep X)) + waiting (os_ep X)"
    "sk_close s' X' = Inr (True, s', X')" by blast
  let ?m = "new_SocketStream (Some s') True"
  have m: "sm_close (new_HttpSession s) X = Inr (?m, X')" "delete_SocketStream (new_HttpSession s) X = Inr (?m, X')"
    "delete_SocketStream ?m X' = Inr (?m, X')"
    using c(1,6) by (simp_all add: sm_close_def delete_SocketStream_def new_HttpSession_def new_SocketStream_def)
  have "http_connection fnmatch dispatch keepAlive evs s X = Some (Inr (map_res fst r, ?m, X'))"
    using assms(4,5) m by (cases r) (auto simp: http_connection_def)
  moreover have "\<not> sm_isConnected ?m" "sm_sock ?m = Some s'" "delete_Socket s' X' = Inr X'"
    using c(2,6) by (simp_all add: sm_isConnected_def isConnected_def new_SocketStream_def delete_Socket_def)
  ultimately show ?thesis using c(3-5) by blast
qed

theorem connection_closed_once_witness:
  "\<exists>m X'. http_connection (\<lambda>_ _. 1) new_ServletDispatch True [Recv_bytes []] sock_example os_example = Some (Inr (Inr [], m, X')) \<and>
     os_closed X' = [4]"
proof -
  obtain r where r: "handleClient (\<lambda>_ _. 1) new_ServletDispatch True [Recv_bytes []] = Some r" "map_res fst r = Inr []"
    using serve_conversation [of "[]" "[]" "\<lambda>_ _. 1" new_ServletDispatch "[]"] by (auto simp: handleClient_def)
  have "ep_reach {#} {#} (os_ep os_example)" by (simp add: os_example_def ep_reach.intros)
  moreover have "0 \<le> sockfd sock_example" "sockfd sock_example = 4" "os_closed os_example = []"
    by (simp_all add: sock_example_def os_example_def)
  moreover have "case r of Inl e \<Rightarrow> thrown e | Inr _ \<Rightarrow> True" using r(2) by (cases r) simp_all
  ultimately show ?thesis
    using connection_closed_once [OF _ os_example_ctx(1) _ r(1), of "{#}" "{#}" sock_example] r(2) by fastforce
qed

end
