(* ===== verification/Spec2Isabelle.thy ===== *)
theory Spec2Isabelle
  imports Example_Server Rpc_Codec Worker_System Worker_Pool Team_System Scheduler_Life Fd_Table Sync Log_Names Log_Appender Tcp_Server Servlet_Table Thread_Start Hook_Origin Rpc_Table Session_Life
begin

text \<open>
  \<^bold>\<open>A model of reyao\<close>, a C++ network library in which a blocking call suspends a coroutine instead of a thread:
  coroutines on worker threads with epoll and timers, replaced system calls, buffers, sockets, and HTTP and
  RPC servers on top. This theory imports the others and holds no definitions of its own; each theory below
  models the files named with it and proves their properties.

  \<^bold>\<open>Parts and how they interact.\<close> A \<open>Scheduler\<close> owns a main worker and worker threads and deals tasks to them
  in turn. A \<open>Worker\<close> takes tasks (coroutines or functions) from its queue, runs each in a coroutine, and polls
  with its \<open>Epoller\<close> when the queue is empty; the poller puts the coroutines of ready descriptors and the
  callbacks of expired timers (\<open>TimeManager\<close>) back into queues. The replaced system calls (\<open>hook.cc\<close>, with the
  contexts of \<open>FdManager\<close>) register the running coroutine with the poller and suspend it. \<open>Socket\<close>, \<open>SocketStream\<close>
  and \<open>ByteArray\<close> carry bytes; \<open>TcpServer\<close> accepts connections and deals them to workers; the HTTP parser,
  servlets and session, and the RPC codec, work on those bytes. \<open>Logger\<close> formats records and hands them to the
  writer thread of \<open>AsyncLog\<close>.

  \<^bold>\<open>Theories.\<close>
  \<^item> \<open>Reyao_Prelude\<close>: errors as values (\<open>cpp_error\<close>, \<open>res\<close>), \<open>size_t\<close> and \<open>int\<close> arithmetic with wrap-around, C division,
    memory blocks, lemma collections.
  \<^item> \<open>Endian\<close> (\<open>endian.h\<close>), \<open>C_Text\<close> (the C string functions used), \<open>Util\<close> (\<open>util.cc\<close>): byte swapping, decimal and
    hexadecimal numbers, reading a file.
  \<^item> \<open>Byte_Queue\<close>: the locale of a byte queue, its clients' lemmas; \<open>Byte_Array\<close> (\<open>bytearray.cc\<close>): the buffer, its
    invariant, the refinement of the queue by interpretation, round trips of typed values and strings, files.
  \<^item> \<open>Header_Map\<close>, \<open>Http_Message\<close> (\<open>http_request.cc\<close>, \<open>http_response.cc\<close>): case-insensitive maps and the two messages.
  \<^item> \<open>Socket_Stream\<close> (\<open>socket_stream.cc\<close>), \<open>Http_Parser\<close> (\<open>http_parser.cc\<close>), \<open>Http_Machine\<close>: the parsers as written, and
    an abstract machine on bytes; \<open>Http_Parsing\<close>, \<open>Http_Parsing_More\<close>: the parsers compute what the machine does
    on the concatenation of the pieces, for every way the bytes arrive; round trips with the dumps; the error
    cases.
  \<^item> \<open>Servlet\<close> (\<open>http_servlet.cc\<close>), \<open>Http_Server\<close> (\<open>http_session.cc\<close>, \<open>http_server.cc\<close>): routing and whole conversations;
    \<open>Servlet_Table\<close>: routing while threads register and remove servlets under the read-write lock; \<open>Session_Life\<close>: the end
    of a connection, by return or exception, with the destructors that close it;
    \<open>Example_Server\<close> (\<open>cmd/http_server.cc\<close>): the program that serves one page, from the bytes its clients send to the
    responses they parse.
  \<^item> \<open>Rpc_Codec\<close> (\<open>rpc/\<close>): frames, the receiving loop, one call from client to handler and back; \<open>Rpc_Table\<close>: the
    callback objects while several threads serve connections and register handlers.
  \<^item> \<open>Ordered_Set\<close>: the locale of \<open>std::set\<close> with a comparator; \<open>Timer\<close> (\<open>timer.cc\<close>): timers that change their own
    keys, by interpretation of that locale; reachable states, expiry, cancelling.
  \<^item> \<open>Epoller\<close> (\<open>epoller.cc\<close>): the event table against the kernel's interest list; no task is lost or run twice, no
    assertion fails; what a turn of \<open>wait\<close> does, and what it does wrong.
  \<^item> \<open>Coroutine\<close> (\<open>coroutine.cc\<close>, \<open>stackalloc.cc\<close>), \<open>Worker\<close> (\<open>worker.cc\<close>): switches with their assertions, what each state of
    a coroutine admits, stacks between closed pages; the locale
    \<open>guest\<close> of the code that runs in coroutines, and the loop of a worker for any such code; \<open>Worker_System\<close>: the
    interpretation with programs of sleeps, waits and spawns over the real poller and timers. \<open>Worker_Team\<close>: any number
    of workers with shared surroundings, in the locale \<open>team_guest\<close>, which gives each of them the locale \<open>guest\<close>;
    \<open>Team_System\<close>: its interpretation with programs that sleep, transfer with timeouts and add tasks to other workers.
  \<^item> \<open>Scheduler\<close> (\<open>scheduler.cc\<close>): dealing tasks in turn; the interleaving in which a wake-up is lost. \<open>Scheduler_Life\<close>
    (with \<open>workerthread.cc\<close>): starting, stopping and joining the threads; when \<open>wait\<close> returns.
  \<^item> \<open>Hook\<close> (\<open>fdmanager.cc\<close>, \<open>hook.cc\<close>): contexts, the replaced calls; \<open>fcntl\<close> against the native call, blocking
    transfers, \<open>close\<close>. \<open>Worker_Pool\<close>: these calls with several workers, each with its poller, and the timers they
    share. \<open>Fd_Table\<close>: the contexts used by several threads under their read-write lock. \<open>Hook_Origin\<close>: finding the
    original calls at start-up.
  \<^item> \<open>Thread_Start\<close> (\<open>thread.cc\<close>): \<open>start\<close> interleaved with the thread it creates, names and identifiers, and the map from
    threads to workers.
  \<^item> \<open>Transitions\<close>: locales of step relations with an invariant and with a rank, interpreted wherever threads
    interleave; \<open>Sync\<close> (\<open>mutex.cc\<close>, \<open>thread.cc\<close>, the lock of \<open>coroutine.h\<close>): exclusion and deadlock of the spin lock, the
    latch; \<open>Locks\<close> (\<open>mutex.cc\<close>): mutex and read-write lock as instances of one locale, in which sections made of small
    steps are shown to be atomic; its extension \<open>guarded_ops\<close> is interpreted for each table behind a lock.
  \<^item> \<open>Async_Log\<close> (\<open>fixedbuffer.h\<close>, \<open>asynclog.cc\<close>), \<open>Log\<close> (\<open>log.cc\<close>): order and delivery of messages for every
    interleaving with the writer thread; what a pattern prints; log statements from level to file. \<open>Log_Rolling\<close>,
    \<open>Log_Names\<close>: the size of the files and their names, which sort by local time; \<open>Log_Appender\<close>: the console, and what happens when appenders are replaced.
  \<^item> \<open>Address\<close> (\<open>address.cc\<close>), \<open>Socket\<close> (\<open>socket.cc\<close>), \<open>Tcp_Server\<close> (\<open>tcp_server.cc\<close>, \<open>tcp_client.cc\<close>): addresses, the life
    of a socket on the replaced calls, timeouts, and the accept loop with the scheduler.

  \<^bold>\<open>Conventions.\<close> A class is a record, its methods take and return it; an exception, a failed assertion or an
  access through a bad pointer is a value \<open>Inl e\<close>. Objects shared through pointers (timers, coroutines) live in
  a map from addresses. What the kernel or another process answers is an argument: lists of outcomes of
  \<open>recv\<close>, \<open>send\<close>, \<open>accept\<close>, \<open>epoll_wait\<close>, \<open>fwrite\<close>, and the clock. Third-party code (protocol buffers, \<open>fnmatch\<close>,
  name resolution, the time zone) is an argument of the definitions that use it. Threads interleave in step
  relations whose steps are the critical sections and atomic accesses of the source.

  \<^bold>\<open>Bounds and fuel.\<close> The parsing loops are \<open>partial_function (option)\<close>, \<open>None\<close> being a loop that does not return;
  the theorems show that they return. The buffered input of a parser is bounded by 2147470312 bytes for
  requests and 1946156000 for responses, because \<open>ByteArray::addCapacity\<close> takes an \<open>int\<close> and a read asks for 4
  KiB or 64 MiB at once. Descriptors are below \<open>2 ^ 31\<close>. Counters of coroutines and of waiting threads are
  unbounded integers. Lists of outcomes are finite; where they end the caller is suspended.

  \<^bold>\<open>Not modelled.\<close> Context switching itself (\<open>swapcontext\<close>) is the change of the current coroutine, the code of
  a coroutine being an argument; memory management apart from coroutine stacks and the callback objects of the RPC server;
  the conversions of \<open>printf\<close> and \<open>vasprintf\<close>, \<open>dlsym\<close>, the time zone and protocol buffers, which are arguments;
  singletons; the tests and the generated protocol buffer code. The headers are declarations of what the other files
  define. In \<open>Worker_Team\<close> a round of one worker (a task up to its next suspension, or a poll) is one step, and tasks for other
  workers are in their queues at its end; \<open>Scheduler\<close> has the smaller steps between \<open>addTask\<close> and \<open>epoll_wait\<close> for one worker.
\<close>

end
